(* ===== verification/Prelude.thy ===== *)
theory Prelude
  imports Main "HOL-Library.Word"
begin

section \<open>Prelude: machine types, faults, the result type\<close>

text \<open>
  The types and the generic lemmas that every component shares.  \<open>uint8_t\<close>, \<open>unsigned\<close>
  (= \<open>uint32_t\<close>) and \<open>uint64_t\<close> (= \<open>size_t\<close> on the LP64 targets of the Makefile) are words,
  a buffer is the list of its bytes.  A C function that can read or write outside a buffer,
  follow a bad pointer, divide by zero, call \<open>abort()\<close> or loop for ever returns a
  \<open>'a result\<close>: \<open>Inl\<close> the fault, \<open>Inr\<close> the value.  Loops with no bound in the code carry fuel;
  running out of it is the fault \<open>Diverges\<close>, and each such loop has a lemma that says how much
  fuel is enough.
\<close>

type_synonym byte = "8 word"
type_synonym u8 = "8 word"
type_synonym u32 = "32 word"
type_synonym u64 = "64 word"

datatype fault =
    OutOfBounds     \<comment> \<open>read or write outside an object\<close>
  | NullDeref
  | UseAfterFree
  | DivByZero
  | Aborted         \<comment> \<open>\<open>abort()\<close> reached, through \<open>ERROR\<close>, \<open>err\<close> or \<open>errSql\<close>\<close>
  | Uninitialised   \<comment> \<open>an uninitialised variable is read\<close>
  | Diverges        \<comment> \<open>the loop does not end within the fuel\<close>

type_synonym 'a result = "fault + 'a"

named_theorems res_simps \<open>computation rules of the result type\<close>

definition bindR :: "'a result \<Rightarrow> ('a \<Rightarrow> 'b result) \<Rightarrow> 'b result" where
  "bindR r f = (case r of Inl e \<Rightarrow> Inl e | Inr x \<Rightarrow> f x)"

lemma bindR_Inl [simp, res_simps]: "bindR (Inl e) f = Inl e"
  by (simp add: bindR_def)

lemma bindR_Inr [simp, res_simps]: "bindR (Inr x) f = f x"
  by (simp add: bindR_def)

lemma bindR_cong [fundef_cong]:
  "r = r' \<Longrightarrow> (\<And>x. r' = Inr x \<Longrightarrow> f x = g x) \<Longrightarrow> bindR r f = bindR r' g"
  by (simp add: bindR_def split: sum.split)

text \<open>For the evaluation of loops: the continuation is not rewritten before its argument is known.\<close>

lemma bindR_weak_cong: "r = r' \<Longrightarrow> bindR r f = bindR r' f"
  by simp

lemma bindR_eq_Inr [res_simps]: "bindR r f = Inr y \<longleftrightarrow> (\<exists>x. r = Inr x \<and> f x = Inr y)"
  by (simp add: bindR_def split: sum.split)

lemma bindR_eq_Inl [res_simps]:
  "bindR r f = Inl e \<longleftrightarrow> r = Inl e \<or> (\<exists>x. r = Inr x \<and> f x = Inl e)"
  by (auto simp add: bindR_def split: sum.split)

lemma bindR_assoc: "bindR (bindR r f) g = bindR r (\<lambda>x. bindR (f x) g)"
  by (simp add: bindR_def split: sum.split)

lemma bindR_InrE:
  assumes "bindR r f = Inr y"
  obtains x where "r = Inr x" and "f x = Inr y"
  using assms by (auto simp: bindR_eq_Inr)

subsection \<open>Buffers\<close>

definition readAt :: "'a list \<Rightarrow> nat \<Rightarrow> 'a result" where
  "readAt xs i = (if i < length xs then Inr (xs ! i) else Inl OutOfBounds)"

definition writeAt :: "'a list \<Rightarrow> nat \<Rightarrow> 'a \<Rightarrow> 'a list result" where
  "writeAt xs i x = (if i < length xs then Inr (xs[i := x]) else Inl OutOfBounds)"

lemma readAt_in [simp]: "i < length xs \<Longrightarrow> readAt xs i = Inr (xs ! i)"
  by (simp add: readAt_def)

lemma readAt_out [simp]: "length xs \<le> i \<Longrightarrow> readAt xs i = Inl OutOfBounds"
  by (simp add: readAt_def)

lemma readAt_eq_Inr: "readAt xs i = Inr x \<longleftrightarrow> i < length xs \<and> x = xs ! i"
  by (auto simp: readAt_def)

lemma readAt_eq_Inl: "readAt xs i = Inl e \<longleftrightarrow> length xs \<le> i \<and> e = OutOfBounds"
  by (auto simp: readAt_def)

lemma writeAt_in [simp]: "i < length xs \<Longrightarrow> writeAt xs i x = Inr (xs[i := x])"
  by (simp add: writeAt_def)

lemma writeAt_out [simp]: "length xs \<le> i \<Longrightarrow> writeAt xs i x = Inl OutOfBounds"
  by (simp add: writeAt_def)

lemma writeAt_eq_Inr: "writeAt xs i x = Inr ys \<longleftrightarrow> i < length xs \<and> ys = xs[i := x]"
  by (auto simp: writeAt_def)

text \<open>Rules for running a function over results.\<close>

lemmas res_eqs = bindR_eq_Inr bindR_eq_Inl readAt_eq_Inr readAt_eq_Inl writeAt_eq_Inr

subsection \<open>Lists\<close>

lemma drop_eq_append_nth:
  "drop p m = xs @ ys \<Longrightarrow> i < length xs \<Longrightarrow> p \<le> length m \<Longrightarrow>
     p + i < length m \<and> m ! (p + i) = xs ! i"
  by (metis add_less_cancel_left le_add_diff_inverse length_append length_drop nth_append
      nth_drop trans_less_add1)

lemma drop_append_add: "drop p m = xs @ ys \<Longrightarrow> drop (p + length xs) m = ys"
  by (metis add.commute append_eq_conv_conj drop_drop)

lemma length_drop_append: "drop p m = xs @ ys \<Longrightarrow> p \<le> length m \<Longrightarrow>
     length m = p + length xs + length ys"
  by (metis add.assoc le_add_diff_inverse length_append length_drop)

lemma drop_eq_Cons: "drop p m = y # ys \<longleftrightarrow> p < length m \<and> m ! p = y \<and> drop (Suc p) m = ys"
  by (metis Cons_nth_drop_Suc drop_all leI list.distinct(1) list.inject)

lemma drop_append_Cons:
  assumes "drop p m = xs @ y # ys"
  shows "p + length xs < length m" "m ! (p + length xs) = y" "drop (p + (length xs + 1)) m = ys"
  using drop_append_add [OF assms] by (simp_all add: drop_eq_Cons)

subsection \<open>Tables: lists of rows with a key\<close>

definition lookupBy :: "('r \<Rightarrow> 'k) \<Rightarrow> 'r list \<Rightarrow> 'k \<Rightarrow> 'r option" where
  "lookupBy key rows k = find (\<lambda>r. key r = k) rows"

lemma lookupBy_SomeD: "lookupBy key rows k = Some r \<Longrightarrow> r \<in> set rows \<and> key r = k"
  by (auto simp: lookupBy_def find_Some_iff)

lemma lookupBy_None: "lookupBy key rows k = None \<longleftrightarrow> k \<notin> key ` set rows"
  by (auto simp: lookupBy_def find_None_iff)

lemma lookupBy_unique:
  "distinct (map key rows) \<Longrightarrow> r \<in> set rows \<Longrightarrow> lookupBy key rows (key r) = Some r"
  by (induction rows) (auto simp: lookupBy_def)

lemma lookupBy_append:
  "lookupBy key rows (key r) = None \<Longrightarrow> lookupBy key (rows @ [r]) = (lookupBy key rows)(key r \<mapsto> r)"
  by (induction rows) (auto simp: lookupBy_def fun_eq_iff split: if_splits)

lemma lookupBy_map:
  "(\<And>r. key (f r) = key r) \<Longrightarrow>
     lookupBy key (map (\<lambda>r. if key r = k then f r else r) rows) =
     (lookupBy key rows)(k := map_option f (lookupBy key rows k))"
  by (induction rows) (auto simp: lookupBy_def fun_eq_iff)

lemma lookupBy_filter:
  "lookupBy key (filter (\<lambda>r. key r \<noteq> k) rows) = (lookupBy key rows)(k := None)"
  by (induction rows) (auto simp: lookupBy_def fun_eq_iff)

lemma count_unique:
  "distinct (map key rows) \<Longrightarrow>
     length (filter (\<lambda>r. key r = k) rows) = (if lookupBy key rows k = None then 0 else 1)"
  by (induction rows) (auto simp: lookupBy_def find_None_iff filter_empty_conv image_iff)

lemma update_by_other_key:
  assumes "distinct (map key rows)" "distinct (map key' rows)" "lookupBy key rows k = Some r"
  shows "map (\<lambda>x. if key' x = key' r then f x else x) rows = map (\<lambda>x. if key x = k then f x else x) rows"
proof (rule map_cong [OF refl])
  fix x
  assume "x \<in> set rows"
  moreover have "r \<in> set rows" "key r = k" using lookupBy_SomeD [OF assms(3)] by simp_all
  ultimately have "key' x = key' r \<longleftrightarrow> key x = k"
    using assms(1,2) by (auto simp: distinct_map inj_on_def)
  then show "(if key' x = key' r then f x else x) = (if key x = k then f x else x)" by simp
qed

subsection \<open>Words\<close>

lemma unat_of_nat_u8: "n < 256 \<Longrightarrow> unat (of_nat n :: u8) = n"
  by (simp add: unat_of_nat)

lemma unat_of_nat_u32: "n < 2 ^ 32 \<Longrightarrow> unat (of_nat n :: u32) = n"
  by (simp add: unat_of_nat)

lemma unat_of_nat_u64: "n < 2 ^ 64 \<Longrightarrow> unat (of_nat n :: u64) = n"
  by (simp add: unat_of_nat)

lemma unat_u32_bound: "unat (x :: u32) < 2 ^ 32"
  using unsigned_less [of x] by simp

lemma unat_u64_bound: "unat (x :: u64) < 2 ^ 64"
  using unsigned_less [of x] by simp

text \<open>Conversions between widths go through \<open>nat\<close>.\<close>

lemma ucast_via_nat: "(ucast (x :: 'a::len word) :: 'b::len word) = of_nat (unat x)"
  by simp

text \<open>Words as signed numbers.\<close>

lemma signed_value:
  fixes M :: int
  assumes "0 \<le> n" "n < 2 * M"
  shows "(n + M) mod (2 * M) - M = (if n < M then n else n - 2 * M)"
proof (cases "n < M")
  case False
  then have "(n + M - 2 * M) mod (2 * M) = n + M - 2 * M"
    using assms by (intro mod_pos_pos_trivial) auto
  then have "(n + M) mod (2 * M) = n + M - 2 * M" by (metis minus_mod_self2)
  then show ?thesis using False by simp
qed (use assms in simp)

lemma less_uint_iff: "unat w < 2 ^ n \<longleftrightarrow> uint w < 2 ^ n"
  using of_nat_less_iff [of "unat w" "2 ^ n", where 'a = int] by simp

lemma sint_u32: "sint (w :: u32) = (if unat w < 2 ^ 31 then uint w else uint w - 2 ^ 32)"
  using int_word_sint [of "uint w", where 'a = 32] signed_value [of "uint w" "2 ^ 31"]
    unsigned_less [of w, where 'a = int]
  unfolding less_uint_iff by simp

lemma sint_u64: "sint (w :: u64) = (if unat w < 2 ^ 63 then uint w else uint w - 2 ^ 64)"
  using int_word_sint [of "uint w", where 'a = 64] signed_value [of "uint w" "2 ^ 63"]
    unsigned_less [of w, where 'a = int]
  unfolding less_uint_iff by simp

lemma sint_nonneg: "0 \<le> sint (w :: u32) \<longleftrightarrow> unat w < 2 ^ 31"
  using unsigned_less [of w, where 'a = int] by (auto simp: sint_u32)

lemma sint_inject [simp]: "sint (v :: 'a :: len word) = sint w \<longleftrightarrow> v = w"
  by (auto dest: injD [OF inj_signed])

lemma sint_of_nat_u32: "n < 2 ^ 31 \<Longrightarrow> sint (of_nat n :: u32) = int n"
proof -
  assume n: "n < 2 ^ 31"
  then have u: "unat (of_nat n :: u32) = n" by (intro unat_of_nat_u32) simp
  have "uint (of_nat n :: u32) = int (unat (of_nat n :: u32))" by simp
  with n u show ?thesis unfolding sint_u32 by (simp only: if_True)
qed

lemma unat_pred: "1 \<le> unat w \<Longrightarrow> unat (w - 1) + 1 = unat w"
  by (cases "w = 0") (simp_all add: unat_minus_one unat_gt_0)

lemma unat_Suc_less: "a < (b :: 'a :: len word) \<Longrightarrow> unat (a + 1) = unat a + 1"
proof -
  assume ab: "a < b"
  then have "a \<noteq> -1" using word_order.extremum_strict by blast
  then show ?thesis by (metis add.commute add_eq_0_iff Suc_eq_plus1 unatSuc)
qed

lemma unat_max_u32: "unat (-1 :: u32) = 2 ^ 32 - 1"
  by (simp add: unsigned_minus_1_eq_mask mask_eq_exp_minus_1)

end
