(* ===== verification/Marker.thy ===== *)
theory Marker
  imports Prelude
begin

section \<open>marker.c: the fragment marker\<close>

text \<open>
  A fragment starts with a marker: a ZERO WIDTH SPACE (3 bytes of UTF-8), the message id in 13
  digits, the part number, the number of parts, the offset and the size of the whole message in
  decimal, separated by bars, and a second ZERO WIDTH SPACE.  This theory models every function
  of \<open>marker.c\<close>.  A message is the list of its \<open>length\<close> bytes; a read past its end is the fault
  \<open>OutOfBounds\<close>.  \<open>sprintf\<close> of \<open>%u\<close> and \<open>strtoul\<close> of a run of digits are the C library's and
  are modelled as far as the code uses them: decimal digits without leading zeros, and the value
  of the longest run of digits, saturated at \<open>ULONG_MAX\<close> (64 bits).

  The lemmas show what language the parser accepts (exactly), where it can read past the end
  (exactly), that printing and parsing round-trip, and that a marker fits the buffer that
  \<open>markerMaxSizeBytes\<close> reserves.
\<close>

subsection \<open>Constants\<close>

definition markerChar :: "byte list" where
  "markerChar = [0xe2, 0x80, 0x8b]"

abbreviation (input) szMarkerChar :: nat where "szMarkerChar \<equiv> 3"
abbreviation (input) szTm :: nat where "szTm \<equiv> 13"
abbreviation (input) szIntMin :: nat where "szIntMin \<equiv> 1"
abbreviation (input) szIntMax :: nat where "szIntMax \<equiv> 10"
abbreviation (input) nInts :: nat where "nInts \<equiv> 4"
abbreviation bar :: byte where "bar \<equiv> 0x7c"

subsection \<open>C library: isdigit, sprintf of an unsigned decimal, strtoul\<close>

definition isdigit :: "byte \<Rightarrow> bool" where
  "isdigit b \<longleftrightarrow> 48 \<le> b \<and> b \<le> 57"

fun decDigits :: "nat \<Rightarrow> byte list" where
  "decDigits n =
     (if n < 10 then [of_nat (48 + n)] else decDigits (n div 10) @ [of_nat (48 + n mod 10)])"

declare decDigits.simps [simp del]

definition decValue :: "byte list \<Rightarrow> nat" where
  "decValue ds = foldl (\<lambda>a d. a * 10 + (unat d - 48)) 0 ds"

text \<open>
  \<open>strtoull\<close> (and \<open>strtoul\<close>, \<open>unsigned long\<close> being 64 bits wide) at a position that holds a
  digit: it reads up to the first byte that is no digit, which must exist.
\<close>

definition strtoull :: "byte list \<Rightarrow> nat \<Rightarrow> nat result" where
  "strtoull str off =
     (let ds = takeWhile isdigit (drop off str)
      in if off + length ds < length str then Inr (min (decValue ds) (2 ^ 64 - 1))
         else Inl OutOfBounds)"

subsection \<open>The functions of marker.c\<close>

text \<open>\<open>numDigits\<close>: \<open>while (i /= 10) ndigits++\<close>.\<close>

fun numDigitsLoop :: "nat \<Rightarrow> nat \<Rightarrow> nat" where
  "numDigitsLoop i ndigits =
     (if i div 10 = 0 then ndigits else numDigitsLoop (i div 10) (ndigits + 1))"

declare numDigitsLoop.simps [simp del]

definition numDigits :: "u32 \<Rightarrow> nat" where
  "numDigits i = numDigitsLoop (unat i) 1"

definition markerMaxSizeBytes :: "u32 \<Rightarrow> u32 \<Rightarrow> u8" where
  "markerMaxSizeBytes numParts msgSize =
     (let numPartsDigits = numDigits numParts; msgSizeDigits = numDigits msgSize
      in of_nat (szMarkerChar + szTm + 1 + numPartsDigits + 1 + numPartsDigits
                 + 1 + msgSizeDigits + 1 + msgSizeDigits + szMarkerChar))"

text \<open>\<open>markerPrint\<close>: the bytes that \<open>sprintf\<close> writes before the terminating NUL.\<close>

definition markerPrint :: "u64 \<Rightarrow> u32 \<Rightarrow> u32 \<Rightarrow> u32 \<Rightarrow> u32 \<Rightarrow> byte list" where
  "markerPrint mid partNo numParts off sz =
     markerChar
     @ decDigits (unat mid) @ [bar]
     @ decDigits (unat partNo) @ [bar]
     @ decDigits (unat numParts) @ [bar]
     @ decDigits (unat off) @ [bar]
     @ decDigits (unat sz)
     @ markerChar"

text \<open>The value that \<open>markerPrint\<close> returns.\<close>

definition markerPrintRet :: "u64 \<Rightarrow> u32 \<Rightarrow> u32 \<Rightarrow> u32 \<Rightarrow> u32 \<Rightarrow> u8" where
  "markerPrintRet mid partNo numParts off sz =
     of_nat (length (markerPrint mid partNo numParts off sz))"

text \<open>\<open>isMarkerChar\<close> at position \<open>p\<close> of a message, with the short-circuit of \<open>&&\<close>.\<close>

definition isMarkerChar :: "byte list \<Rightarrow> nat \<Rightarrow> bool result" where
  "isMarkerChar msg p =
     bindR (readAt msg p) (\<lambda>a. if a \<noteq> markerChar ! 0 then Inr False else
     bindR (readAt msg (p + 1)) (\<lambda>b. if b \<noteq> markerChar ! 1 then Inr False else
     bindR (readAt msg (p + 2)) (\<lambda>c. Inr (c = markerChar ! 2))))"

text \<open>The inner loop of \<open>markerParseFields\<close>: at most \<open>k\<close> digits from \<open>i\<close> on, within the message.\<close>

fun scanDigits :: "byte list \<Rightarrow> nat \<Rightarrow> nat \<Rightarrow> nat" where
  "scanDigits msg 0 i = 0"
| "scanDigits msg (Suc k) i =
     (if i < length msg \<and> isdigit (msg ! i) then Suc (scanDigits msg k (i + 1)) else 0)"

text \<open>
  The outer loop, with \<open>k\<close> fields still to read at position \<open>p\<close>: \<open>None\<close> is \<open>return 0\<close>, \<open>Some\<close>
  holds the rest of the arrays \<open>fldOff\<close> and \<open>fldSz\<close>.
\<close>

fun parseFieldsFrom :: "byte list \<Rightarrow> nat \<Rightarrow> nat \<Rightarrow> (nat \<times> nat) list option result" where
  "parseFieldsFrom msg 0 p = Inr (Some [])"
| "parseFieldsFrom msg (Suc k) p =
     (let sz = scanDigits msg szIntMax p
      in if sz = 0 \<or> p + sz + 1 \<ge> length msg then Inr None
         else bindR (if 0 < k then bindR (readAt msg (p + sz)) (\<lambda>c. Inr (c = bar))
                     else isMarkerChar msg (p + sz))
           (\<lambda>ok. if \<not> ok then Inr None
                 else bindR (parseFieldsFrom msg k (p + (sz + 1)))
                   (\<lambda>r. Inr (map_option ((#) (p, sz)) r))))"

definition markerParseFields :: "byte list \<Rightarrow> (nat \<times> nat) list option result" where
  "markerParseFields msg =
     (if length msg \<le> szMarkerChar + szTm + nInts * (1 + szIntMin) + szMarkerChar then Inr None
      else bindR (isMarkerChar msg 0) (\<lambda>mc.
        if \<not> mc then Inr None
        else bindR (readAt msg (szMarkerChar + szTm)) (\<lambda>c.
          if c \<noteq> bar then Inr None
          else if \<not> list_all (\<lambda>i. isdigit (msg ! i)) [szMarkerChar..<szMarkerChar + szTm]
          then Inr None
          else parseFieldsFrom msg nInts (szMarkerChar + szTm + 1))))"

definition markerExists :: "byte list \<Rightarrow> bool result" where
  "markerExists msg = bindR (markerParseFields msg) (\<lambda>r. Inr (r \<noteq> None))"

record marker_info =
  mi_size :: u8         \<comment> \<open>the return value: the size of the marker\<close>
  mi_id :: u64
  mi_partNo :: u32
  mi_numParts :: u32
  mi_off :: u32
  mi_sz :: u32

definition parseUInt32 :: "byte list \<Rightarrow> nat \<Rightarrow> u32 result" where
  "parseUInt32 str off = bindR (strtoull str off) (\<lambda>n. Inr (of_nat n))"

definition parseUInt64 :: "byte list \<Rightarrow> nat \<Rightarrow> u64 result" where
  "parseUInt64 str off = bindR (strtoull str off) (\<lambda>n. Inr (of_nat n))"

text \<open>\<open>markerParse\<close>: \<open>None\<close> is the return value 0, with the out-parameters left alone.\<close>

definition markerParse :: "byte list \<Rightarrow> marker_info option result" where
  "markerParse msg =
     bindR (markerParseFields msg) (\<lambda>r. case r of None \<Rightarrow> Inr None | Some flds \<Rightarrow>
       bindR (parseUInt64 msg szMarkerChar) (\<lambda>mid.
       bindR (parseUInt32 msg (fst (flds ! 0))) (\<lambda>partNo.
       bindR (parseUInt32 msg (fst (flds ! 1))) (\<lambda>numParts.
       bindR (parseUInt32 msg (fst (flds ! 2))) (\<lambda>off.
       bindR (parseUInt32 msg (fst (flds ! 3))) (\<lambda>sz.
       Inr (Some \<lparr>mi_size = of_nat (fst (flds ! 3) + snd (flds ! 3) + szMarkerChar),
                  mi_id = mid, mi_partNo = partNo, mi_numParts = numParts,
                  mi_off = off, mi_sz = sz\<rparr>)))))))"

subsection \<open>Decimal digits\<close>

definition digits :: "byte list \<Rightarrow> bool" where
  "digits ds \<longleftrightarrow> (\<forall>d\<in>set ds. isdigit d)"

lemma digits_simps [simp]:
  "digits []" "digits (d # ds) \<longleftrightarrow> isdigit d \<and> digits ds"
  "digits (xs @ ys) \<longleftrightarrow> digits xs \<and> digits ys"
  by (auto simp: digits_def)

lemma not_isdigit [simp]: "\<not> isdigit 0x7c" "\<not> isdigit 0xe2"
  by (simp_all add: isdigit_def)

lemma markerChar_simps [simp]:
  "markerChar ! 0 = 0xe2" "markerChar ! Suc 0 = 0x80" "markerChar ! 2 = 0x8b"
  "length markerChar = 3"
  by (simp_all add: markerChar_def numeral_2_eq_2)

lemma unat_digit: "n < 10 \<Longrightarrow> unat (of_nat (48 + n) :: byte) = 48 + n"
  by (simp only: unat_of_nat) simp

lemma isdigit_digit: "n < 10 \<Longrightarrow> isdigit (of_nat (48 + n))"
  by (simp only: isdigit_def word_le_nat_alt unat_digit) simp

lemma digits_decDigits [simp]: "digits (decDigits n)"
proof (induction n rule: decDigits.induct)
  case (1 n)
  show ?case
    using isdigit_digit [of n] isdigit_digit [of "n mod 10"] "1"
    by (subst decDigits.simps) (auto simp del: of_nat_add)
qed

lemma decValue_snoc: "decValue (ds @ [d]) = decValue ds * 10 + (unat d - 48)"
  by (simp add: decValue_def)

lemma decValue_decDigits [simp]: "decValue (decDigits n) = n"
proof (induction n rule: decDigits.induct)
  case (1 n)
  show ?case
  proof (cases "n < 10")
    case True
    then show ?thesis
      by (subst decDigits.simps) (simp add: decValue_def unat_digit del: of_nat_add)
  next
    case False
    with "1" show ?thesis
      by (subst decDigits.simps) (simp add: decValue_snoc unat_digit del: of_nat_add)
  qed
qed

lemma decDigits_ne [simp]: "decDigits n \<noteq> []"
  by (subst decDigits.simps) simp

lemma length_decDigits_le: "0 < k \<Longrightarrow> length (decDigits n) \<le> k \<longleftrightarrow> n < 10 ^ k"
proof (induction n arbitrary: k rule: decDigits.induct)
  case (1 n)
  show ?case
  proof (cases "n < 10")
    case True
    with "1.prems" have "n < 10 ^ k"
      by (metis less_le_trans power_increasing power_one_right Suc_leI One_nat_def one_le_numeral)
    with True "1.prems" show ?thesis by (subst decDigits.simps) simp
  next
    case False
    obtain j where k: "k = Suc j" using "1.prems" by (cases k) auto
    have "length (decDigits n) \<le> k \<longleftrightarrow> length (decDigits (n div 10)) \<le> j"
      using False k by (subst decDigits.simps) simp
    also have "\<dots> \<longleftrightarrow> n div 10 < 10 ^ j"
    proof (cases "j = 0")
      case True
      with False show ?thesis by simp
    next
      case j0: False
      with False show ?thesis using "1.IH" by simp
    qed
    also have "\<dots> \<longleftrightarrow> n < 10 ^ k"
      using k by (simp add: div_less_iff_less_mult mult.commute)
    finally show ?thesis .
  qed
qed

lemma length_decDigits_pos: "0 < length (decDigits n)"
  by simp

lemma length_decDigits_mono: "m \<le> n \<Longrightarrow> length (decDigits m) \<le> length (decDigits n)"
  by (metis length_decDigits_le length_decDigits_pos le_less_trans order_refl)

lemma length_decDigits_eq:
  "0 < k \<Longrightarrow> length (decDigits n) = Suc k \<longleftrightarrow> 10 ^ k \<le> n \<and> n < 10 ^ Suc k"
  using length_decDigits_le [of k n] length_decDigits_le [of "Suc k" n] by linarith

lemma decValue_less: "digits ds \<Longrightarrow> decValue ds < 10 ^ length ds"
proof (induction ds rule: rev_induct)
  case Nil
  then show ?case by (simp add: decValue_def)
next
  case (snoc d ds)
  have "unat d - 48 \<le> 9"
    using snoc.prems by (auto simp: isdigit_def word_le_nat_alt)
  with snoc show ?case by (simp add: decValue_snoc)
qed

lemma numDigitsLoop_eq: "numDigitsLoop i n + 1 = n + length (decDigits i)"
proof (induction i n rule: numDigitsLoop.induct)
  case (1 i n)
  show ?case
    using "1" by (subst numDigitsLoop.simps, subst decDigits.simps) auto
qed

lemma numDigits_eq: "numDigits i = length (decDigits (unat i))"
  using numDigitsLoop_eq [of "unat i" 1] by (simp add: numDigits_def)

lemma unat_u32_less: "unat (x :: u32) < 10 ^ 10"
proof -
  have "unat x < 2 ^ 32" using unsigned_less [of x] by simp
  then show ?thesis by simp
qed

lemma length_decDigits_u32: "length (decDigits (unat (x :: u32))) \<le> 10"
  by (simp only: length_decDigits_le zero_less_numeral unat_u32_less)

subsection \<open>Scanning one field\<close>

text \<open>A field that \<open>markerParseFields\<close> accepts: one to ten digits.\<close>

definition field_ok :: "byte list \<Rightarrow> bool" where
  "field_ok f \<longleftrightarrow> digits f \<and> f \<noteq> [] \<and> length f \<le> szIntMax"

lemma field_ok_decDigits_u32 [simp]: "field_ok (decDigits (unat (x :: u32)))"
  using length_decDigits_u32 [of x] by (simp add: field_ok_def)

lemma scanDigits_eq: "scanDigits msg k p = length (takeWhile isdigit (take k (drop p msg)))"
proof (induction k arbitrary: p)
  case 0
  then show ?case by simp
next
  case (Suc k)
  show ?case
  proof (cases "p < length msg")
    case True
    then have "drop p msg = msg ! p # drop (Suc p) msg" by (simp add: Cons_nth_drop_Suc)
    with True Suc.IH [of "Suc p"] show ?thesis by simp
  next
    case False
    then show ?thesis by simp
  qed
qed

lemma takeWhile_digits:
  "digits f \<Longrightarrow> r = [] \<or> \<not> isdigit (hd r) \<Longrightarrow> takeWhile isdigit (f @ r) = f"
  by (induction f) (cases r; auto)+

lemma scan_field:
  assumes "drop p msg = f @ r" "field_ok f" "r = [] \<or> \<not> isdigit (hd r)"
  shows "scanDigits msg szIntMax p = length f"
proof -
  let ?k = "szIntMax - length f"
  have tk: "take szIntMax (f @ r) = f @ take ?k r"
    using assms(2) by (simp add: field_ok_def)
  have "take ?k r = [] \<or> \<not> isdigit (hd (take ?k r))"
    using assms(3) by (cases "?k = 0") auto
  then have "takeWhile isdigit (f @ take ?k r) = f"
    using assms(2) by (intro takeWhile_digits) (auto simp: field_ok_def)
  then show ?thesis by (simp only: scanDigits_eq assms(1) tk)
qed

lemma scan_field_rev:
  assumes "scanDigits msg szIntMax p = sz" "0 < sz"
  obtains f where "field_ok f" "length f = sz" "drop p msg = f @ drop (p + sz) msg"
proof -
  let ?f = "takeWhile isdigit (take szIntMax (drop p msg))"
  have len: "length ?f = sz" using assms(1) by (simp add: scanDigits_eq)
  have "length ?f \<le> length (take szIntMax (drop p msg))" by (rule length_takeWhile_le)
  then have le: "sz \<le> szIntMax" and "sz \<le> length (drop p msg)" using len by auto
  have "?f = take sz (take szIntMax (drop p msg))" using len by (metis takeWhile_eq_take)
  with le have f: "?f = take sz (drop p msg)" by (simp add: min_def)
  have "digits ?f" by (auto simp: digits_def dest: set_takeWhileD)
  moreover have "drop p msg = ?f @ drop (p + sz) msg"
    using f by (metis add.commute append_take_drop_id drop_drop)
  moreover have "?f \<noteq> []" using len assms(2) by auto
  ultimately show ?thesis using that [of ?f] len le by (simp add: field_ok_def)
qed

lemma strtoull_field:
  assumes "drop p msg = f @ c # r" "digits f" "\<not> isdigit c" "length f \<le> 19"
  shows "strtoull msg p = Inr (decValue f)"
proof -
  have tw: "takeWhile isdigit (drop p msg) = f"
    using assms takeWhile_digits [of f "c # r"] by simp
  have "p < length msg" using assms(1) by (metis drop_all leI append_is_Nil_conv list.distinct(1))
  then have len: "length msg = p + length f + Suc (length r)"
    using assms(1) length_drop_append [of p msg f "c # r"] by simp
  have "decValue f < 10 ^ length f" by (rule decValue_less [OF assms(2)])
  also have "\<dots> \<le> 10 ^ 19" using assms(4) by (rule power_increasing) simp
  finally have "decValue f < 2 ^ 64" by simp
  then show ?thesis by (simp add: strtoull_def tw len)
qed

subsection \<open>The grammar of the four fields\<close>

text \<open>The text of a list of fields with the closing marker character, and where each field lies.\<close>

fun joinFields :: "byte list list \<Rightarrow> byte list" where
  "joinFields [] = []"
| "joinFields [f] = f @ markerChar"
| "joinFields (f # g # fs) = f @ bar # joinFields (g # fs)"

fun fieldSpans :: "nat \<Rightarrow> byte list list \<Rightarrow> (nat \<times> nat) list" where
  "fieldSpans p [] = []"
| "fieldSpans p (f # fs) = (p, length f) # fieldSpans (p + (length f + 1)) fs"

lemma joinFields_length: "fs \<noteq> [] \<Longrightarrow> 3 \<le> length (joinFields fs)"
  by (induction fs rule: joinFields.induct) auto

lemma isMarkerChar_iff:
  "isMarkerChar msg p = Inr True \<longleftrightarrow> p + 3 \<le> length msg \<and> drop p msg = markerChar @ drop (p + 3) msg"
proof -
  have *: "drop p msg = msg ! p # msg ! (p + 1) # msg ! (p + 2) # drop (p + 3) msg"
    if "p + 3 \<le> length msg"
    using that by (simp add: Cons_nth_drop_Suc numeral_3_eq_3)
  show ?thesis
    by (cases "p + 3 \<le> length msg")
      (use * in \<open>auto simp: isMarkerChar_def res_eqs markerChar_def\<close>)
qed

lemma isMarkerChar_here:
  "drop p msg = markerChar @ r \<Longrightarrow> isMarkerChar msg p = Inr True"
  by (simp add: isMarkerChar_def markerChar_def drop_eq_Cons numeral_2_eq_2)

lemma isMarkerChar_fault:
  "isMarkerChar msg p = Inl e \<Longrightarrow> p < length msg \<Longrightarrow> p + 1 < length msg \<Longrightarrow>
     e = OutOfBounds \<and> drop p msg = [0xe2, 0x80]"
proof -
  assume e: "isMarkerChar msg p = Inl e" and p: "p + 1 < length msg"
  have d: "drop p msg = msg ! p # msg ! (p + 1) # drop (p + 2) msg"
    using p by (simp add: Cons_nth_drop_Suc numeral_2_eq_2)
  from e p show ?thesis
    by (auto simp: isMarkerChar_def res_eqs d split: if_splits)
qed

declare parseFieldsFrom.simps(2) [simp del]

lemma parseFieldsFrom_complete:
  "fs \<noteq> [] \<Longrightarrow> \<forall>f\<in>set fs. field_ok f \<Longrightarrow> drop p msg = joinFields fs @ rest \<Longrightarrow>
     parseFieldsFrom msg (length fs) p = Inr (Some (fieldSpans p fs))"
proof (induction fs arbitrary: p rule: joinFields.induct)
  case 1
  then show ?case by simp
next
  case (2 f)
  have p: "p < length msg"
    using "2.prems"(3) by (metis drop_all leI append_is_Nil_conv joinFields.simps(2) list.size(3)
        markerChar_simps(4) numeral_eq_iff zero_neq_numeral)
  have d: "drop p msg = f @ (markerChar @ rest)" using "2.prems"(3) by simp
  have sc: "scanDigits msg szIntMax p = length f"
    using d "2.prems"(2) by (intro scan_field) (auto simp: markerChar_def)
  have len: "length msg = p + length f + (3 + length rest)"
    using length_drop_append [OF d] p by simp
  have "isMarkerChar msg (p + length f) = Inr True"
    using d by (intro isMarkerChar_here [of _ _ rest]) (metis drop_append_add)
  with sc len "2.prems"(2) show ?case
    by (simp add: parseFieldsFrom.simps(2) [of msg 0] field_ok_def)
next
  case (3 f g fs)
  have p: "p < length msg"
    using "3.prems"(3) by (metis drop_all leI append_is_Nil_conv joinFields.simps(3) list.distinct(1))
  have d: "drop p msg = f @ (bar # joinFields (g # fs) @ rest)" using "3.prems"(3) by simp
  have sc: "scanDigits msg szIntMax p = length f"
    using d "3.prems"(2) by (intro scan_field) auto
  have len: "length msg = p + length f + (1 + length (joinFields (g # fs)) + length rest)"
    using length_drop_append [OF d] p by simp
  have jn: "0 < length (joinFields (g # fs))" by (cases fs) auto
  have at: "msg ! (p + length f) = bar"
    and d': "drop (p + (length f + 1)) msg = joinFields (g # fs) @ rest"
    using drop_append_Cons [of p msg f bar] d by simp_all
  have "parseFieldsFrom msg (length (g # fs)) (p + (length f + 1))
          = Inr (Some (fieldSpans (p + (length f + 1)) (g # fs)))"
    using "3.prems"(2) d' by (intro "3.IH") auto
  with sc len jn at "3.prems"(2) show ?case
    by (simp add: parseFieldsFrom.simps(2) [of msg "Suc (length fs)"] field_ok_def Let_def)
qed

lemma parseFieldsFrom_sound:
  "parseFieldsFrom msg k p = Inr (Some spans) \<Longrightarrow> 0 < k \<Longrightarrow>
     \<exists>fs rest. length fs = k \<and> (\<forall>f\<in>set fs. field_ok f) \<and> drop p msg = joinFields fs @ rest \<and>
       spans = fieldSpans p fs"
proof (induction k arbitrary: p spans)
  case 0
  then show ?case by simp
next
  case (Suc k)
  define sz where "sz = scanDigits msg szIntMax p"
  have sz: "0 < sz" "p + sz + 1 < length msg"
    using Suc.prems(1) by (auto simp: parseFieldsFrom.simps(2) sz_def Let_def split: if_splits)
  obtain f where f: "field_ok f" "length f = sz" "drop p msg = f @ drop (p + sz) msg"
    using scan_field_rev [OF sz_def [symmetric] sz(1)] by blast
  show ?case
  proof (cases "k = 0")
    case True
    with Suc.prems(1) sz have "isMarkerChar msg (p + sz) = Inr True" "spans = [(p, sz)]"
      by (auto simp: parseFieldsFrom.simps(2) Let_def res_eqs sz_def split: if_splits)
    with f True show ?thesis
      by (intro exI [of _ "[f]"] exI [of _ "drop (p + sz + 3) msg"]) (simp add: isMarkerChar_iff)
  next
    case False
    with Suc.prems(1) sz obtain spans' where
      at: "msg ! (p + sz) = bar" and
      rec: "parseFieldsFrom msg k (p + (sz + 1)) = Inr (Some spans')" and
      spans: "spans = (p, sz) # spans'"
      by (auto simp: parseFieldsFrom.simps(2) Let_def res_eqs sz_def split: if_splits)
    from Suc.IH [OF rec] False obtain fs rest where
      fs: "length fs = k" "\<forall>f\<in>set fs. field_ok f" "drop (p + (sz + 1)) msg = joinFields fs @ rest"
        "spans' = fieldSpans (p + (sz + 1)) fs"
      by auto
    obtain g gs where gs: "fs = g # gs" using fs(1) False by (cases fs) auto
    have "drop (p + sz) msg = bar # joinFields fs @ rest"
      using sz at fs(3) by (simp add: drop_eq_Cons)
    with f gs fs spans show ?thesis
      by (intro exI [of _ "f # fs"] exI [of _ rest]) simp
  qed
qed

text \<open>The only read past the end: the closing marker character is cut after its second byte.\<close>

lemma parseFieldsFrom_fault:
  "parseFieldsFrom msg k p = Inl e \<Longrightarrow>
     e = OutOfBounds \<and> (\<exists>fs. length fs = k \<and> 0 < k \<and> (\<forall>f\<in>set fs. field_ok f) \<and>
       drop p msg @ [0x8b] = joinFields fs)"
proof (induction k arbitrary: p)
  case 0
  then show ?case by simp
next
  case (Suc k)
  define sz where "sz = scanDigits msg szIntMax p"
  have sz: "0 < sz" "p + sz + 1 < length msg"
    using Suc.prems(1) by (auto simp: parseFieldsFrom.simps(2) sz_def Let_def split: if_splits)
  obtain f where f: "field_ok f" "length f = sz" "drop p msg = f @ drop (p + sz) msg"
    using scan_field_rev [OF sz_def [symmetric] sz(1)] by blast
  show ?case
  proof (cases "k = 0")
    case True
    with Suc.prems(1) sz have "isMarkerChar msg (p + sz) = Inl e"
      by (auto simp: parseFieldsFrom.simps(2) Let_def res_eqs sz_def split: if_splits)
    then have "e = OutOfBounds \<and> drop (p + sz) msg = [0xe2, 0x80]"
      using sz by (intro isMarkerChar_fault) auto
    with f True show ?thesis
      by (auto intro!: exI [of _ "[f]"] simp: markerChar_def)
  next
    case False
    with Suc.prems(1) sz have at: "msg ! (p + sz) = bar" and
      rec: "parseFieldsFrom msg k (p + (sz + 1)) = Inl e"
      by (auto simp: parseFieldsFrom.simps(2) Let_def res_eqs sz_def split: if_splits)
    from Suc.IH [OF rec] obtain fs where
      fs: "e = OutOfBounds" "length fs = k" "\<forall>f\<in>set fs. field_ok f"
        "drop (p + (sz + 1)) msg @ [0x8b] = joinFields fs"
      by blast
    obtain g gs where gs: "fs = g # gs" using fs(2) False by (cases fs) auto
    have "drop (p + sz) msg = bar # drop (p + (sz + 1)) msg"
      using sz at by (simp add: drop_eq_Cons)
    with f gs fs show ?thesis
      by (intro conjI exI [of _ "f # fs"]) simp_all
  qed
qed

lemma parseFieldsFrom_cut:
  "fs \<noteq> [] \<Longrightarrow> \<forall>f\<in>set fs. field_ok f \<Longrightarrow> drop p msg @ [0x8b] = joinFields fs \<Longrightarrow>
     parseFieldsFrom msg (length fs) p = Inl OutOfBounds"
proof (induction fs arbitrary: p rule: joinFields.induct)
  case 1
  then show ?case by simp
next
  case (2 f)
  have "drop p msg @ [0x8b] = (f @ [0xe2, 0x80]) @ [0x8b]"
    using "2.prems"(3) by (simp add: markerChar_def)
  then have d: "drop p msg = f @ 0xe2 # [0x80]" by simp
  have sc: "scanDigits msg szIntMax p = length f"
    using d "2.prems"(2) by (intro scan_field) auto
  have "drop (p + length f) msg = [0xe2, 0x80]" using d by (rule drop_append_add)
  then have "isMarkerChar msg (p + length f) = Inl OutOfBounds" "p + length f + 1 < length msg"
    by (auto simp: isMarkerChar_def markerChar_def drop_eq_Cons)
  with sc "2.prems"(2) show ?case
    by (simp add: parseFieldsFrom.simps(2) [of msg 0] field_ok_def)
next
  case (3 f g fs)
  let ?r = "butlast (joinFields (g # fs))"
  have ne: "joinFields (g # fs) \<noteq> []" by (cases fs) (auto simp: markerChar_def)
  have "butlast (drop p msg @ [0x8b]) = butlast (f @ bar # joinFields (g # fs))"
    using "3.prems"(3) by simp
  then have d: "drop p msg = f @ bar # ?r" using ne by (simp add: butlast_append)
  have sc: "scanDigits msg szIntMax p = length f"
    using d "3.prems"(2) by (intro scan_field) auto
  have at: "msg ! (p + length f) = bar" "p + length f < length msg"
    and d': "drop (p + (length f + 1)) msg = ?r"
    using drop_append_Cons [OF d] by simp_all
  have "last (joinFields (g # fs)) = last (drop p msg @ [0x8b])"
    using "3.prems"(3) ne by simp
  then have "drop (p + (length f + 1)) msg @ [0x8b] = joinFields (g # fs)"
    using ne d' by (metis append_butlast_last_id last_snoc)
  then have rec: "parseFieldsFrom msg (length (g # fs)) (p + (length f + 1)) = Inl OutOfBounds"
    using "3.prems"(2) by (intro "3.IH") auto
  have "0 < length ?r" using joinFields_length [of "g # fs"] by simp
  then have "0 < length (drop (p + (length f + 1)) msg)" by (simp only: d')
  then have "p + length f + 1 < length msg" by simp
  with sc at rec "3.prems"(2) show ?case
    by (simp add: parseFieldsFrom.simps(2) [of msg "Suc (length fs)"] field_ok_def Let_def)
qed

subsection \<open>The language of markers\<close>

text \<open>The text of a marker with time stamp \<open>ts\<close> and fields \<open>fs\<close>, and when it is well formed.\<close>

definition marker_text :: "byte list \<Rightarrow> byte list list \<Rightarrow> byte list" where
  "marker_text ts fs = markerChar @ ts @ bar # joinFields fs"

definition marker_ok :: "byte list \<Rightarrow> byte list list \<Rightarrow> bool" where
  "marker_ok ts fs \<longleftrightarrow> length ts = szTm \<and> digits ts \<and> length fs = nInts \<and> list_all field_ok fs"

lemma digits_range_iff:
  assumes "p + k \<le> length msg"
  shows "list_all (\<lambda>i. isdigit (msg ! i)) [p..<p + k] \<longleftrightarrow> digits (take k (drop p msg))"
proof -
  have "map ((!) msg) [p..<p + k] = take k (drop p msg)"
    using assms by (intro map_upt_eqI) auto
  then have "list_all isdigit (take k (drop p msg)) = list_all isdigit (map ((!) msg) [p..<p + k])"
    by simp
  then show ?thesis by (simp add: digits_def list_all_iff)
qed

lemma nth4: "[a, b, c, d] ! 0 = a" "[a, b, c, d] ! 1 = b" "[a, b, c, d] ! 2 = c" "[a, b, c, d] ! 3 = d"
  by (simp_all add: numeral_2_eq_2 numeral_3_eq_3)

lemma list_of_four: "length fs = 4 \<longleftrightarrow> (\<exists>a b c d. fs = [a, b, c, d])"
  by (auto simp: numeral_eq_Suc length_Suc_conv)

text \<open>What the checks before the fields establish.\<close>

lemma prefix_iff:
  assumes "27 < length msg"
  shows "isMarkerChar msg 0 = Inr True \<and> msg ! 16 = bar \<and> digits (take 13 (drop 3 msg)) \<longleftrightarrow>
    (\<exists>ts. length ts = szTm \<and> digits ts \<and> msg = markerChar @ ts @ bar # drop 17 msg)"
    (is "?L \<longleftrightarrow> ?R")
proof
  assume L: ?L
  have "drop 16 msg = msg ! 16 # drop 17 msg"
    using assms by (simp add: drop_eq_Cons)
  then have "drop 3 msg = take 13 (drop 3 msg) @ msg ! 16 # drop 17 msg"
    using append_take_drop_id [of 13 "drop 3 msg"] by simp
  with L have "msg = markerChar @ take 13 (drop 3 msg) @ bar # drop 17 msg"
    by (simp add: isMarkerChar_iff)
  with L assms show ?R by (intro exI [of _ "take 13 (drop 3 msg)"]) simp
next
  assume ?R
  then obtain ts where ts: "length ts = 13" "digits ts"
    and d: "drop 0 msg = markerChar @ ts @ bar # drop 17 msg" by auto
  have d3: "drop 3 msg = ts @ bar # drop 17 msg"
    using drop_append_add [OF d] by simp
  have "msg ! 16 = bar" using drop_append_Cons(2) [OF d3] ts by simp
  with ts d3 isMarkerChar_here [OF d] show ?L by simp
qed

lemma markerParseFields_eq:
  assumes "27 < length msg"
  shows "markerParseFields msg =
    (if \<exists>ts. length ts = szTm \<and> digits ts \<and> msg = markerChar @ ts @ bar # drop 17 msg
     then parseFieldsFrom msg nInts 17 else Inr None)"
proof -
  have "list_all (\<lambda>i. isdigit (msg ! i)) [3..<16] \<longleftrightarrow> digits (take 13 (drop 3 msg))"
    using digits_range_iff [of 3 13 msg] assms by simp
  moreover obtain b where "isMarkerChar msg 0 = Inr b"
    using assms by (cases "isMarkerChar msg 0") (auto dest!: isMarkerChar_fault)
  ultimately show ?thesis
    using assms by (simp add: markerParseFields_def prefix_iff [symmetric])
qed

lemma markerParseFields_short: "length msg \<le> 27 \<Longrightarrow> markerParseFields msg = Inr None"
  by (simp add: markerParseFields_def)

lemma markerParseFields_complete:
  assumes "marker_ok ts fs" "msg = marker_text ts fs @ rest" "27 < length msg"
  shows "markerParseFields msg = Inr (Some (fieldSpans 17 fs))"
proof -
  have d: "drop 0 msg = markerChar @ ts @ bar # joinFields fs @ rest" and ts: "length ts = 13"
    using assms by (simp_all add: marker_text_def marker_ok_def)
  have d3: "drop 3 msg = ts @ bar # joinFields fs @ rest"
    using drop_append_add [OF d] by simp
  have d17: "drop 17 msg = joinFields fs @ rest"
    using drop_append_Cons(3) [OF d3] ts by simp
  have "parseFieldsFrom msg (length fs) 17 = Inr (Some (fieldSpans 17 fs))"
    using assms(1) by (intro parseFieldsFrom_complete [OF _ _ d17])
      (auto simp: marker_ok_def list_all_iff)
  then show ?thesis
    using assms d d17 by (auto simp: markerParseFields_eq marker_ok_def)
qed

lemma markerParseFields_sound:
  assumes "markerParseFields msg = Inr (Some spans)"
  obtains ts fs rest where "marker_ok ts fs" "msg = marker_text ts fs @ rest"
    "spans = fieldSpans 17 fs" "27 < length msg"
proof -
  have len: "27 < length msg"
    using assms by (metis Inr_inject leI markerParseFields_short option.distinct(1))
  with assms obtain ts where ts: "length ts = 13" "digits ts"
    "msg = markerChar @ ts @ bar # drop 17 msg"
    and p: "parseFieldsFrom msg 4 17 = Inr (Some spans)"
    by (auto simp: markerParseFields_eq split: if_splits)
  from parseFieldsFrom_sound [OF p] obtain fs rest where
    "length fs = 4" "\<forall>f\<in>set fs. field_ok f" "drop 17 msg = joinFields fs @ rest"
    "spans = fieldSpans 17 fs" by auto
  with ts len show ?thesis
    by (intro that [of ts fs rest]) (auto simp: marker_ok_def marker_text_def list_all_iff)
qed

lemma markerParseFields_fault:
  assumes "markerParseFields msg = Inl e"
  shows "e = OutOfBounds \<and> (\<exists>ts fs. marker_ok ts fs \<and> msg @ [0x8b] = marker_text ts fs)
    \<and> 27 < length msg"
proof -
  have len: "27 < length msg"
    using assms by (metis Inl_Inr_False leI markerParseFields_short)
  with assms obtain ts where ts: "length ts = 13" "digits ts"
    "msg = markerChar @ ts @ bar # drop 17 msg"
    and p: "parseFieldsFrom msg 4 17 = Inl e"
    by (auto simp: markerParseFields_eq split: if_splits)
  from parseFieldsFrom_fault [OF p] obtain fs where
    fs: "e = OutOfBounds" "length fs = 4" "\<forall>f\<in>set fs. field_ok f" "drop 17 msg @ [0x8b] = joinFields fs"
    by auto
  have "msg @ [0x8b] = markerChar @ ts @ bar # (drop 17 msg @ [0x8b])"
    using ts(3) by (metis append_Cons append_assoc)
  with fs ts len show ?thesis
    by (auto simp: marker_ok_def marker_text_def list_all_iff)
qed

lemma markerParseFields_cut:
  assumes "marker_ok ts fs" "msg @ [0x8b] = marker_text ts fs" "27 < length msg"
  shows "markerParseFields msg = Inl OutOfBounds"
proof -
  have fs: "length fs = 4" "list_all field_ok fs" and ts: "length ts = 13"
    using assms by (simp_all add: marker_ok_def)
  then have ne: "fs \<noteq> []" by auto
  then have ne': "joinFields fs \<noteq> []" using joinFields_length [of fs] by auto
  have "butlast (msg @ [0x8b]) = butlast (markerChar @ ts @ bar # joinFields fs)"
    using assms(2) by (simp add: marker_text_def)
  then have d: "drop 0 msg = markerChar @ ts @ bar # butlast (joinFields fs)"
    using ne' by (simp add: butlast_append)
  have d3: "drop 3 msg = ts @ bar # butlast (joinFields fs)"
    using drop_append_add [OF d] by simp
  have d17: "drop 17 msg = butlast (joinFields fs)"
    using drop_append_Cons(3) [OF d3] ts by simp
  have "last (joinFields fs) = last (msg @ [0x8b])"
    using assms(2) ne' by (simp add: marker_text_def)
  then have "drop 17 msg @ [0x8b] = joinFields fs"
    using ne' d17 by (metis append_butlast_last_id last_snoc)
  then have "parseFieldsFrom msg (length fs) 17 = Inl OutOfBounds"
    using fs ne by (intro parseFieldsFrom_cut) (auto simp: list_all_iff)
  then show ?thesis
    using assms d d17 fs by (auto simp: markerParseFields_eq marker_ok_def)
qed

subsection \<open>Properties of the marker functions\<close>

lemma marker_text_split:
  assumes "marker_ok ts [f1, f2, f3, f4]" "msg = marker_text ts [f1, f2, f3, f4] @ rest"
  shows "drop 3 msg = ts @ bar # joinFields [f1, f2, f3, f4] @ rest"
    and "drop 17 msg = f1 @ bar # f2 @ bar # f3 @ bar # f4 @ markerChar @ rest"
    and "drop (17 + (length f1 + 1)) msg = f2 @ bar # f3 @ bar # f4 @ markerChar @ rest"
    and "drop (17 + (length f1 + 1) + (length f2 + 1)) msg = f3 @ bar # f4 @ markerChar @ rest"
    and "drop (17 + (length f1 + 1) + (length f2 + 1) + (length f3 + 1)) msg = f4 @ markerChar @ rest"
proof -
  have d: "drop 0 msg = markerChar @ ts @ bar # joinFields [f1, f2, f3, f4] @ rest"
    and ts: "length ts = 13"
    using assms by (simp_all add: marker_text_def marker_ok_def)
  show d3: "drop 3 msg = ts @ bar # joinFields [f1, f2, f3, f4] @ rest"
    using drop_append_add [OF d] by simp
  show d17: "drop 17 msg = f1 @ bar # f2 @ bar # f3 @ bar # f4 @ markerChar @ rest"
    using drop_append_Cons(3) [OF d3] ts by simp
  note d1 = drop_append_Cons(3) [OF d17]
  note d2 = drop_append_Cons(3) [OF d1]
  note d4 = drop_append_Cons(3) [OF d2]
  show "drop (17 + (length f1 + 1)) msg = f2 @ bar # f3 @ bar # f4 @ markerChar @ rest"
    by (rule d1)
  show "drop (17 + (length f1 + 1) + (length f2 + 1)) msg = f3 @ bar # f4 @ markerChar @ rest"
    by (rule d2)
  show "drop (17 + (length f1 + 1) + (length f2 + 1) + (length f3 + 1)) msg = f4 @ markerChar @ rest"
    by (rule d4)
qed

lemma markerParse_marker_text:
  assumes ok: "marker_ok ts [f1, f2, f3, f4]"
    and msg: "msg = marker_text ts [f1, f2, f3, f4] @ rest" and len: "27 < length msg"
  shows "markerParse msg = Inr (Some
    \<lparr>mi_size = of_nat (length (marker_text ts [f1, f2, f3, f4])), mi_id = of_nat (decValue ts),
     mi_partNo = of_nat (decValue f1), mi_numParts = of_nat (decValue f2),
     mi_off = of_nat (decValue f3), mi_sz = of_nat (decValue f4)\<rparr>)"
proof -
  note d = marker_text_split [OF ok msg]
  have f: "digits ts" "digits f1" "digits f2" "digits f3" "digits f4"
    "length ts \<le> 19" "length f1 \<le> 19" "length f2 \<le> 19" "length f3 \<le> 19" "length f4 \<le> 19"
    using ok by (simp_all add: marker_ok_def field_ok_def)
  let ?p2 = "17 + (length f1 + 1)"
  let ?p3 = "?p2 + (length f2 + 1)"
  let ?p4 = "?p3 + (length f3 + 1)"
  note n = strtoull_field [OF d(1) f(1) not_isdigit(1) f(6)]
    strtoull_field [OF d(2) f(2) not_isdigit(1) f(7)]
    strtoull_field [OF d(3) f(3) not_isdigit(1) f(8)]
    strtoull_field [OF d(4) f(4) not_isdigit(1) f(9)]
  have n4: "strtoull msg ?p4 = Inr (decValue f4)"
    using f d(5) by (intro strtoull_field [where c = "0xe2" and r = "[0x80, 0x8b] @ rest"])
      (auto simp: markerChar_def)
  have sp: "markerParseFields msg
      = Inr (Some [(17, length f1), (?p2, length f2), (?p3, length f3), (?p4, length f4)])"
    using markerParseFields_complete [OF ok msg len] by simp
  have sz: "length (marker_text ts [f1, f2, f3, f4]) = ?p4 + length f4 + 3"
    using ok by (simp add: marker_text_def marker_ok_def)
  show ?thesis
    by (simp only: markerParse_def sp parseUInt32_def parseUInt64_def bindR_Inr option.case nth4
        fst_conv snd_conv n n4 sz)
qed

lemma markerPrint_text:
  "markerPrint mid partNo numParts off sz = marker_text (decDigits (unat mid))
     [decDigits (unat partNo), decDigits (unat numParts), decDigits (unat off), decDigits (unat sz)]"
  by (simp add: markerPrint_def marker_text_def)

lemma length_markerPrint:
  "length (markerPrint mid partNo numParts off sz) = 10 + length (decDigits (unat mid))
     + length (decDigits (unat partNo)) + length (decDigits (unat numParts))
     + length (decDigits (unat off)) + length (decDigits (unat sz))"
  by (simp add: markerPrint_def)

lemma marker_ok_print:
  "10 ^ 12 \<le> unat mid \<Longrightarrow> unat mid < 10 ^ 13 \<Longrightarrow> marker_ok (decDigits (unat mid))
     [decDigits (unat (a :: u32)), decDigits (unat (b :: u32)),
      decDigits (unat (c :: u32)), decDigits (unat (d :: u32))]"
  using length_decDigits_eq [of 12 "unat mid"] by (simp add: marker_ok_def)

lemma markerPrint_long:
  "10 ^ 12 \<le> unat mid \<Longrightarrow> 27 \<le> length (markerPrint mid a b c d)"
proof -
  assume "10 ^ 12 \<le> unat mid"
  then have "\<not> length (decDigits (unat mid)) \<le> 12"
    by (subst length_decDigits_le) auto
  moreover have "1 \<le> length (decDigits n)" for n
    using length_decDigits_pos [of n] by linarith
  from this [of "unat a"] this [of "unat b"] this [of "unat c"] this [of "unat d"]
  have "4 \<le> length (decDigits (unat a)) + length (decDigits (unat b))
     + length (decDigits (unat c)) + length (decDigits (unat d))" by linarith
  ultimately show ?thesis unfolding length_markerPrint by linarith
qed

lemma digits_bar_inj:
  assumes "xs @ bar # a = ys @ bar # b" "digits xs" "digits ys"
  shows "xs = ys"
  using takeWhile_digits [OF assms(2), of "bar # a"] takeWhile_digits [OF assms(3), of "bar # b"]
  by (simp add: assms(1))

lemma markerParse_exists: "markerParse msg = Inr (Some mi) \<Longrightarrow> markerExists msg = Inr True"
  by (auto simp: markerParse_def markerExists_def bindR_eq_Inr split: option.splits)

text \<open>C12. The parser recognises exactly the language of markers: a message carries a marker if and
  only if it is longer than 27 bytes and starts with the marker character, 13 digits, a bar, four
  fields of one to ten digits separated by bars, and the marker character.\<close>

theorem marker_exists_iff:
  "markerExists msg = Inr True \<longleftrightarrow>
     27 < length msg \<and> (\<exists>ts fs rest. marker_ok ts fs \<and> msg = marker_text ts fs @ rest)"
proof
  assume "markerExists msg = Inr True"
  then obtain spans where "markerParseFields msg = Inr (Some spans)"
    by (auto simp: markerExists_def bindR_eq_Inr)
  then show "27 < length msg \<and> (\<exists>ts fs rest. marker_ok ts fs \<and> msg = marker_text ts fs @ rest)"
    by (rule markerParseFields_sound) blast
next
  assume "27 < length msg \<and> (\<exists>ts fs rest. marker_ok ts fs \<and> msg = marker_text ts fs @ rest)"
  then show "markerExists msg = Inr True"
    by (auto simp: markerExists_def markerParseFields_complete)
qed

text \<open>C23. The parser reads past the end of the message in exactly one situation: the message is a
  complete marker with its last byte cut off, so that the closing \<open>isMarkerChar\<close> looks one byte
  beyond the buffer.\<close>

theorem marker_overread_iff:
  "markerExists msg = Inl e \<longleftrightarrow>
     e = OutOfBounds \<and> 27 < length msg \<and>
     (\<exists>ts fs. marker_ok ts fs \<and> msg @ [0x8b] = marker_text ts fs)"
  by (auto simp: markerExists_def bindR_eq_Inl markerParseFields_cut dest: markerParseFields_fault)

text \<open>What a printed marker in front of a payload parses to.\<close>

lemma marker_roundtrip_facts:
  assumes "10 ^ 12 \<le> unat mid" "unat mid < 10 ^ 13" "payload \<noteq> []"
  shows "markerParse (markerPrint mid partNo numParts off sz @ payload) = Inr (Some
      \<lparr>mi_size = markerPrintRet mid partNo numParts off sz, mi_id = mid, mi_partNo = partNo,
       mi_numParts = numParts, mi_off = off, mi_sz = sz\<rparr>)"
    and "unat (markerPrintRet mid partNo numParts off sz)
      = length (markerPrint mid partNo numParts off sz)"
proof -
  have "27 < length (markerPrint mid partNo numParts off sz @ payload)"
    using markerPrint_long [OF assms(1), of partNo numParts off sz] assms(3)
    by (cases payload) auto
  from markerParse_marker_text [OF marker_ok_print [OF assms(1,2)] _ this]
  show "markerParse (markerPrint mid partNo numParts off sz @ payload) = Inr (Some
      \<lparr>mi_size = markerPrintRet mid partNo numParts off sz, mi_id = mid, mi_partNo = partNo,
       mi_numParts = numParts, mi_off = off, mi_sz = sz\<rparr>)"
    by (simp add: markerPrint_text markerPrintRet_def)
  have "length (decDigits (unat mid)) \<le> 13"
    using assms(2) by (subst length_decDigits_le) simp_all
  then show "unat (markerPrintRet mid partNo numParts off sz)
      = length (markerPrint mid partNo numParts off sz)"
    using length_decDigits_u32 [of partNo] length_decDigits_u32 [of numParts]
      length_decDigits_u32 [of off] length_decDigits_u32 [of sz]
    unfolding markerPrintRet_def by (intro unat_of_nat_u8) (simp add: length_markerPrint)
qed

text \<open>C11. Round trip: what \<open>markerPrint\<close> writes in front of a non-empty payload is parsed back to the
  same five numbers and to its own length, whenever the id has 13 digits.\<close>

theorem marker_roundtrip:
  assumes "10 ^ 12 \<le> unat mid" "unat mid < 10 ^ 13" "payload \<noteq> []"
  shows "markerParse (markerPrint mid partNo numParts off sz @ payload) = Inr (Some
    \<lparr>mi_size = markerPrintRet mid partNo numParts off sz, mi_id = mid, mi_partNo = partNo,
     mi_numParts = numParts, mi_off = off, mi_sz = sz\<rparr>)"
  using assms by (rule marker_roundtrip_facts(1))

theorem marker_roundtrip_witness:
  "markerParse (markerPrint 1500000000000 2 3 1300 4000 @ [104, 105]) = Inr (Some
    \<lparr>mi_size = markerPrintRet 1500000000000 2 3 1300 4000, mi_id = 1500000000000, mi_partNo = 2,
     mi_numParts = 3, mi_off = 1300, mi_sz = 4000\<rparr>)"
  by (rule marker_roundtrip) simp_all

text \<open>A printed marker in front of a payload is recognised exactly when the id has 13 digits: ids
  outside that range (a clock before September 2001 or after November 2286) give fragments that
  every receiver takes for ordinary messages.\<close>

theorem marker_print_recognised_iff:
  assumes "payload \<noteq> []"
  shows "markerExists (markerPrint mid partNo numParts off sz @ payload)
    = Inr (10 ^ 12 \<le> unat mid \<and> unat mid < 10 ^ 13)"
proof (cases "10 ^ 12 \<le> unat mid \<and> unat mid < 10 ^ 13")
  case True
  then show ?thesis
    using marker_roundtrip_facts(1) [of mid payload partNo numParts off sz] assms
    by (simp add: markerParse_exists)
next
  case False
  let ?msg = "markerPrint mid partNo numParts off sz @ payload"
  obtain x where x: "?msg = markerChar @ decDigits (unat mid) @ bar # x"
    by (simp add: markerPrint_def)
  have no': False if ts: "length ts = 13" "digits ts"
    and a: "?msg = markerChar @ ts @ bar # drop 17 ?msg" for ts
  proof -
    have "markerChar @ ts @ bar # drop 17 ?msg = markerChar @ decDigits (unat mid) @ bar # x"
      by (rule trans [OF a [symmetric] x])
    then have "ts @ bar # drop 17 ?msg = decDigits (unat mid) @ bar # x"
      by (simp only: same_append_eq)
    then have "ts = decDigits (unat mid)" by (rule digits_bar_inj) (simp_all add: ts)
    with ts(1) False show False
      using length_decDigits_eq [of 12 "unat mid"] by simp
  qed
  then have no: "\<not> (\<exists>ts. length ts = 13 \<and> digits ts \<and> ?msg = markerChar @ ts @ bar # drop 17 ?msg)"
    by iprover
  have "markerParseFields ?msg = Inr None"
  proof (cases "27 < length ?msg")
    case True
    show ?thesis by (simp only: markerParseFields_eq [OF True] no if_False)
  next
    case False
    then show ?thesis by (simp add: markerParseFields_short)
  qed
  with False show ?thesis by (auto simp: markerExists_def)
qed

theorem marker_print_recognised_iff_witness:
  "markerExists (markerPrint 999 1 2 0 80 @ [104]) = Inr False \<and>
   markerExists (markerPrint 1500000000000 1 2 0 80 @ [104]) = Inr True"
  using marker_print_recognised_iff [of "[104]" 999 1 2 0 80]
    marker_print_recognised_iff [of "[104]" 1500000000000 1 2 0 80] by simp

lemma unat_markerMaxSizeBytes:
  "unat (markerMaxSizeBytes numParts sz)
    = 23 + 2 * length (decDigits (unat numParts)) + 2 * length (decDigits (unat sz))"
  using length_decDigits_u32 [of numParts] length_decDigits_u32 [of sz]
  by (simp only: markerMaxSizeBytes_def numDigits_eq Let_def) (subst unat_of_nat_u8, simp_all)

lemma markerMaxSizeBytes_le: "unat (markerMaxSizeBytes numParts sz) \<le> 63"
  using length_decDigits_u32 [of numParts] length_decDigits_u32 [of sz]
  by (simp add: unat_markerMaxSizeBytes)

lemma markerMaxSizeBytes_mono:
  "a \<le> b \<Longrightarrow> unat (markerMaxSizeBytes a sz) \<le> unat (markerMaxSizeBytes b sz)"
  by (simp add: unat_markerMaxSizeBytes length_decDigits_mono word_le_nat_alt)

lemma length_markerPrint_le:
  assumes "unat mid < 10 ^ 13" "partNo \<le> numParts" "off \<le> sz"
  shows "length (markerPrint mid partNo numParts off sz) \<le> unat (markerMaxSizeBytes numParts sz)"
proof -
  have "length (decDigits (unat mid)) \<le> 13"
    using assms(1) by (subst length_decDigits_le) simp_all
  moreover have "length (decDigits (unat partNo)) \<le> length (decDigits (unat numParts))"
    "length (decDigits (unat off)) \<le> length (decDigits (unat sz))"
    using assms(2,3) by (simp_all add: length_decDigits_mono word_le_nat_alt)
  ultimately show ?thesis
    by (simp add: unat_markerMaxSizeBytes length_markerPrint)
qed

text \<open>C22. No marker overflows its buffer: with the id in at most 13 digits, a part number and an offset
  within the number of parts and the message size, the printed marker has at most
  \<open>markerMaxSizeBytes numParts sz\<close> bytes (\<open>splitMessage\<close> reserves one more for the NUL), and the
  \<open>uint8_t\<close> that \<open>markerPrint\<close> returns is its true length, at most 63.\<close>

theorem marker_fits_buffer:
  assumes "unat mid < 10 ^ 13" "partNo \<le> numParts" "off \<le> sz"
  shows "length (markerPrint mid partNo numParts off sz) \<le> unat (markerMaxSizeBytes numParts sz) \<and>
    unat (markerPrintRet mid partNo numParts off sz) = length (markerPrint mid partNo numParts off sz) \<and>
    unat (markerMaxSizeBytes numParts sz) \<le> 63"
  using length_markerPrint_le [OF assms] markerMaxSizeBytes_le [of numParts sz]
  by (simp add: markerPrintRet_def unat_of_nat)

theorem marker_fits_buffer_witness:
  "length (markerPrint 1500000000000 3 12 900 4000) \<le> unat (markerMaxSizeBytes 12 4000) \<and>
   unat (markerPrintRet 1500000000000 3 12 900 4000) = length (markerPrint 1500000000000 3 12 900 4000) \<and>
   unat (markerMaxSizeBytes 12 4000) \<le> 63"
  by (rule marker_fits_buffer) simp_all

text \<open>The size that \<open>markerParse\<close> returns never exceeds the message, so \<open>length - markerSize\<close> cannot
  wrap around, and it is between 27 and 63 bytes.\<close>

theorem markerParse_size_bound:
  assumes "markerParse msg = Inr (Some mi)"
  shows "27 \<le> unat (mi_size mi) \<and> unat (mi_size mi) \<le> 63 \<and> unat (mi_size mi) \<le> length msg"
proof -
  from assms obtain spans where "markerParseFields msg = Inr (Some spans)"
    by (auto simp: markerParse_def bindR_eq_Inr split: option.splits)
  then obtain ts fs rest where ok: "marker_ok ts fs" "msg = marker_text ts fs @ rest"
    and len: "27 < length msg"
    by (rule markerParseFields_sound)
  then obtain f1 f2 f3 f4 where fs: "fs = [f1, f2, f3, f4]"
    by (auto simp: marker_ok_def list_of_four)
  have "mi_size mi = of_nat (length (marker_text ts fs))"
    using markerParse_marker_text [OF ok(1)[unfolded fs] ok(2)[unfolded fs] len] assms fs by simp
  moreover have "26 < length (marker_text ts fs)" "length (marker_text ts fs) \<le> 63"
    using ok(1) by (auto simp: fs marker_text_def marker_ok_def field_ok_def Suc_le_eq
        length_greater_0_conv [symmetric] simp del: length_greater_0_conv)
  ultimately show ?thesis
    using ok(2) by (simp_all add: unat_of_nat)
qed

theorem markerParse_size_bound_witness:
  "\<exists>mi. markerParse (markerPrint 1500000000000 3 12 900 4000 @ [104, 105]) = Inr (Some mi) \<and>
     27 \<le> unat (mi_size mi) \<and> unat (mi_size mi) \<le> 63 \<and>
     unat (mi_size mi) \<le> length (markerPrint 1500000000000 3 12 900 4000 @ [104, 105])"
proof -
  have "10 ^ 12 \<le> unat (1500000000000 :: u64)" "unat (1500000000000 :: u64) < 10 ^ 13" "[104, 105] \<noteq> ([] :: byte list)"
    by simp_all
  from marker_roundtrip_facts(1) [OF this]
  show ?thesis using markerParse_size_bound by (blast intro!: exI)
qed

end
