(* ===== verification/Message.thy ===== *)
theory Message
  imports Marker
begin

section \<open>Outbound messages and their fragments\<close>

text \<open>
  The structs \<open>fragment\<close>, \<open>msg_outbound\<close>, \<open>receipt_record\<close> and \<open>params\<close> of
  \<open>tox-defragmenter.c\<close>, one record field for each member, and \<open>splitMessage\<close>.  A fragment owns
  its \<open>data\<close>: the pointer is \<open>None\<close> when NULL and else the bytes it points to, so that \<open>free\<close>
  followed by the assignment of NULL is the update to \<open>None\<close>.  Messages themselves are shared
  (by the ring and by the receipt records) and live at addresses, see theory \<open>Ring\<close>.

  The lemmas on \<open>splitMessage\<close> show that the fragments are the message cut into equal pieces,
  each behind the marker that describes it, that no fragment is longer than the maximal message
  length and that no marker overflows its buffer, provided \<open>markerMaxSizeEver\<close> has been set.
\<close>

type_synonym addr = nat

record fragment =
  f_length :: u64
  f_data :: "byte list option"
  f_receipt :: u32
  f_timesSent :: u32
  f_confirmed :: int

record msg_outbound =
  m_prev :: "addr option"
  m_next :: "addr option"
  friend_number :: u32
  m_id :: u64
  m_type :: int
  numParts :: u32
  fragments :: "fragment list"
  m_receipt :: u32
  lastSent :: u32
  numTransit :: u32
  numConfirmed :: u32
  numLoss :: u32
  fromDb :: int

record receipt_record =
  r_receipt :: u32
  r_msg :: "addr option"
  r_partNo :: u32
  r_timestamp :: u64

record params =
  maxMessageLength :: u32
  fragmentsAtATime :: u32
  receiptExpirationTimeMs :: u32
  receiptRangeLo :: u32
  receiptRangeHi :: u32

text \<open>\<open>TOX_MAX_MESSAGE_LENGTH\<close> is 1372 (README); the other values are in the initialiser.\<close>

definition params_default :: params where
  "params_default = \<lparr>maxMessageLength = 1372, fragmentsAtATime = 512,
     receiptExpirationTimeMs = 20000, receiptRangeLo = 0x70000000, receiptRangeHi = 0x7fffffff\<rparr>"

text \<open>\<open>INT_MAX\<close>, and the value that \<open>initialize\<close> gives to \<open>markerMaxSizeEver\<close>.\<close>

definition markerMaxSizeEverValue :: u32 where
  "markerMaxSizeEverValue = ucast (markerMaxSizeBytes 0x7fffffff 0x7fffffff)"

lemma markerMaxSizeEverValue_eq: "markerMaxSizeEverValue = 63"
  by (simp add: markerMaxSizeEverValue_def markerMaxSizeBytes_def numDigits_def
      numDigitsLoop.simps)

subsection \<open>splitMessage\<close>

definition newFragment :: "byte list \<Rightarrow> fragment" where
  "newFragment data = \<lparr>f_length = of_nat (length data), f_data = Some data, f_receipt = 0,
     f_timesSent = 0, f_confirmed = 0\<rparr>"

text \<open>\<open>NEWA(fragment, numParts)\<close> zeroes the array; elements that the loop does not reach stay zero.\<close>

definition nullFragment :: fragment where
  "nullFragment = \<lparr>f_length = 0, f_data = None, f_receipt = 0, f_timesSent = 0, f_confirmed = 0\<rparr>"

definition newMsgOutbound :: "u64 \<Rightarrow> u32 \<Rightarrow> fragment list \<Rightarrow> msg_outbound" where
  "newMsgOutbound mid parts frs = \<lparr>m_prev = None, m_next = None, friend_number = 0, m_id = mid,
     m_type = 0, numParts = parts, fragments = frs, m_receipt = 0, lastSent = 0, numTransit = 0,
     numConfirmed = 0, numLoss = 0, fromDb = 0\<rparr>"

text \<open>
  The loop.  \<open>k\<close> counts the fragments written so far (\<open>f - fragments\<close>), \<open>rest\<close> is what \<open>m\<close> points
  to, \<open>len\<close> being its length.  The buffer \<open>marker\<close> has \<open>maxMarker + 1\<close> bytes, one of them for the
  NUL of \<open>sprintf\<close>; the array \<open>fragments\<close> has \<open>parts\<close> elements.
\<close>

function splitLoop :: "u64 \<Rightarrow> u32 \<Rightarrow> u64 \<Rightarrow> nat \<Rightarrow> nat \<Rightarrow> nat \<Rightarrow> u32 \<Rightarrow> byte list \<Rightarrow> fragment list result"
where
  "splitLoop mid parts len0 maxMarker maxLen k off rest =
     (if rest = [] then Inr []
      else if maxLen = 0 then Inl Diverges
      else
        let step = (if length rest \<ge> maxLen then maxLen else length rest);
            marker = markerPrint mid (of_nat (k + 1)) parts off (ucast len0)
        in if maxMarker < length marker then Inl OutOfBounds
           else if unat parts \<le> k then Inl OutOfBounds
           else bindR (splitLoop mid parts len0 maxMarker maxLen (k + 1) (off + of_nat step) (drop step rest))
                  (\<lambda>fs. Inr (newFragment (marker @ take step rest) # fs)))"
  by pat_completeness auto
termination
  by (relation "measure (\<lambda>(mid, parts, len0, maxMarker, maxLen, k, off, rest). length rest)") auto

declare splitLoop.simps [simp del]

definition splitMaxMarker :: "u32 \<Rightarrow> u64 \<Rightarrow> u64 \<Rightarrow> u8 result" where
  "splitMaxMarker ever len0 maxLength =
     (if maxLength - ucast ever = 0 then Inl DivByZero
      else Inr (markerMaxSizeBytes
        (ucast ((len0 + maxLength - ucast ever - 1) div (maxLength - ucast ever))) (ucast len0)))"

definition splitMessage :: "u32 \<Rightarrow> byte list \<Rightarrow> u64 \<Rightarrow> u64 \<Rightarrow> msg_outbound result" where
  "splitMessage ever message maxLength0 mid =
     (let len0 = of_nat (length message) :: u64
      in bindR (splitMaxMarker ever len0 maxLength0) (\<lambda>maxMarker.
         let maxLength = maxLength0 - ucast maxMarker
         in if maxLength = 0 then Inl DivByZero
            else
              let parts = ucast ((len0 + maxLength - 1) div maxLength) :: u32;
                  len = ucast len0 :: u32
              in bindR (splitLoop mid parts len0 (unat maxMarker) (unat maxLength) 0 0
                          (take (unat len) message))
                   (\<lambda>fs. Inr (newMsgOutbound mid parts
                             (fs @ replicate (unat parts - length fs) nullFragment)))))"

text \<open>
  The same with the size of a piece as a function of the sizes, used to state what the pieces are.
\<close>

definition pieceSize :: "u32 \<Rightarrow> nat \<Rightarrow> nat \<Rightarrow> nat" where
  "pieceSize ever maxLength len =
     maxLength - unat (markerMaxSizeBytes
       (of_nat ((len + (maxLength - unat ever) - 1) div (maxLength - unat ever))) (of_nat len))"

definition pieceCount :: "nat \<Rightarrow> nat \<Rightarrow> nat" where
  "pieceCount len piece = (len + piece - 1) div piece"

definition piece :: "nat \<Rightarrow> byte list \<Rightarrow> nat \<Rightarrow> byte list" where
  "piece sz message i = take sz (drop (i * sz) message)"

definition wireFragment :: "u64 \<Rightarrow> nat \<Rightarrow> byte list \<Rightarrow> nat \<Rightarrow> byte list" where
  "wireFragment mid sz message i =
     markerPrint mid (of_nat (i + 1)) (of_nat (pieceCount (length message) sz))
       (of_nat (i * sz)) (of_nat (length message)) @ piece sz message i"

subsection \<open>Pieces\<close>

lemma less_pieceCount: "0 < sz \<Longrightarrow> i < pieceCount len sz \<longleftrightarrow> i * sz < len"
proof -
  assume sz: "0 < sz"
  have "i < pieceCount len sz \<longleftrightarrow> Suc i * sz \<le> len + sz - 1"
    using sz by (simp add: pieceCount_def Suc_le_eq [symmetric] less_eq_div_iff_mult_less_eq)
  also have "\<dots> \<longleftrightarrow> i * sz < len" using sz by auto
  finally show ?thesis .
qed

lemma pieceCount_cover: "0 < sz \<Longrightarrow> len \<le> pieceCount len sz * sz"
  by (metis less_pieceCount not_le order_less_irrefl)

lemma pieceCount_le: "0 < sz \<Longrightarrow> pieceCount len sz \<le> len"
  by (rule ccontr) (simp add: not_le less_pieceCount)

lemma pieceCount_antimono:
  assumes "0 < a" "a \<le> b"
  shows "pieceCount len b \<le> pieceCount len a"
proof (rule ccontr)
  assume "\<not> ?thesis"
  then have "pieceCount len a * b < len" using assms by (simp add: not_le less_pieceCount)
  moreover have "len \<le> pieceCount len a * a" using assms(1) by (rule pieceCount_cover)
  moreover have "pieceCount len a * a \<le> pieceCount len a * b" using assms(2) by simp
  ultimately show False by linarith
qed

lemma pieceCount_pos: "0 < sz \<Longrightarrow> 0 < len \<Longrightarrow> 0 < pieceCount len sz"
  by (simp add: less_pieceCount)

lemma concat_pieces:
  "0 < sz \<Longrightarrow> k \<le> pieceCount (length message) sz \<Longrightarrow>
     concat (map (piece sz message) [k..<pieceCount (length message) sz]) = drop (k * sz) message"
proof (induction "pieceCount (length message) sz - k" arbitrary: k)
  case 0
  with pieceCount_cover [of sz "length message"] show ?case by simp
next
  case (Suc m)
  then have k: "k < pieceCount (length message) sz" by simp
  have "concat (map (piece sz message) [Suc k..<pieceCount (length message) sz])
      = drop (Suc k * sz) message"
    using Suc k by (intro Suc.hyps) auto
  moreover have "piece sz message k @ drop (Suc k * sz) message = drop (k * sz) message"
    by (simp add: piece_def) (metis add.commute append_take_drop_id drop_drop)
  ultimately show ?case using k by (simp add: upt_conv_Cons)
qed

lemma piece_ne: "0 < sz \<Longrightarrow> i < pieceCount (length message) sz \<Longrightarrow> piece sz message i \<noteq> []"
  by (simp add: piece_def less_pieceCount)

lemma length_piece_le: "length (piece sz message i) \<le> sz"
  by (simp add: piece_def)

lemma splitLoop_pieces:
  assumes sz: "0 < sz" and n: "pieceCount (length message) sz = n" "unat parts = n"
    and fits: "\<And>i. i < n \<Longrightarrow>
      length (markerPrint mid (of_nat (i + 1)) parts (of_nat (i * sz)) (ucast len0)) \<le> maxMarker"
  shows "k \<le> n \<Longrightarrow>
    splitLoop mid parts len0 maxMarker sz k (of_nat (k * sz)) (drop (k * sz) message) =
    Inr (map (\<lambda>i. newFragment (markerPrint mid (of_nat (i + 1)) parts (of_nat (i * sz)) (ucast len0)
                   @ piece sz message i)) [k..<n])"
proof (induction "n - k" arbitrary: k)
  case 0
  then have "drop (k * sz) message = []"
    using pieceCount_cover [OF sz, of "length message"] n by simp
  with 0 show ?case by (simp add: splitLoop.simps)
next
  case (Suc m)
  then have k: "k < n" by simp
  then have len: "k * sz < length message" using less_pieceCount [OF sz, of k "length message"] n by simp
  let ?rest = "drop (k * sz) message"
  let ?step = "if length ?rest \<ge> sz then sz else length ?rest"
  have tk: "take ?step ?rest = piece sz message k" by (auto simp: piece_def)
  have dr: "drop ?step ?rest = drop (Suc k * sz) message" by (auto simp: add.commute)
  have IH: "splitLoop mid parts len0 maxMarker sz (Suc k) (of_nat (Suc k * sz)) (drop (Suc k * sz) message)
    = Inr (map (\<lambda>i. newFragment (markerPrint mid (of_nat (i + 1)) parts (of_nat (i * sz)) (ucast len0)
                   @ piece sz message i)) [Suc k..<n])"
    using Suc k by (intro Suc.hyps) auto
  have rec: "splitLoop mid parts len0 maxMarker sz (k + 1) (of_nat (k * sz) + of_nat ?step) (drop ?step ?rest)
    = Inr (map (\<lambda>i. newFragment (markerPrint mid (of_nat (i + 1)) parts (of_nat (i * sz)) (ucast len0)
                   @ piece sz message i)) [Suc k..<n])"
  proof (cases "length ?rest \<ge> sz")
    case True
    then have o: "of_nat (k * sz) + of_nat ?step = (of_nat (Suc k * sz) :: u32)" by simp
    show ?thesis using IH by (simp only: o dr Suc_eq_plus1 [symmetric])
  next
    case False
    then have "drop (Suc k * sz) message = []" by simp
    then have "k + 1 = n" using less_pieceCount [OF sz, of "Suc k" "length message"] n k by simp
    with \<open>drop (Suc k * sz) message = []\<close> show ?thesis
      by (simp only: dr) (simp add: splitLoop.simps)
  qed
  have kp: "\<not> unat parts \<le> k" using k n by simp
  have ft: "\<not> maxMarker < length (markerPrint mid (of_nat (k + 1)) parts (of_nat (k * sz)) (ucast len0))"
    using fits [OF k] by simp
  have "?rest \<noteq> []" using len by simp
  then show ?case
    using sz kp ft rec tk k
    by (subst splitLoop.simps) (simp add: Let_def upt_conv_Cons del: take_drop)
qed

subsection \<open>What splitMessage returns\<close>

lemma ucast_of_nat_u32: "n < 2 ^ 64 \<Longrightarrow> ucast (of_nat n :: u64) = (of_nat n :: u32)"
  by (simp only: ucast_via_nat unat_of_nat_u64)

text \<open>The rounded-up division of the code, in 64 bits, is \<open>pieceCount\<close>.\<close>

lemma ceil_div_u64:
  assumes "len < 2 ^ 32" "0 < b" "b < 2 ^ 32"
  shows "(ucast ((of_nat len + of_nat b - 1 :: u64) div of_nat b) :: u32) = of_nat (pieceCount len b)"
proof -
  have "of_nat len + of_nat b - (1 :: u64) = of_nat (len + b - 1)"
    using assms by (simp add: of_nat_diff)
  then have "unat (of_nat len + of_nat b - (1 :: u64)) = len + b - 1"
    using assms by (simp only:) (rule unat_of_nat_u64, simp)
  moreover have "unat (of_nat b :: u64) = b" using assms by (simp add: unat_of_nat_u64)
  ultimately show ?thesis
    by (simp only: ucast_via_nat unat_div pieceCount_def)
qed

lemma pieceSize_bounds:
  assumes "63 < L"
  shows "0 < pieceSize ever L len" "pieceSize ever L len \<le> L" "L - 63 \<le> pieceSize ever L len"
  using assms markerMaxSizeBytes_le
    [of "of_nat ((len + (L - unat ever) - 1) div (L - unat ever))" "of_nat len"]
  by (auto simp: pieceSize_def)

lemma splitMaxMarker_eq:
  assumes "unat ever < unat L" "len < 2 ^ 32"
  shows "splitMaxMarker ever (of_nat len) (ucast (L :: u32))
    = Inr (markerMaxSizeBytes (of_nat (pieceCount len (unat L - unat ever))) (of_nat len))"
proof -
  let ?b = "unat L - unat ever"
  have b: "ucast L - ucast ever = (of_nat ?b :: u64)" "0 < ?b" "?b < 2 ^ 32"
    using assms(1) unat_u32_bound [of L] by (simp_all add: of_nat_diff)
  have nz: "(of_nat ?b :: u64) \<noteq> 0"
    using b unat_of_nat_u64 [of ?b] by auto
  have num: "of_nat len + ucast L - ucast ever - 1 = (of_nat len + of_nat ?b - 1 :: u64)"
    using b(1) by (simp add: algebra_simps)
  have len: "len < 2 ^ 64" using assms(2) by simp
  show ?thesis
    unfolding splitMaxMarker_def num unfolding b(1)
    by (simp only: nz ceil_div_u64 [OF assms(2) b(2,3)] ucast_of_nat_u32 [OF len] if_False)
qed

text \<open>Every marker of the pieces fits the buffer sized by the estimate of the part count.\<close>

lemma pieces_fit:
  assumes "unat mid < 10 ^ 13" "len < 2 ^ 32" "63 < L" "i < pieceCount len sz"
    and sz: "sz = pieceSize 63 L len"
  shows "length (markerPrint mid (of_nat (i + 1)) (of_nat (pieceCount len sz)) (of_nat (i * sz)) (of_nat len))
    \<le> unat (markerMaxSizeBytes (of_nat (pieceCount len (L - 63))) (of_nat len))"
proof -
  have b: "0 < sz" "L - 63 \<le> sz" using pieceSize_bounds [OF assms(3), of 63 len] sz by simp_all
  have i: "i * sz < len" using assms(4) b(1) by (simp add: less_pieceCount)
  have n: "pieceCount len sz \<le> pieceCount len (L - 63)" "pieceCount len (L - 63) \<le> len"
    using assms(3) b pieceCount_antimono pieceCount_le by simp_all
  then have nn: "(of_nat (pieceCount len sz) :: u32) \<le> of_nat (pieceCount len (L - 63))"
    using assms(2) by (simp add: word_le_nat_alt unat_of_nat_u32)
  have "length (markerPrint mid (of_nat (i + 1)) (of_nat (pieceCount len sz)) (of_nat (i * sz)) (of_nat len))
    \<le> unat (markerMaxSizeBytes (of_nat (pieceCount len sz)) (of_nat len))"
  proof (rule length_markerPrint_le [OF assms(1)])
    show "(of_nat (i + 1) :: u32) \<le> of_nat (pieceCount len sz)"
      using assms(2,4) n by (simp only: word_le_nat_alt) (simp add: unat_of_nat_u32 del: of_nat_Suc of_nat_add)
    show "(of_nat (i * sz) :: u32) \<le> of_nat len"
      using assms(2) i by (simp only: word_le_nat_alt) (simp add: unat_of_nat_u32 del: of_nat_mult)
  qed
  also have "\<dots> \<le> unat (markerMaxSizeBytes (of_nat (pieceCount len (L - 63))) (of_nat len))"
    using nn by (rule markerMaxSizeBytes_mono)
  finally show ?thesis .
qed

definition splitFragments :: "u64 \<Rightarrow> nat \<Rightarrow> byte list \<Rightarrow> fragment list" where
  "splitFragments mid sz message =
     map (\<lambda>i. newFragment (wireFragment mid sz message i)) [0..<pieceCount (length message) sz]"

lemma splitMessage_eq:
  assumes L: "63 < unat L" and len: "length message < 2 ^ 32" and mid: "unat mid < 10 ^ 13"
    and sz: "sz = pieceSize 63 (unat L) (length message)"
  shows "splitMessage 63 message (ucast (L :: u32)) mid =
    Inr (newMsgOutbound mid (of_nat (pieceCount (length message) sz)) (splitFragments mid sz message))"
proof -
  let ?len = "length message" and ?n = "pieceCount (length message) sz"
  let ?mm = "markerMaxSizeBytes (of_nat (pieceCount ?len (unat L - 63))) (of_nat ?len)"
  have mm: "splitMaxMarker 63 (of_nat ?len) (ucast L) = Inr ?mm"
    using splitMaxMarker_eq [of 63 L ?len] L len by simp
  have szb: "0 < sz" "sz \<le> unat L" "sz = unat L - unat ?mm"
    using pieceSize_bounds [OF L, of 63 ?len] L
    by (simp_all add: sz pieceSize_def pieceCount_def)
  have ml: "ucast L - ucast ?mm = (of_nat sz :: u64)"
    using L markerMaxSizeBytes_le [of "of_nat (pieceCount ?len (unat L - 63))" "of_nat ?len"]
    by (simp add: szb(3) of_nat_diff)
  have sz32: "sz < 2 ^ 32" using szb(2) unat_u32_bound [of L] by linarith
  then have usz: "unat (of_nat sz :: u64) = sz" by (simp add: unat_of_nat_u64)
  then have nz: "(of_nat sz :: u64) \<noteq> 0" using szb(1) by auto
  have n: "?n \<le> ?len" using szb(1) by (rule pieceCount_le)
  have un: "unat (of_nat ?n :: u32) = ?n"
    using n len by (intro unat_of_nat_u32) simp
  have ulen: "unat (of_nat ?len :: u32) = ?len" using len by (rule unat_of_nat_u32)
  have clen: "ucast (of_nat ?len :: u64) = (of_nat ?len :: u32)"
    using len by (intro ucast_of_nat_u32) simp
  have fits: "length (markerPrint mid (of_nat (i + 1)) (of_nat ?n) (of_nat (i * sz)) (ucast (of_nat ?len :: u64)))
      \<le> unat ?mm" if "i < ?n" for i
    using pieces_fit [OF mid len L that sz] by (simp only: clen)
  have loop: "splitLoop mid (of_nat ?n) (of_nat ?len) (unat ?mm) sz 0 0 message
    = Inr (splitFragments mid sz message)"
    using splitLoop_pieces [OF szb(1) refl un fits, of 0]
    by (simp add: splitFragments_def wireFragment_def clen)
  have "unat (of_nat ?n :: u32) - length (splitFragments mid sz message) = 0"
    by (simp add: un splitFragments_def)
  then show ?thesis
    unfolding splitMessage_def Let_def mm bindR_Inr ml
      ceil_div_u64 [OF len szb(1) sz32] clen ulen usz
    using nz by (simp add: loop)
qed

lemma length_wireFragment_le:
  assumes "63 < unat (L :: u32)" "length message < 2 ^ 32" "unat mid < 10 ^ 13"
    "i < pieceCount (length message) sz" "sz = pieceSize 63 (unat L) (length message)"
  shows "length (wireFragment mid sz message i) \<le> unat L"
proof -
  have "sz + unat (markerMaxSizeBytes (of_nat (pieceCount (length message) (unat L - 63))) (of_nat (length message))) \<le> unat L"
    using assms(1) markerMaxSizeBytes_le
      [of "of_nat (pieceCount (length message) (unat L - 63))" "of_nat (length message)"]
    by (simp add: assms(5) pieceSize_def pieceCount_def)
  with pieces_fit [OF assms(3,2,1,4,5)] length_piece_le [of sz message i] show ?thesis
    by (simp add: wireFragment_def)
qed

text \<open>C10. Splitting is correct: with \<open>markerMaxSizeEver\<close> initialised, a maximal message length above
  63, a message below 4 GiB and an id of at most 13 digits, \<open>splitMessage\<close> never faults; it returns
  one fragment for each piece of the message, each the marker that describes the piece followed by
  the piece; the pieces concatenate to the message and no fragment exceeds the maximal length.\<close>

theorem splitMessage_correct:
  assumes "63 < unat (L :: u32)" "length message < 2 ^ 32" "unat mid < 10 ^ 13"
  shows "let sz = pieceSize 63 (unat L) (length message); n = pieceCount (length message) sz in
    splitMessage markerMaxSizeEverValue message (ucast L) mid
      = Inr (newMsgOutbound mid (of_nat n) (splitFragments mid sz message)) \<and>
    concat (map (piece sz message) [0..<n]) = message \<and>
    (\<forall>i<n. piece sz message i \<noteq> [] \<and> length (wireFragment mid sz message i) \<le> unat L)"
proof -
  define sz where "sz = pieceSize 63 (unat L) (length message)"
  have "0 < sz" using pieceSize_bounds(1) [OF assms(1)] by (simp add: sz_def)
  then show ?thesis
    using splitMessage_eq [OF assms sz_def] concat_pieces [of sz 0 message]
      length_wireFragment_le [OF assms _ sz_def] piece_ne [of sz _ message]
    by (simp add: Let_def sz_def [symmetric] markerMaxSizeEverValue_eq)
qed

theorem splitMessage_correct_witness:
  "let sz = pieceSize 63 75 200; n = pieceCount 200 sz in
    splitMessage markerMaxSizeEverValue (replicate 200 0x61) 75 1500000000000
      = Inr (newMsgOutbound 1500000000000 (of_nat n) (splitFragments 1500000000000 sz (replicate 200 0x61))) \<and>
    concat (map (piece sz (replicate 200 0x61)) [0..<n]) = replicate 200 0x61 \<and>
    (\<forall>i<n. piece sz (replicate 200 0x61) i \<noteq> [] \<and>
       length (wireFragment 1500000000000 sz (replicate 200 0x61) i) \<le> 75)"
  using splitMessage_correct [of 75 "replicate 200 0x61" 1500000000000] by simp

text \<open>Every fragment on the wire describes itself: parsing fragment \<open>i\<close> of a split with a 13-digit
  id yields the id, part number \<open>i + 1\<close>, the number of parts, the offset and the size of the
  message, and the bytes behind the marker are piece \<open>i\<close>.\<close>

theorem wireFragment_parse:
  assumes "10 ^ 12 \<le> unat mid" "unat mid < 10 ^ 13" "0 < sz" "i < pieceCount (length message) sz"
  shows "\<exists>mi. markerParse (wireFragment mid sz message i) = Inr (Some mi) \<and>
    drop (unat (mi_size mi)) (wireFragment mid sz message i) = piece sz message i \<and>
    mi_id mi = mid \<and> mi_partNo mi = of_nat (i + 1) \<and>
    mi_numParts mi = of_nat (pieceCount (length message) sz) \<and>
    mi_off mi = of_nat (i * sz) \<and> mi_sz mi = of_nat (length message)"
proof -
  let ?p = "markerPrint mid (of_nat (i + 1)) (of_nat (pieceCount (length message) sz))
    (of_nat (i * sz)) (of_nat (length message))"
  have "piece sz message i \<noteq> []" using assms(3,4) by (rule piece_ne)
  note rt = marker_roundtrip_facts [OF assms(1,2) this, of "of_nat (i + 1)"
      "of_nat (pieceCount (length message) sz)" "of_nat (i * sz)" "of_nat (length message)"]
  show ?thesis
    using rt by (simp add: wireFragment_def del: of_nat_Suc of_nat_add of_nat_mult)
qed

theorem wireFragment_parse_witness:
  "\<exists>mi. markerParse (wireFragment 1500000000000 42 (replicate 200 0x61) 4) = Inr (Some mi) \<and>
    drop (unat (mi_size mi)) (wireFragment 1500000000000 42 (replicate 200 0x61) 4) = replicate 32 0x61 \<and>
    mi_id mi = 1500000000000 \<and> mi_partNo mi = 5 \<and> mi_numParts mi = 5 \<and>
    mi_off mi = 168 \<and> mi_sz mi = 200"
  using wireFragment_parse [of 1500000000000 42 4 "replicate 200 0x61"]
  by (simp add: pieceCount_def piece_def)

text \<open>C31. The order of \<open>initialize\<close> is wrong: \<open>loadPendingSentMessages\<close> runs while
  \<open>markerMaxSizeEver\<close> is still 0, and then \<open>splitMessage\<close> underestimates the number of parts.  A
  stored message of 12300 bytes, which was split correctly when it was sent with the default
  maximal length, overruns the marker buffer on the stack when it is loaded at start-up.\<close>

theorem splitMessage_before_initialize_overflows:
  assumes "length message = 12300" "10 ^ 12 \<le> unat mid" "unat mid < 10 ^ 13"
  shows "splitMessage 0 message (ucast (maxMessageLength params_default)) mid = Inl OutOfBounds \<and>
    splitMessage markerMaxSizeEverValue message (ucast (maxMessageLength params_default)) mid \<noteq> Inl OutOfBounds"
proof (rule conjI)
  have id: "length (decDigits (unat mid)) = 13"
    using length_decDigits_eq [of 12 "unat mid"] assms(2,3) by simp
  have ne: "message \<noteq> []" using assms(1) by auto
  show "splitMessage 0 message (ucast (maxMessageLength params_default)) mid = Inl OutOfBounds"
    by (simp add: params_default_def splitMessage_def splitMaxMarker_def markerMaxSizeBytes_def
        numDigits_def numDigitsLoop.simps Let_def splitLoop.simps length_markerPrint id assms(1) ne)
      (simp add: decDigits.simps)
  show "splitMessage markerMaxSizeEverValue message (ucast (maxMessageLength params_default)) mid \<noteq> Inl OutOfBounds"
    using splitMessage_eq [of 1372 message mid] assms
    by (simp add: params_default_def markerMaxSizeEverValue_eq)
qed

theorem splitMessage_before_initialize_overflows_witness:
  "splitMessage 0 (replicate 12300 0x61) (ucast (maxMessageLength params_default)) 1500000000000
     = Inl OutOfBounds \<and>
   splitMessage markerMaxSizeEverValue (replicate 12300 0x61) (ucast (maxMessageLength params_default)) 1500000000000
     \<noteq> Inl OutOfBounds"
  by (rule splitMessage_before_initialize_overflows) simp_all

end
