(* ===== verification/Ring.thy ===== *)
theory Ring
  imports Message
begin

section \<open>The ring of outbound messages\<close>

text \<open>
  \<open>msgsOutbound\<close> is a doubly linked ring through \<open>prev\<close> and \<open>next\<close>; the messages live on the heap.
  The heap maps the addresses of the live messages to their contents, so that a NULL pointer and
  a pointer to a freed message are told apart and are faults when followed.  Addresses are never
  handed out twice, which makes every use of a dangling pointer visible as \<open>UseAfterFree\<close>.  The
  loops \<open>do \<dots> while (msg != msgsOutbound)\<close> carry fuel.

  The abstraction of the ring is the list of its addresses from \<open>msgsOutbound\<close> on along \<open>next\<close>.
  The lemmas show that linking inserts behind the head, that unlinking removes exactly the given
  message except when it is the head of a ring of two, where the other message is lost, and that
  the scan for a receipt ends after one round and finds it exactly if a message of the ring has it.
\<close>

record outq =
  q_heap :: "addr \<Rightarrow> msg_outbound option"
  msgsOutbound :: "addr option"

subsection \<open>Pointers\<close>

definition deref :: "outq \<Rightarrow> addr option \<Rightarrow> msg_outbound result" where
  "deref q p = (case p of None \<Rightarrow> Inl NullDeref
     | Some a \<Rightarrow> (case q_heap q a of None \<Rightarrow> Inl UseAfterFree | Some m \<Rightarrow> Inr m))"

text \<open>Assignment to a member of \<open>*p\<close>.\<close>

definition updMsg :: "outq \<Rightarrow> addr option \<Rightarrow> (msg_outbound \<Rightarrow> msg_outbound) \<Rightarrow> outq result" where
  "updMsg q p f = (case p of None \<Rightarrow> Inl NullDeref
     | Some a \<Rightarrow> (case q_heap q a of None \<Rightarrow> Inl UseAfterFree
        | Some m \<Rightarrow> Inr (q\<lparr>q_heap := (q_heap q)(a \<mapsto> f m)\<rparr>)))"

subsection \<open>msgsOutboundLink, msgsOutboundUnlink, deletion\<close>

definition msgsOutboundLink :: "outq \<Rightarrow> addr option \<Rightarrow> outq result" where
  "msgsOutboundLink q msg =
     (if msgsOutbound q \<noteq> None then
        bindR (deref q (msgsOutbound q)) (\<lambda>h.
        bindR (updMsg q msg (\<lambda>m. m\<lparr>m_next := m_next h\<rparr>)) (\<lambda>q.
        bindR (updMsg q msg (\<lambda>m. m\<lparr>m_prev := msgsOutbound q\<rparr>)) (\<lambda>q.
        bindR (deref q (msgsOutbound q)) (\<lambda>h.
        bindR (updMsg q (m_next h) (\<lambda>m. m\<lparr>m_prev := msg\<rparr>)) (\<lambda>q.
        updMsg q (msgsOutbound q) (\<lambda>m. m\<lparr>m_next := msg\<rparr>))))))
      else
        bindR (updMsg q msg (\<lambda>m. m\<lparr>m_next := msg\<rparr>)) (\<lambda>q.
        bindR (updMsg q msg (\<lambda>m. m\<lparr>m_prev := msg\<rparr>)) (\<lambda>q.
        Inr (q\<lparr>msgsOutbound := msg\<rparr>))))"

definition msgsOutboundUnlink :: "outq \<Rightarrow> addr option \<Rightarrow> outq result" where
  "msgsOutboundUnlink q msg =
     bindR (if msg = msgsOutbound q then
              bindR (deref q msg) (\<lambda>m.
                if m_next m \<noteq> m_prev m then Inr (q\<lparr>msgsOutbound := m_prev m\<rparr>)
                else Inr (q\<lparr>msgsOutbound := None\<rparr>))
            else Inr q) (\<lambda>q.
     bindR (deref q msg) (\<lambda>m.
     bindR (updMsg q (m_next m) (\<lambda>n. n\<lparr>m_prev := m_prev m\<rparr>)) (\<lambda>q.
     bindR (deref q msg) (\<lambda>m.
     updMsg q (m_prev m) (\<lambda>p. p\<lparr>m_next := m_next m\<rparr>)))))"

text \<open>
  \<open>msgOutboundDelete\<close>: the data of the fragments, the array and the struct are freed.  The loop
  reads \<open>fragments[0..numParts)\<close>.
\<close>

definition msgOutboundDelete :: "outq \<Rightarrow> addr option \<Rightarrow> outq result" where
  "msgOutboundDelete q msg =
     bindR (deref q msg) (\<lambda>m.
       if length (fragments m) < unat (numParts m) then Inl OutOfBounds
       else Inr (q\<lparr>q_heap := (q_heap q)(the msg := None)\<rparr>))"

fun msgsOutboundDeleteAll :: "nat \<Rightarrow> outq \<Rightarrow> outq result" where
  "msgsOutboundDeleteAll 0 q = (if msgsOutbound q = None then Inr q else Inl Diverges)"
| "msgsOutboundDeleteAll (Suc fuel) q =
     (if msgsOutbound q = None then Inr q
      else
        let msg = msgsOutbound q
        in bindR (msgsOutboundUnlink q msg) (\<lambda>q.
           bindR (msgOutboundDelete q msg) (\<lambda>q.
           msgsOutboundDeleteAll fuel q)))"

subsection \<open>The scan for a receipt\<close>

text \<open>
  The loop over the ring that looks for a receipt number.  It stands in \<open>generateReceiptNo\<close> (the
  inner \<open>do \<dots> while\<close>) and in \<open>tox_defragmenter_is_receipt_pending\<close>.
\<close>

fun scanReceipt :: "nat \<Rightarrow> outq \<Rightarrow> u32 \<Rightarrow> addr option \<Rightarrow> bool result" where
  "scanReceipt 0 q receipt p = Inl Diverges"
| "scanReceipt (Suc fuel) q receipt p =
     bindR (deref q p) (\<lambda>m.
       if m_receipt m = receipt then Inr True
       else if m_next m \<noteq> msgsOutbound q then scanReceipt fuel q receipt (m_next m)
       else Inr False)"

definition is_receipt_pending :: "nat \<Rightarrow> outq \<Rightarrow> u32 \<Rightarrow> bool result" where
  "is_receipt_pending fuel q receipt =
     (if msgsOutbound q = None then Inr False else scanReceipt fuel q receipt (msgsOutbound q))"

subsection \<open>The abstraction\<close>

definition nx :: "outq \<Rightarrow> addr \<Rightarrow> addr option" where
  "nx q a = (case q_heap q a of None \<Rightarrow> None | Some m \<Rightarrow> m_next m)"

definition pv :: "outq \<Rightarrow> addr \<Rightarrow> addr option" where
  "pv q a = (case q_heap q a of None \<Rightarrow> None | Some m \<Rightarrow> m_prev m)"

text \<open>Everything in a message but its two pointers.\<close>

definition content :: "outq \<Rightarrow> addr \<Rightarrow> msg_outbound option" where
  "content q a = map_option (\<lambda>m. m\<lparr>m_prev := None, m_next := None\<rparr>) (q_heap q a)"

definition linked :: "outq \<Rightarrow> addr \<Rightarrow> addr \<Rightarrow> bool" where
  "linked q a b \<longleftrightarrow> nx q a = Some b \<and> pv q b = Some a"

definition cyc :: "outq \<Rightarrow> addr list \<Rightarrow> bool" where
  "cyc q xs \<longleftrightarrow> xs = [] \<or> successively (linked q) xs \<and> linked q (last xs) (hd xs)"

definition ring :: "outq \<Rightarrow> addr list \<Rightarrow> bool" where
  "ring q xs \<longleftrightarrow> distinct xs \<and> cyc q xs \<and> msgsOutbound q = (if xs = [] then None else Some (hd xs))"

lemma content_dom: "content q = content q' \<Longrightarrow> q_heap q a = None \<longleftrightarrow> q_heap q' a = None"
  by (metis content_def option.map_disc_iff)

lemma content_None [simp]: "content q a = None \<longleftrightarrow> q_heap q a = None"
  by (simp add: content_def)

lemma nx_Some_alloc: "nx q a = Some b \<Longrightarrow> q_heap q a \<noteq> None"
  and pv_Some_alloc: "pv q a = Some b \<Longrightarrow> q_heap q a \<noteq> None"
  by (auto simp: nx_def pv_def split: option.splits)

lemma deref_alloc:
  assumes "q_heap q a \<noteq> None"
  obtains m where "deref q (Some a) = Inr m" "q_heap q a = Some m" "m_next m = nx q a" "m_prev m = pv q a"
  using assms by (auto simp: deref_def nx_def pv_def split: option.splits)

lemma updNext_effect:
  assumes "q_heap q a \<noteq> None"
  obtains q' where "updMsg q (Some a) (\<lambda>m. m\<lparr>m_next := v\<rparr>) = Inr q'"
    "msgsOutbound q' = msgsOutbound q" "nx q' = (nx q)(a := v)" "pv q' = pv q" "content q' = content q"
  using assms by (auto simp: updMsg_def nx_def pv_def content_def fun_eq_iff)

lemma updPrev_effect:
  assumes "q_heap q a \<noteq> None"
  obtains q' where "updMsg q (Some a) (\<lambda>m. m\<lparr>m_prev := v\<rparr>) = Inr q'"
    "msgsOutbound q' = msgsOutbound q" "nx q' = nx q" "pv q' = (pv q)(a := v)" "content q' = content q"
  using assms by (auto simp: updMsg_def nx_def pv_def content_def fun_eq_iff)

lemma cyc_rotate: "cyc q (xs @ ys) \<longleftrightarrow> cyc q (ys @ xs)"
  by (cases "xs = []"; cases "ys = []") (auto simp: cyc_def successively_append_iff)

lemma cyc_Cons: "cyc q (x # xs) \<longleftrightarrow> successively (linked q) (x # xs @ [x])"
  by (cases xs rule: rev_cases) (auto simp: cyc_def successively_Cons successively_append_iff hd_append)

lemma cyc_alloc:
  assumes "cyc q xs" "a \<in> set xs"
  shows "q_heap q a \<noteq> None"
proof -
  from assms(2) obtain ys zs where "xs = ys @ a # zs" by (auto dest: split_list)
  with assms(1) have "cyc q (a # zs @ ys)" using cyc_rotate [of q ys "a # zs"] by simp
  then obtain b where "linked q a b" by (auto simp: cyc_Cons successively_Cons)
  then show ?thesis by (auto simp: linked_def dest: nx_Some_alloc)
qed

lemma ring_alloc: "ring q xs \<Longrightarrow> a \<in> set xs \<Longrightarrow> q_heap q a \<noteq> None"
  by (auto simp: ring_def dest: cyc_alloc)

subsection \<open>Linking\<close>

lemma link_effect:
  assumes "q_heap q h \<noteq> None" "q_heap q msg \<noteq> None" "nx q h = Some n" "q_heap q n \<noteq> None"
    "msg \<noteq> h" "msgsOutbound q = Some h"
  obtains q' where "msgsOutboundLink q (Some msg) = Inr q'" "msgsOutbound q' = Some h"
    "nx q' = (nx q)(msg := Some n, h := Some msg)" "pv q' = (pv q)(msg := Some h, n := Some msg)"
    "content q' = content q"
proof -
  obtain mh where mh: "deref q (Some h) = Inr mh" "m_next mh = Some n"
    using assms(1,3) by (metis deref_alloc)
  obtain q1 where q1: "updMsg q (Some msg) (\<lambda>m. m\<lparr>m_next := Some n\<rparr>) = Inr q1"
    "msgsOutbound q1 = Some h" "nx q1 = (nx q)(msg := Some n)" "pv q1 = pv q" "content q1 = content q"
    using updNext_effect [OF assms(2)] assms(6) by metis
  obtain q2 where q2: "updMsg q1 (Some msg) (\<lambda>m. m\<lparr>m_prev := Some h\<rparr>) = Inr q2"
    "msgsOutbound q2 = Some h" "nx q2 = nx q1" "pv q2 = (pv q1)(msg := Some h)" "content q2 = content q"
    using updPrev_effect [of q1 msg] assms(2) q1 content_dom by metis
  obtain mh2 where mh2: "deref q2 (Some h) = Inr mh2" "m_next mh2 = Some n"
    using deref_alloc [of q2 h] assms(1,3,5) q1 q2 content_dom by (metis fun_upd_other)
  obtain q3 where q3: "updMsg q2 (Some n) (\<lambda>m. m\<lparr>m_prev := Some msg\<rparr>) = Inr q3"
    "msgsOutbound q3 = Some h" "nx q3 = nx q2" "pv q3 = (pv q2)(n := Some msg)" "content q3 = content q"
    using updPrev_effect [of q2 n] assms(4) q2 content_dom by metis
  obtain q4 where q4: "updMsg q3 (Some h) (\<lambda>m. m\<lparr>m_next := Some msg\<rparr>) = Inr q4"
    "msgsOutbound q4 = Some h" "nx q4 = (nx q3)(h := Some msg)" "pv q4 = pv q3" "content q4 = content q"
    using updNext_effect [of q3 h] assms(1) q3 content_dom by metis
  show ?thesis
    by (rule that [of q4])
      (simp_all add: msgsOutboundLink_def assms(6) mh q1 q2 mh2 q3 q4)
qed

text \<open>The contract of linking: the message is inserted behind the head.\<close>

definition linkedIn :: "addr \<Rightarrow> addr list \<Rightarrow> addr list" where
  "linkedIn msg xs = (case xs of [] \<Rightarrow> [msg] | h # ys \<Rightarrow> h # msg # ys)"

lemma ring_link:
  assumes r: "ring q xs" and m: "q_heap q msg \<noteq> None" "msg \<notin> set xs"
  obtains q' where "msgsOutboundLink q (Some msg) = Inr q'" "ring q' (linkedIn msg xs)"
    "content q' = content q"
proof (cases xs)
  case Nil
  then have "msgsOutbound q = None" using r by (simp add: ring_def)
  obtain q1 where q1: "updMsg q (Some msg) (\<lambda>m. m\<lparr>m_next := Some msg\<rparr>) = Inr q1"
    "nx q1 = (nx q)(msg := Some msg)" "content q1 = content q"
    using updNext_effect [OF m(1)] by metis
  obtain q2 where q2: "updMsg q1 (Some msg) (\<lambda>m. m\<lparr>m_prev := Some msg\<rparr>) = Inr q2"
    "nx q2 = nx q1" "pv q2 = (pv q1)(msg := Some msg)" "content q2 = content q"
    using updPrev_effect [of q1 msg] m(1) q1 content_dom by metis
  have heap: "q_heap (q2\<lparr>msgsOutbound := Some msg\<rparr>) = q_heap q2" by simp
  show ?thesis
    by (rule that [of "q2\<lparr>msgsOutbound := Some msg\<rparr>"])
      (use q2 q1 \<open>msgsOutbound q = None\<close> Nil in
        \<open>simp_all add: msgsOutboundLink_def linkedIn_def ring_def cyc_def linked_def
          nx_def pv_def content_def fun_eq_iff\<close>)
next
  case (Cons h ys)
  have d: "distinct (h # ys)" "msg \<noteq> h" "msg \<notin> set ys" using r m(2) Cons by (auto simp: ring_def)
  have head: "msgsOutbound q = Some h" using r Cons by (simp add: ring_def)
  have suc: "successively (linked q) (h # ys @ [h])" using r Cons by (simp add: ring_def cyc_Cons)
  define n where "n = hd (ys @ [h])"
  have n: "nx q h = Some n" "pv q n = Some h"
    using suc by (simp_all add: n_def successively_Cons linked_def)
  obtain q' where q': "msgsOutboundLink q (Some msg) = Inr q'" "msgsOutbound q' = Some h"
    "nx q' = (nx q)(msg := Some n, h := Some msg)" "pv q' = (pv q)(msg := Some h, n := Some msg)"
    "content q' = content q"
    using link_effect [of q h msg n] m(1) d(2) head n nx_Some_alloc pv_Some_alloc by metis
  have nm: "n \<noteq> msg" using d by (cases ys) (auto simp: n_def)
  have keep: "linked q' a b" if "linked q a b" "a \<noteq> h" "a \<noteq> msg" "b \<noteq> msg" for a b
    using that q'(3,4) n by (auto simp: linked_def)
  have sl: "successively (linked q) (ys @ [h])" using suc by (cases ys) auto
  then have "successively (linked q) ys" by (simp add: successively_append_iff)
  then have ys: "successively (linked q') ys"
    using d by (elim successively_mono) (auto intro: keep)
  moreover have "linked q' (last ys) h" if "ys \<noteq> []"
  proof (rule keep)
    show "linked q (last ys) h"
      using sl that by (simp add: successively_append_iff)
    show "last ys \<noteq> h" "last ys \<noteq> msg" "h \<noteq> msg"
      using d that last_in_set by auto
  qed
  ultimately have "successively (linked q') (ys @ [h])"
    by (auto simp: successively_append_iff)
  moreover have "linked q' h msg" "linked q' msg n"
    using nm d q'(3,4) by (auto simp: linked_def)
  ultimately have "cyc q' (h # msg # ys)"
    by (simp add: cyc_Cons successively_Cons n_def)
  with d q'(2) Cons show ?thesis
    by (intro that [OF q'(1) _ q'(5)]) (simp add: ring_def linkedIn_def)
qed

subsection \<open>Unlinking\<close>

text \<open>What the ring is after the head pointer has been moved and the message cut out.\<close>

lemma cut_effect:
  assumes "q_heap q msg \<noteq> None" "nx q msg = Some n" "pv q msg = Some p"
    "q_heap q n \<noteq> None" "q_heap q p \<noteq> None" "n \<noteq> msg"
  obtains q' where "bindR (deref q (Some msg)) (\<lambda>m.
      bindR (updMsg q (m_next m) (\<lambda>n. n\<lparr>m_prev := m_prev m\<rparr>)) (\<lambda>q.
      bindR (deref q (Some msg)) (\<lambda>m.
      updMsg q (m_prev m) (\<lambda>p. p\<lparr>m_next := m_next m\<rparr>)))) = Inr q'"
    "msgsOutbound q' = msgsOutbound q" "nx q' = (nx q)(p := Some n)" "pv q' = (pv q)(n := Some p)"
    "content q' = content q"
proof -
  obtain m where m: "deref q (Some msg) = Inr m" "m_next m = Some n" "m_prev m = Some p"
    using deref_alloc [OF assms(1)] assms(2,3) by metis
  obtain q1 where q1: "updMsg q (Some n) (\<lambda>n. n\<lparr>m_prev := Some p\<rparr>) = Inr q1"
    "msgsOutbound q1 = msgsOutbound q" "nx q1 = nx q" "pv q1 = (pv q)(n := Some p)"
    "content q1 = content q"
    using updPrev_effect [OF assms(4)] by metis
  obtain m1 where m1: "deref q1 (Some msg) = Inr m1" "m_next m1 = Some n" "m_prev m1 = Some p"
    using deref_alloc [of q1 msg] assms(1-3,6) q1 content_dom by (metis fun_upd_other)
  obtain q2 where q2: "updMsg q1 (Some p) (\<lambda>p. p\<lparr>m_next := Some n\<rparr>) = Inr q2"
    "msgsOutbound q2 = msgsOutbound q" "nx q2 = (nx q1)(p := Some n)" "pv q2 = pv q1"
    "content q2 = content q"
    using updNext_effect [of q1 p] assms(5) q1 content_dom by metis
  show ?thesis by (rule that [of q2]) (simp_all add: m q1 m1 q2)
qed

lemma cyc_cut:
  assumes c: "cyc q (msg # bs)" and d: "distinct (msg # bs)" and ne: "bs \<noteq> []"
    and q': "nx q' = (nx q)(last bs := Some (hd bs))" "pv q' = (pv q)(hd bs := Some (last bs))"
  shows "cyc q' bs"
proof -
  have suc: "successively (linked q) bs" "linked q msg (hd bs)" "linked q (last bs) msg"
    using c ne by (auto simp: cyc_Cons successively_Cons successively_append_iff hd_append)
  have "linked q' a b" if "linked q a b" "a \<noteq> msg" "b \<noteq> msg" for a b
    using that suc(2,3) q' by (auto simp: linked_def)
  then have "successively (linked q') bs"
    using suc(1) d by (elim successively_mono) auto
  with q' show ?thesis by (auto simp: cyc_def linked_def)
qed

text \<open>The neighbours of a message of the ring.\<close>

lemma cyc_neighbours:
  assumes "cyc q (msg # bs)" "bs \<noteq> []"
  shows "nx q msg = Some (hd bs)" "pv q msg = Some (last bs)"
  using assms by (auto simp: cyc_Cons successively_Cons successively_append_iff hd_append linked_def)

definition unlinkedFrom :: "addr \<Rightarrow> addr list \<Rightarrow> addr list" where
  "unlinkedFrom msg xs =
     (if msg = hd xs then (if length xs \<le> 1 then [] else last xs # butlast (tl xs))
      else remove1 msg xs)"

lemma ring_unlink:
  assumes r: "ring q xs" and mem: "msg \<in> set xs" and two: "\<not> (length xs = 2 \<and> msg = hd xs)"
  obtains q' where "msgsOutboundUnlink q (Some msg) = Inr q'" "ring q' (unlinkedFrom msg xs)"
    "content q' = content q"
proof (cases "length xs = 1")
  case True
  then have xs: "xs = [msg]" using mem by (cases xs) auto
  then have h: "msgsOutbound q = Some msg" and l: "nx q msg = Some msg" "pv q msg = Some msg"
    using r by (auto simp: ring_def cyc_def linked_def)
  obtain m where m: "deref q (Some msg) = Inr m" "q_heap q msg = Some m" "m_next m = Some msg" "m_prev m = Some msg"
    using deref_alloc [OF nx_Some_alloc [OF l(1)]] l by metis
  let ?q = "q\<lparr>msgsOutbound := None, q_heap := (q_heap q)(msg \<mapsto> m)\<rparr>"
  have "msgsOutboundUnlink q (Some msg) = Inr ?q"
    using m h by (simp add: msgsOutboundUnlink_def deref_def updMsg_def fun_upd_idem)
  moreover have "content ?q = content q" using m by (auto simp: content_def fun_eq_iff)
  ultimately show ?thesis using xs by (intro that [of ?q]) (simp_all add: ring_def cyc_def unlinkedFrom_def)
next
  case False
  obtain as bs where xs: "xs = as @ msg # bs" using mem by (auto dest: split_list)
  define ws where "ws = bs @ as"
  have c: "cyc q (msg # ws)" using r cyc_rotate [of q as "msg # bs"] by (simp add: ring_def xs ws_def)
  have d: "distinct (msg # ws)" using r by (auto simp: ring_def xs ws_def)
  have ne: "ws \<noteq> []" using False by (auto simp: xs ws_def)
  note nb = cyc_neighbours [OF c ne]
  have hd_ne: "hd ws \<noteq> msg" using d ne by (metis distinct.simps(2) hd_in_set)
  have alloc: "q_heap q a \<noteq> None" if "a \<in> set (msg # ws)" for a using c that by (rule cyc_alloc)
  define q0 where "q0 = (if msg = hd xs then q\<lparr>msgsOutbound := Some (last ws)\<rparr> else q)"
  have q0: "nx q0 = nx q" "pv q0 = pv q" "q_heap q0 = q_heap q" "content q0 = content q"
    by (auto simp: q0_def nx_def pv_def content_def fun_eq_iff)
  have hw: "msg = hd xs \<Longrightarrow> as = []"
    using r by (cases as) (auto simp: ring_def xs)
  have hl: "hd ws \<noteq> last ws" if "msg = hd xs"
  proof -
    have "as = []" using that by (rule hw)
    then have "length xs = Suc (length ws)" by (simp add: xs ws_def)
    with two that have "length ws \<noteq> 1" by linarith
    with d ne show ?thesis by (cases ws) (auto split: if_splits)
  qed
  have pre: "q_heap q0 msg \<noteq> None" "nx q0 msg = Some (hd ws)" "pv q0 msg = Some (last ws)"
    "q_heap q0 (hd ws) \<noteq> None" "q_heap q0 (last ws) \<noteq> None"
    using alloc [of msg] alloc [of "hd ws"] alloc [of "last ws"] nb ne by (simp_all add: q0)
  obtain q' where q': "bindR (deref q0 (Some msg)) (\<lambda>m.
      bindR (updMsg q0 (m_next m) (\<lambda>n. n\<lparr>m_prev := m_prev m\<rparr>)) (\<lambda>q.
      bindR (deref q (Some msg)) (\<lambda>m.
      updMsg q (m_prev m) (\<lambda>p. p\<lparr>m_next := m_next m\<rparr>)))) = Inr q'"
    "msgsOutbound q' = msgsOutbound q0" "nx q' = (nx q0)(last ws := Some (hd ws))"
    "pv q' = (pv q0)(hd ws := Some (last ws))" "content q' = content q0"
    by (rule cut_effect [OF pre hd_ne])
  have head: "msgsOutbound q = Some (hd xs)" using r by (auto simp: ring_def xs)
  obtain m where m: "deref q (Some msg) = Inr m" "m_next m = Some (hd ws)" "m_prev m = Some (last ws)"
    using deref_alloc [of q msg] alloc nb by (metis list.set_intros(1))
  have "msgsOutboundUnlink q (Some msg) = Inr q'"
    using q'(1) m hl head by (auto simp: msgsOutboundUnlink_def q0_def)
  moreover have cw: "cyc q' ws" using cyc_cut [OF c d ne] q' q0 by simp
  have "ring q' (unlinkedFrom msg xs)"
  proof (cases "msg = hd xs")
    case True
    then have "as = []" by (rule hw)
    then have "xs = msg # ws" by (simp add: xs ws_def)
    then have "unlinkedFrom msg xs = last ws # butlast ws"
      using ne False by (simp add: unlinkedFrom_def)
    moreover have "cyc q' ([last ws] @ butlast ws)"
      using cw ne cyc_rotate [of q' "butlast ws" "[last ws]"] by simp
    moreover have "distinct (butlast ws @ [last ws])" using d ne by simp
    ultimately show ?thesis
      using q'(2) True by (auto simp: ring_def q0_def)
  next
    case False
    then have as: "as \<noteq> []" by (auto simp: xs)
    then have "unlinkedFrom msg xs = as @ bs"
      using False d by (simp add: unlinkedFrom_def xs ws_def remove1_append)
    moreover have "cyc q' (as @ bs)" using cw cyc_rotate [of q' bs as] by (simp add: ws_def)
    ultimately show ?thesis
      using q'(2) False d as head by (auto simp: ring_def q0_def xs ws_def)
  qed
  ultimately show ?thesis using q'(5) q0 by (intro that [of q']) simp_all
qed

subsection \<open>Frames\<close>

lemma linked_cong:
  "q_heap q' a = q_heap q a \<Longrightarrow> q_heap q' b = q_heap q b \<Longrightarrow> linked q' a b = linked q a b"
  by (simp add: linked_def nx_def pv_def)

lemma cyc_frame:
  assumes "cyc q xs" "\<And>a. a \<in> set xs \<Longrightarrow> q_heap q' a = q_heap q a"
  shows "cyc q' xs"
proof (cases "xs = []")
  case False
  then have "linked q' (last xs) (hd xs) = linked q (last xs) (hd xs)"
    using assms(2) by (intro linked_cong) auto
  moreover have "successively (linked q') xs" if "successively (linked q) xs"
    using that by (rule successively_mono) (simp only: linked_cong [OF assms(2) assms(2)])
  ultimately show ?thesis using assms(1) by (auto simp: cyc_def)
qed (simp add: cyc_def)

lemma ring_frame:
  "ring q xs \<Longrightarrow> msgsOutbound q' = msgsOutbound q \<Longrightarrow>
     (\<And>a. a \<in> set xs \<Longrightarrow> q_heap q' a = q_heap q a) \<Longrightarrow> ring q' xs"
  by (auto simp: ring_def intro: cyc_frame)

lemma ring_next:
  assumes "ring q (pre @ z # zs)"
  shows "nx q z = Some (hd (zs @ [hd (pre @ [z])]))"
proof (cases zs)
  case Nil
  have "cyc q (z # pre)" using assms cyc_rotate [of q pre "z # zs"] by (simp add: ring_def Nil)
  then have "nx q z = Some (hd (pre @ [z]))"
    by (cases pre) (auto simp: cyc_Cons successively_Cons linked_def)
  then show ?thesis by (simp add: Nil)
next
  case (Cons y ys)
  have "cyc q (z # y # ys @ pre)"
    using assms cyc_rotate [of q pre "z # zs"] by (simp add: ring_def Cons)
  then show ?thesis by (auto simp: cyc_Cons successively_Cons linked_def Cons)
qed

subsection \<open>The scan\<close>

definition ringReceipts :: "outq \<Rightarrow> addr list \<Rightarrow> u32 set" where
  "ringReceipts q xs = (\<lambda>a. case q_heap q a of None \<Rightarrow> 0 | Some m \<Rightarrow> m_receipt m) ` set xs"

lemma scanReceipt_suffix:
  "ring q (pre @ zs) \<Longrightarrow> zs \<noteq> [] \<Longrightarrow> length zs \<le> fuel \<Longrightarrow>
     scanReceipt fuel q r (Some (hd zs)) = Inr (r \<in> ringReceipts q zs)"
proof (induction zs arbitrary: pre fuel)
  case Nil
  then show ?case by simp
next
  case (Cons z zs)
  obtain f where fuel: "fuel = Suc f" using Cons.prems(3) by (cases fuel) auto
  have "q_heap q z \<noteq> None" using Cons.prems(1) by (rule ring_alloc) simp
  then obtain m where m: "deref q (Some z) = Inr m" "q_heap q z = Some m" "m_next m = nx q z"
    by (rule deref_alloc)
  have next_z: "m_next m = Some (hd (zs @ [hd (pre @ [z])]))"
    using ring_next [OF Cons.prems(1)] m(3) by simp
  have head: "msgsOutbound q = Some (hd (pre @ [z]))"
    using Cons.prems(1) by (cases pre) (auto simp: ring_def)
  show ?case
  proof (cases zs)
    case Nil
    then show ?thesis using fuel m next_z head by (simp add: ringReceipts_def)
  next
    case (Cons y ys)
    have "distinct (pre @ z # y # ys)" using Cons.prems(1) Cons by (simp add: ring_def)
    then have "hd (pre @ [z]) \<noteq> y" by (cases pre) auto
    moreover have "scanReceipt f q r (Some (hd zs)) = Inr (r \<in> ringReceipts q zs)"
      using Cons.IH [of "pre @ [z]" f] Cons.prems(1,3) fuel Cons by simp
    ultimately show ?thesis
      using fuel m next_z head Cons by (auto simp: ringReceipts_def)
  qed
qed

lemma is_receipt_pending_ring:
  assumes "ring q xs" "length xs \<le> fuel"
  shows "is_receipt_pending fuel q r = Inr (r \<in> ringReceipts q xs)"
proof (cases "xs = []")
  case True
  then show ?thesis using assms by (simp add: is_receipt_pending_def ring_def ringReceipts_def)
next
  case False
  then show ?thesis
    using assms scanReceipt_suffix [of q "[]" xs fuel r] by (simp add: is_receipt_pending_def ring_def)
qed

subsection \<open>The two-element ring, deletion of all messages\<close>

lemma unlink_two:
  assumes "ring q [a, b]"
  obtains q' where "msgsOutboundUnlink q (Some a) = Inr q'" "msgsOutbound q' = None"
    "content q' = content q"
proof -
  have c: "cyc q (a # [b])" and ab: "a \<noteq> b" and head: "msgsOutbound q = Some a"
    using assms by (auto simp: ring_def)
  have nb: "nx q a = Some b" "pv q a = Some b" using cyc_neighbours [OF c] by simp_all
  have al: "q_heap q a \<noteq> None" "q_heap q b \<noteq> None" using ring_alloc [OF assms] by simp_all
  let ?q0 = "q\<lparr>msgsOutbound := None\<rparr>"
  have q0: "nx ?q0 = nx q" "pv ?q0 = pv q" "content ?q0 = content q"
    by (simp_all add: nx_def pv_def content_def fun_eq_iff)
  obtain m where m: "deref q (Some a) = Inr m" "m_next m = Some b" "m_prev m = Some b"
    using deref_alloc [OF al(1)] nb by metis
  have pre: "q_heap ?q0 a \<noteq> None" "nx ?q0 a = Some b" "pv ?q0 a = Some b" "q_heap ?q0 b \<noteq> None"
    using al nb q0 by simp_all
  show ?thesis
  proof (rule cut_effect [OF pre pre(4) ab [symmetric]])
    fix q'
    assume e: "bindR (deref ?q0 (Some a)) (\<lambda>m.
      bindR (updMsg ?q0 (m_next m) (\<lambda>n. n\<lparr>m_prev := m_prev m\<rparr>)) (\<lambda>q.
      bindR (deref q (Some a)) (\<lambda>m.
      updMsg q (m_prev m) (\<lambda>p. p\<lparr>m_next := m_next m\<rparr>)))) = Inr q'"
      and "msgsOutbound q' = msgsOutbound ?q0" "content q' = content ?q0"
    moreover have "msgsOutboundUnlink q (Some a) = Inr q'"
      using e m head by (simp add: msgsOutboundUnlink_def)
    ultimately show thesis using that q0(3) by simp
  qed
qed

text \<open>A message whose array of fragments is as long as \<open>numParts\<close> says.\<close>

definition msg_sane :: "msg_outbound \<Rightarrow> bool" where
  "msg_sane m \<longleftrightarrow> length (fragments m) = unat (numParts m)"

definition heap_sane :: "outq \<Rightarrow> bool" where
  "heap_sane q \<longleftrightarrow> (\<forall>m \<in> ran (q_heap q). msg_sane m)"

lemma heap_sane_content:
  "heap_sane q \<longleftrightarrow> (\<forall>a m. content q a = Some m \<longrightarrow> msg_sane m)"
  by (fastforce simp: heap_sane_def content_def ran_def msg_sane_def)

lemma delete_effect:
  assumes "heap_sane q" "q_heap q a \<noteq> None"
  shows "msgOutboundDelete q (Some a) = Inr (q\<lparr>q_heap := (q_heap q)(a := None)\<rparr>)"
    and "heap_sane (q\<lparr>q_heap := (q_heap q)(a := None)\<rparr>)"
  using assms
  by (auto simp: msgOutboundDelete_def deref_def heap_sane_def msg_sane_def ran_def split: option.splits)

lemma unlinkedFrom_head:
  "length xs \<noteq> 2 \<Longrightarrow> xs \<noteq> [] \<Longrightarrow> distinct xs \<Longrightarrow> length (unlinkedFrom (hd xs) xs) = length xs - 1
     \<and> set (unlinkedFrom (hd xs) xs) = set xs - {hd xs}"
  by (cases xs; cases "tl xs" rule: rev_cases) (auto simp: unlinkedFrom_def)

lemma deleteAll_effect:
  "ring q xs \<Longrightarrow> heap_sane q \<Longrightarrow> length xs \<le> fuel \<Longrightarrow>
     \<exists>q'. msgsOutboundDeleteAll fuel q = Inr q' \<and> msgsOutbound q' = None \<and>
       card {a \<in> set xs. q_heap q' a \<noteq> None} = (if 2 \<le> length xs then 1 else 0) \<and>
       (\<forall>a. a \<notin> set xs \<longrightarrow> content q' a = content q a)"
proof (induction "length xs" arbitrary: xs q fuel)
  case 0
  then show ?case by (cases fuel) (auto simp: ring_def)
next
  case (Suc n)
  obtain f where fuel: "fuel = Suc f" using Suc.hyps(2) Suc.prems(3) by (cases fuel) auto
  have ne: "xs \<noteq> []" using Suc.hyps(2) by auto
  then have head: "msgsOutbound q = Some (hd xs)" using Suc.prems(1) by (simp add: ring_def)
  have al: "q_heap q (hd xs) \<noteq> None" using Suc.prems(1) ne by (intro ring_alloc) auto
  show ?case
  proof (cases "length xs = 2")
    case True
    then obtain a b where xs: "xs = [a, b]" by (auto simp: length_Suc_conv numeral_2_eq_2)
    then obtain q1 where q1: "msgsOutboundUnlink q (Some a) = Inr q1" "msgsOutbound q1 = None"
      "content q1 = content q" using unlink_two Suc.prems(1) by blast
    have al1: "q_heap q1 a \<noteq> None" using al q1(3) content_dom xs by (metis list.sel(1))
    have "heap_sane q1" using Suc.prems(2) q1(3) by (simp add: heap_sane_content)
    note del = delete_effect(1) [OF this al1]
    have "q_heap q1 b \<noteq> None" "a \<noteq> b"
      using ring_alloc [OF Suc.prems(1), of b] q1(3) content_dom [of q1 q b] Suc.prems(1)
      by (auto simp: xs ring_def)
    then have "{x \<in> set xs. ((q_heap q1)(a := None)) x \<noteq> None} = {b}"
      using xs by auto
    moreover have "content (q1\<lparr>q_heap := (q_heap q1)(a := None)\<rparr>) x = content q x" if "x \<notin> set xs" for x
      using that xs q1(3) by (auto simp: content_def fun_eq_iff)
    ultimately show ?thesis
      using fuel head xs q1 del True by (cases f) simp_all
  next
    case False
    obtain q1 where q1: "msgsOutboundUnlink q (Some (hd xs)) = Inr q1"
      "ring q1 (unlinkedFrom (hd xs) xs)" "content q1 = content q"
      using ring_unlink [OF Suc.prems(1), of "hd xs"] ne False by auto
    have al1: "q_heap q1 (hd xs) \<noteq> None" using al q1(3) content_dom by metis
    have sane: "heap_sane q1" using Suc.prems(2) q1(3) by (simp add: heap_sane_content)
    note del = delete_effect [OF sane al1]
    let ?q2 = "q1\<lparr>q_heap := (q_heap q1)(hd xs := None)\<rparr>" and ?ys = "unlinkedFrom (hd xs) xs"
    have ys: "length ?ys = n" "set ?ys = set xs - {hd xs}"
      using unlinkedFrom_head [of xs] False ne Suc.prems(1) Suc.hyps(2) by (auto simp: ring_def)
    have r2: "ring ?q2 ?ys" by (rule ring_frame [OF q1(2)]) (auto simp: ys(2))
    have f: "length ?ys \<le> f" using ys(1) Suc.hyps(2) Suc.prems(3) fuel by simp
    obtain q' where q': "msgsOutboundDeleteAll f ?q2 = Inr q'" "msgsOutbound q' = None"
      "card {a \<in> set ?ys. q_heap q' a \<noteq> None} = (if 2 \<le> n then 1 else 0)"
      "\<forall>a. a \<notin> set ?ys \<longrightarrow> content q' a = content ?q2 a"
      using Suc.hyps(1) [OF ys(1) [symmetric] r2 del(2) f] ys(1) by auto
    have "content q' (hd xs) = content ?q2 (hd xs)" using q'(4) ys(2) by auto
    then have "content q' (hd xs) = None" by (simp add: content_def)
    then have hd0: "q_heap q' (hd xs) = None" by simp
    have "{a \<in> set xs. q_heap q' a \<noteq> None} = {a \<in> set ?ys. q_heap q' a \<noteq> None}"
      unfolding ys(2) using hd0 by blast
    moreover have "content q' a = content q a" if "a \<notin> set xs" for a
      using that q'(4) ys(2) ne q1(3) by (auto simp: content_def fun_eq_iff)
    moreover have "(2 \<le> n) = (2 \<le> length xs)" using Suc.hyps(2) False ne by auto
    ultimately show ?thesis
      using fuel head q1(1) del(1) q' by simp
  qed
qed

subsection \<open>Properties of the ring\<close>

text \<open>A ring of two messages with receipts 7 and 8, for the witnesses.\<close>

definition ringOfTwo :: outq where
  "ringOfTwo = \<lparr>q_heap = [1 \<mapsto> (newMsgOutbound 1 0 [])\<lparr>m_prev := Some 2, m_next := Some 2, m_receipt := 7\<rparr>,
                           2 \<mapsto> (newMsgOutbound 2 0 [])\<lparr>m_prev := Some 1, m_next := Some 1, m_receipt := 8\<rparr>,
                           3 \<mapsto> newMsgOutbound 3 0 []],
                msgsOutbound = Some 1\<rparr>"

lemma ring_ringOfTwo: "ring ringOfTwo [1, 2]"
  by (simp add: ringOfTwo_def ring_def cyc_def linked_def nx_def pv_def)

lemma heap_sane_ringOfTwo: "heap_sane ringOfTwo"
  by (auto simp: ringOfTwo_def heap_sane_def ran_def msg_sane_def newMsgOutbound_def split: if_splits)

text \<open>C17. Linking an allocated message that is not in the ring never faults and inserts it directly
  behind the head (or makes it the head of an empty ring); nothing but \<open>prev\<close> and \<open>next\<close> pointers
  changes.\<close>

theorem msgsOutboundLink_correct:
  assumes "ring q xs" "q_heap q msg \<noteq> None" "msg \<notin> set xs"
  shows "\<exists>q'. msgsOutboundLink q (Some msg) = Inr q' \<and> ring q' (linkedIn msg xs) \<and> content q' = content q"
  using assms by (metis ring_link)

theorem msgsOutboundLink_correct_witness:
  "\<exists>q'. msgsOutboundLink ringOfTwo (Some 3) = Inr q' \<and> ring q' [1, 3, 2] \<and> content q' = content ringOfTwo"
  using msgsOutboundLink_correct [OF ring_ringOfTwo, of 3] by (simp add: ringOfTwo_def linkedIn_def)

text \<open>C18. Unlinking a message of the ring never faults and removes exactly that message, whatever its
  position, unless it is the head of a ring of two messages; when the head is removed the previous
  message becomes the head.\<close>

theorem msgsOutboundUnlink_correct:
  assumes "ring q xs" "msg \<in> set xs" "\<not> (length xs = 2 \<and> msg = hd xs)"
  shows "\<exists>q'. msgsOutboundUnlink q (Some msg) = Inr q' \<and> ring q' (unlinkedFrom msg xs) \<and>
    set (unlinkedFrom msg xs) = set xs - {msg} \<and> content q' = content q"
proof -
  have "set (unlinkedFrom msg xs) = set xs - {msg}"
  proof (cases "msg = hd xs")
    case True
    with assms have "xs \<noteq> []" "distinct xs" "length xs \<noteq> 2" by (auto simp: ring_def)
    with True show ?thesis using unlinkedFrom_head [of xs] by simp
  next
    case False
    then show ?thesis using assms(1) by (simp add: unlinkedFrom_def ring_def set_remove1_eq)
  qed
  with assms show ?thesis by (metis ring_unlink)
qed

theorem msgsOutboundUnlink_correct_witness:
  "\<exists>q'. msgsOutboundUnlink ringOfTwo (Some 2) = Inr q' \<and> ring q' [1]"
  using msgsOutboundUnlink_correct [OF ring_ringOfTwo, of 2] by (auto simp: unlinkedFrom_def)

text \<open>In a ring of exactly two messages \<open>msg->next\<close> equals \<open>msg->prev\<close>, which the code takes for
  the sign of a ring of one: unlinking the head sets \<open>msgsOutbound\<close> to NULL, so the other message,
  still allocated, is in no ring any more, \<open>sendMore\<close> no longer reaches it and no receipt counts
  as pending.\<close>

theorem msgsOutboundUnlink_two_loses_other:
  assumes "ring q [a, b]"
  shows "\<exists>q'. msgsOutboundUnlink q (Some a) = Inr q' \<and> msgsOutbound q' = None \<and> q_heap q' b \<noteq> None \<and>
    (\<forall>fuel r. is_receipt_pending fuel q' r = Inr False)"
proof -
  obtain q' where q': "msgsOutboundUnlink q (Some a) = Inr q'" "msgsOutbound q' = None"
    "content q' = content q"
    using unlink_two [OF assms] .
  have "q_heap q b \<noteq> None" using ring_alloc [OF assms, of b] by simp
  then have "q_heap q' b \<noteq> None" using content_dom [OF q'(3), of b] by simp
  with q' show ?thesis by (simp add: is_receipt_pending_def)
qed

theorem msgsOutboundUnlink_two_loses_other_witness:
  "\<exists>q'. msgsOutboundUnlink ringOfTwo (Some 1) = Inr q' \<and> msgsOutbound q' = None \<and>
    is_receipt_pending 2 ringOfTwo 8 = Inr True \<and> is_receipt_pending 2 q' 8 = Inr False"
  using msgsOutboundUnlink_two_loses_other [OF ring_ringOfTwo]
    is_receipt_pending_ring [OF ring_ringOfTwo, of 2 8]
  by (auto simp: ringReceipts_def ringOfTwo_def)

text \<open>C19. \<open>tox_defragmenter_is_receipt_pending\<close> ends after at most one round of the ring and answers
  exactly whether some message of the ring has the receipt.\<close>

theorem is_receipt_pending_correct:
  assumes "ring q xs" "length xs \<le> fuel"
  shows "is_receipt_pending fuel q r = Inr (r \<in> ringReceipts q xs)"
  using assms by (rule is_receipt_pending_ring)

theorem is_receipt_pending_correct_witness:
  "is_receipt_pending 2 ringOfTwo 8 = Inr True \<and> is_receipt_pending 2 ringOfTwo 9 = Inr False"
  using is_receipt_pending_correct [OF ring_ringOfTwo, of 2]
  by (auto simp: ringReceipts_def ringOfTwo_def)

text \<open>\<open>msgsOutboundDeleteAll\<close> ends, leaves an empty ring and touches no other message, but it frees
  all messages only when there is at most one: from two messages on exactly one is leaked, by the
  unlinking of the last two.\<close>

theorem msgsOutboundDeleteAll_leaks_one:
  assumes "ring q xs" "heap_sane q" "length xs \<le> fuel"
  shows "\<exists>q'. msgsOutboundDeleteAll fuel q = Inr q' \<and> msgsOutbound q' = None \<and>
    card {a \<in> set xs. q_heap q' a \<noteq> None} = (if 2 \<le> length xs then 1 else 0) \<and>
    (\<forall>a. a \<notin> set xs \<longrightarrow> content q' a = content q a)"
  using assms by (rule deleteAll_effect)

theorem msgsOutboundDeleteAll_leaks_one_witness:
  "\<exists>q'. msgsOutboundDeleteAll 2 ringOfTwo = Inr q' \<and> msgsOutbound q' = None \<and>
    card {a \<in> {1, 2}. q_heap q' a \<noteq> None} = 1"
  using msgsOutboundDeleteAll_leaks_one [OF ring_ringOfTwo heap_sane_ringOfTwo, of 2] by auto

end
