(* ===== verification/Ids.thy ===== *)
theory Ids
  imports Ring
begin

section \<open>Message ids and receipt numbers\<close>

text \<open>
  \<open>generateMsgId\<close> and \<open>generateReceiptNo\<close> of \<open>tox-defragmenter.c\<close>.  The clock is an argument
  (\<open>getCurrTimeMs\<close> reads \<open>gettimeofday\<close>).  The first loop is a \<open>partial_function\<close>, since it runs
  for ever once the last id is \<open>UINT64_MAX\<close>; the second, over receipt numbers in use, carries fuel.
  The lemmas show that ids strictly increase and that a receipt number is found, lies in the
  configured range and belongs to no message of the ring, as soon as the range has more numbers
  than there are receipts in use; the search needs no more rounds than there are such receipts.
\<close>

subsection \<open>generateMsgId\<close>

partial_function (option) msgIdLoop :: "u64 \<Rightarrow> u64 \<Rightarrow> u64 option" where
  "msgIdLoop lastMsgId msgId =
     (if msgId \<le> lastMsgId then msgIdLoop lastMsgId (msgId + 1) else Some msgId)"

text \<open>The result is the id and the new \<open>lastMsgId\<close>.\<close>

definition generateMsgId :: "u64 \<Rightarrow> u64 \<Rightarrow> (u64 \<times> u64) result" where
  "generateMsgId now lastMsgId =
     (case msgIdLoop lastMsgId now of None \<Rightarrow> Inl Diverges | Some msgId \<Rightarrow> Inr (msgId, msgId))"

lemma unat_Suc_u64: "x \<noteq> -1 \<Longrightarrow> unat (x + 1 :: u64) = unat x + 1"
  by (metis add.commute add_eq_0_iff Suc_eq_plus1 unatSuc)

lemma msgIdLoop_eq:
  assumes "lastMsgId \<noteq> -1"
  shows "msgIdLoop lastMsgId msgId = Some (max msgId (lastMsgId + 1))"
proof (induction "unat lastMsgId + 1 - unat msgId" arbitrary: msgId)
  case 0
  then have "lastMsgId + 1 \<le> msgId"
    using unat_Suc_u64 [OF assms] by (simp add: word_le_nat_alt)
  moreover have "\<not> msgId \<le> lastMsgId" using 0 by (simp add: word_le_nat_alt)
  ultimately show ?case by (subst msgIdLoop.simps) (simp add: max_def)
next
  case (Suc n)
  then have le: "msgId \<le> lastMsgId" by (simp add: word_le_nat_alt)
  then have ne: "msgId \<noteq> -1" using assms by (auto dest: word_order.extremum_uniqueI)
  have "msgIdLoop lastMsgId (msgId + 1) = Some (max (msgId + 1) (lastMsgId + 1))"
    using Suc.hyps(2) unat_Suc_u64 [OF ne] by (intro Suc.hyps(1)) simp
  moreover have "msgId + 1 \<le> lastMsgId + 1" "msgId \<le> lastMsgId + 1"
    using le unat_Suc_u64 [OF ne] unat_Suc_u64 [OF assms] by (simp_all add: word_le_nat_alt)
  ultimately show ?case using le by (subst msgIdLoop.simps) (simp add: max_def)
qed

lemma msgIdLoop_greater:
  assumes "msgIdLoop lastMsgId msgId = Some r"
  shows "lastMsgId < r"
proof (rule msgIdLoop.raw_induct [where P = "\<lambda>l m r. l < r", OF _ assms])
  fix f and l m r :: u64
  assume "\<And>l m r. f l m = Some r \<Longrightarrow> l < r"
    and "(if m \<le> l then f l (m + 1) else Some m) = Some r"
  then show "l < (r :: u64)" by (auto split: if_splits)
qed

subsection \<open>generateReceiptNo\<close>

definition nextReceipt :: "params \<Rightarrow> u32 \<Rightarrow> u32" where
  "nextReceipt p lastReceipt =
     (if lastReceipt + 1 \<le> receiptRangeHi p then lastReceipt + 1 else receiptRangeLo p)"

text \<open>The outer loop \<open>do \<dots> while (changed)\<close>, around a scan of the ring.\<close>

fun receiptNoLoop :: "nat \<Rightarrow> (u32 \<Rightarrow> bool result) \<Rightarrow> params \<Rightarrow> u32 \<Rightarrow> u32 result" where
  "receiptNoLoop 0 scan p lastReceipt = Inl Diverges"
| "receiptNoLoop (Suc fuel) scan p lastReceipt =
     bindR (scan lastReceipt) (\<lambda>found.
       if found then receiptNoLoop fuel scan p (nextReceipt p lastReceipt) else Inr lastReceipt)"

definition generateReceiptNo :: "nat \<Rightarrow> params \<Rightarrow> outq \<Rightarrow> u32 \<Rightarrow> u32 result" where
  "generateReceiptNo fuel p q lastReceipt =
     (let lastReceipt = nextReceipt p lastReceipt
      in if msgsOutbound q \<noteq> None
         then receiptNoLoop fuel (\<lambda>r. scanReceipt fuel q r (msgsOutbound q)) p lastReceipt
         else Inr lastReceipt)"

text \<open>A usable range: not empty, and its end is not \<open>UINT32_MAX\<close>, where \<open>lastReceipt+1\<close> wraps.\<close>

definition range_ok :: "params \<Rightarrow> bool" where
  "range_ok p \<longleftrightarrow> receiptRangeLo p \<le> receiptRangeHi p \<and> receiptRangeHi p \<noteq> -1"

definition in_range :: "params \<Rightarrow> u32 \<Rightarrow> bool" where
  "in_range p r \<longleftrightarrow> receiptRangeLo p \<le> r \<and> r \<le> receiptRangeHi p"

definition rangeSize :: "params \<Rightarrow> nat" where
  "rangeSize p = unat (receiptRangeHi p) - unat (receiptRangeLo p) + 1"

lemma unat_Suc_range:
  assumes "range_ok p" "in_range p r"
  shows "unat (r + 1) = unat r + 1"
proof -
  have "r \<noteq> -1"
    using assms by (auto simp: range_ok_def in_range_def intro: antisym word_order.extremum)
  then show ?thesis by (metis add.commute add_eq_0_iff Suc_eq_plus1 unatSuc)
qed

lemma nextReceipt_in_range: "range_ok p \<Longrightarrow> in_range p r \<Longrightarrow> in_range p (nextReceipt p r)"
proof -
  assume p: "range_ok p" and r: "in_range p r"
  then have "unat (r + 1) = unat r + 1" by (rule unat_Suc_range)
  with p r show ?thesis
    by (auto simp: nextReceipt_def in_range_def range_ok_def word_le_nat_alt)
qed

text \<open>Within the range, \<open>nextReceipt\<close> is the successor modulo the size of the range.\<close>

lemma nextReceipt_pos:
  assumes "range_ok p" "in_range p r"
  shows "unat (nextReceipt p r) - unat (receiptRangeLo p)
    = (unat r - unat (receiptRangeLo p) + 1) mod rangeSize p"
proof -
  have "unat (r + 1) = unat r + 1" using assms by (rule unat_Suc_range)
  moreover have "unat (receiptRangeLo p) \<le> unat r" "unat r \<le> unat (receiptRangeHi p)"
    using assms(2) by (simp_all add: in_range_def word_le_nat_alt)
  moreover have "Suc (unat r) \<le> unat (receiptRangeHi p) \<or> unat r = unat (receiptRangeHi p)"
    using calculation by linarith
  ultimately show ?thesis
    by (auto simp: nextReceipt_def rangeSize_def word_le_nat_alt Suc_diff_le)
qed

lemma iterate_in_range: "range_ok p \<Longrightarrow> in_range p r \<Longrightarrow> in_range p ((nextReceipt p ^^ k) r)"
  by (induction k) (auto intro: nextReceipt_in_range)

lemma iterate_pos:
  assumes "range_ok p" "in_range p r"
  shows "unat ((nextReceipt p ^^ k) r) - unat (receiptRangeLo p)
    = (unat r - unat (receiptRangeLo p) + k) mod rangeSize p"
proof (induction k)
  case 0
  have "unat r - unat (receiptRangeLo p) < rangeSize p"
    using assms(2) by (auto simp: in_range_def rangeSize_def word_le_nat_alt)
  then show ?case by simp
next
  case (Suc k)
  then show ?case
    using nextReceipt_pos [OF assms(1) iterate_in_range [OF assms], of k] by (simp add: mod_Suc_eq)
qed

lemma mod_shift_inj:
  fixes a i j n :: nat
  assumes "(a + i) mod n = (a + j) mod n" "i \<le> j" "j < n"
  shows "i = j"
proof -
  have "n dvd (a + j) - (a + i)"
    using assms mod_eq_dvd_iff_nat [of "a + i" "a + j" n] by simp
  with assms show ?thesis by (auto dest: dvd_imp_le)
qed

lemma iterate_inj:
  assumes "range_ok p" "in_range p r"
  shows "inj_on (\<lambda>k. (nextReceipt p ^^ k) r) {0..<rangeSize p}"
proof (rule inj_onI)
  fix i j
  assume ij: "i \<in> {0..<rangeSize p}" "j \<in> {0..<rangeSize p}"
    and eq: "(nextReceipt p ^^ i) r = (nextReceipt p ^^ j) r"
  from eq have "(unat r - unat (receiptRangeLo p) + i) mod rangeSize p
      = (unat r - unat (receiptRangeLo p) + j) mod rangeSize p"
    by (simp only: iterate_pos [OF assms, symmetric])
  with ij mod_shift_inj [of _ i "rangeSize p" j] mod_shift_inj [of _ j "rangeSize p" i]
  show "i = j" by (metis atLeastLessThan_iff nat_le_linear)
qed

subsection \<open>The interface between the search and the ring\<close>

text \<open>
  What \<open>generateReceiptNo\<close> needs of the store of messages: a scan that answers exactly whether a
  receipt number is in use.  The search is proved correct against this contract; the ring provides
  it below.
\<close>

locale receipt_scan =
  fixes scan :: "'q \<Rightarrow> u32 \<Rightarrow> bool result"
    and used :: "'q \<Rightarrow> u32 set"
    and invar :: "'q \<Rightarrow> bool"
  assumes scan_used: "invar q \<Longrightarrow> scan q r = Inr (r \<in> used q)"
    and finite_used: "invar q \<Longrightarrow> finite (used q)"
begin

lemma loop_finds:
  assumes "invar q"
  shows "(nextReceipt p ^^ k) r \<notin> used q \<Longrightarrow> k < fuel \<Longrightarrow>
    \<exists>j\<le>k. receiptNoLoop fuel (scan q) p r = Inr ((nextReceipt p ^^ j) r) \<and>
      (nextReceipt p ^^ j) r \<notin> used q"
proof (induction fuel arbitrary: r k)
  case 0
  then show ?case by simp
next
  case (Suc fuel)
  show ?case
  proof (cases "r \<in> used q")
    case False
    then show ?thesis using scan_used [OF assms] by (intro exI [of _ 0]) simp
  next
    case True
    then obtain k' where k: "k = Suc k'" using Suc.prems(1) by (cases k) auto
    have "(nextReceipt p ^^ k') (nextReceipt p r) \<notin> used q"
      using Suc.prems(1) k by (simp add: funpow_swap1)
    from Suc.IH [OF this] Suc.prems(2) k obtain j where
      "j \<le> k'" "receiptNoLoop fuel (scan q) p (nextReceipt p r) = Inr ((nextReceipt p ^^ j) (nextReceipt p r))"
      "(nextReceipt p ^^ j) (nextReceipt p r) \<notin> used q"
      by auto
    with True k scan_used [OF assms, of r] show ?thesis
      by (intro exI [of _ "Suc j"]) (simp add: funpow_swap1)
  qed
qed

lemma free_within:
  assumes "invar q" "range_ok p" "in_range p r" "card (used q) < rangeSize p"
  shows "\<exists>k\<le>card (used q). (nextReceipt p ^^ k) r \<notin> used q"
proof (rule ccontr)
  assume "\<not> ?thesis"
  then have "(\<lambda>k. (nextReceipt p ^^ k) r) ` {0..<Suc (card (used q))} \<subseteq> used q" by auto
  moreover have "inj_on (\<lambda>k. (nextReceipt p ^^ k) r) {0..<Suc (card (used q))}"
    using iterate_inj [OF assms(2,3)] assms(4) by (auto intro: inj_on_subset)
  ultimately have "card {0..<Suc (card (used q))} \<le> card (used q)"
    by (intro card_inj_on_le [OF _ _ finite_used [OF assms(1)]])
  then show False by simp
qed

lemma search_correct:
  assumes "invar q" "range_ok p" "in_range p r" "card (used q) < rangeSize p" "card (used q) < fuel"
  obtains r' where "receiptNoLoop fuel (scan q) p r = Inr r'" "in_range p r'" "r' \<notin> used q"
proof -
  obtain k where "k \<le> card (used q)" "(nextReceipt p ^^ k) r \<notin> used q"
    using free_within [OF assms(1-4)] by auto
  then obtain j where "receiptNoLoop fuel (scan q) p r = Inr ((nextReceipt p ^^ j) r)"
      "(nextReceipt p ^^ j) r \<notin> used q"
    using loop_finds [OF assms(1), where p = p and k = k and r = r and fuel = fuel] assms(5) by auto
  then show thesis using that iterate_in_range [OF assms(2,3), of j] by blast
qed

end

text \<open>The ring provides the scan, with enough fuel for one round.\<close>

interpretation ring_scan: receipt_scan
  "\<lambda>(fuel, q, xs) r. scanReceipt fuel q r (msgsOutbound q)"
  "\<lambda>(fuel, q, xs). ringReceipts q xs"
  "\<lambda>(fuel, q, xs). ring q xs \<and> xs \<noteq> [] \<and> length xs \<le> fuel"
proof unfold_locales
  fix s :: "nat \<times> outq \<times> addr list" and r
  assume "case s of (fuel, q, xs) \<Rightarrow> ring q xs \<and> xs \<noteq> [] \<and> length xs \<le> fuel"
  then show "(case s of (fuel, q, xs) \<Rightarrow> \<lambda>r. scanReceipt fuel q r (msgsOutbound q)) r
      = Inr (r \<in> (case s of (fuel, q, xs) \<Rightarrow> ringReceipts q xs))"
    using scanReceipt_suffix [of _ "[]"] by (auto simp: ring_def)
  show "finite (case s of (fuel, q, xs) \<Rightarrow> ringReceipts q xs)"
    by (simp add: ringReceipts_def split: prod.split)
qed

subsection \<open>What the two generators return\<close>

lemma generateMsgId_eq:
  "generateMsgId now lastMsgId =
     (if lastMsgId = -1 then Inl Diverges
      else Inr (max now (lastMsgId + 1), max now (lastMsgId + 1)))"
proof (cases "lastMsgId = -1")
  case True
  have "msgIdLoop lastMsgId now = None"
    using msgIdLoop_greater [of lastMsgId now] True word_order.extremum
    by (cases "msgIdLoop lastMsgId now") (auto simp: not_less [symmetric])
  with True show ?thesis by (simp add: generateMsgId_def)
next
  case False
  then show ?thesis by (simp add: generateMsgId_def msgIdLoop_eq)
qed

lemma generateReceiptNo_finds:
  assumes "ring q xs" "range_ok p" "in_range p lastReceipt"
    "card (ringReceipts q xs) < rangeSize p" "length xs < fuel"
  shows "\<exists>r. generateReceiptNo fuel p q lastReceipt = Inr r \<and> in_range p r \<and> r \<notin> ringReceipts q xs"
proof (cases "xs = []")
  case True
  then show ?thesis
    using assms(1) nextReceipt_in_range [OF assms(2,3)]
    by (simp add: generateReceiptNo_def ring_def ringReceipts_def)
next
  case False
  have "card (ringReceipts q xs) < fuel"
    using assms(5) card_image_le [of "set xs"] card_length [of xs]
    by (metis (no_types, lifting) List.finite_set le_less_trans ringReceipts_def)
  then obtain r where "receiptNoLoop fuel (\<lambda>r. scanReceipt fuel q r (msgsOutbound q)) p (nextReceipt p lastReceipt)
      = Inr r" "in_range p r" "r \<notin> ringReceipts q xs"
    using ring_scan.search_correct [of "(fuel, q, xs)" p "nextReceipt p lastReceipt" fuel]
      assms False nextReceipt_in_range [OF assms(2,3)] by auto
  then show ?thesis using assms(1) False by (simp add: generateReceiptNo_def ring_def)
qed

subsection \<open>Properties\<close>

text \<open>C21. \<open>generateMsgId\<close> returns the clock or, when that is not above the last id, the last id plus
  one; so ids strictly increase and never run behind the clock.  It runs for ever exactly when the
  last id is the largest 64-bit number.\<close>

theorem generateMsgId_correct:
  "generateMsgId now lastMsgId =
     (if lastMsgId = -1 then Inl Diverges
      else Inr (max now (lastMsgId + 1), max now (lastMsgId + 1)))"
  by (rule generateMsgId_eq)

text \<open>C20. \<open>generateReceiptNo\<close> ends and returns a number of the configured range that no message of the
  ring has, provided the range is larger than the number of receipts in use and the last number
  lies in the range; one round of fuel for each receipt in use is enough.  The range is not empty and ends
  below \<open>UINT32_MAX\<close> (\<open>range_ok\<close>): at \<open>receiptRangeHi = UINT32_MAX\<close> the code wraps to 0.\<close>

theorem generateReceiptNo_fresh:
  assumes "ring q xs" "range_ok p" "in_range p lastReceipt"
    "card (ringReceipts q xs) < rangeSize p" "length xs < fuel"
  shows "\<exists>r. generateReceiptNo fuel p q lastReceipt = Inr r \<and> in_range p r \<and> r \<notin> ringReceipts q xs"
  using assms by (rule generateReceiptNo_finds)

theorem generateReceiptNo_fresh_witness:
  "\<exists>r. generateReceiptNo 3 (params_default\<lparr>receiptRangeLo := 6, receiptRangeHi := 8\<rparr>) ringOfTwo 6 = Inr r \<and>
     in_range (params_default\<lparr>receiptRangeLo := 6, receiptRangeHi := 8\<rparr>) r \<and> r \<notin> {7, 8}"
  using generateReceiptNo_fresh [OF ring_ringOfTwo,
      of "params_default\<lparr>receiptRangeLo := 6, receiptRangeHi := 8\<rparr>" 6 3]
  by (simp add: range_ok_def in_range_def rangeSize_def ringReceipts_def ringOfTwo_def)

end
