(* ===== verification/Receipts.thy ===== *)
theory Receipts
  imports Message
begin

section \<open>The table of receipts awaited\<close>

text \<open>
  \<open>receipts\<close> is an array of \<open>receiptsAlloc\<close> records; the ones in use lie in the window from
  \<open>receiptsLo\<close> to \<open>receiptsHi\<close>, in ascending order of their receipt numbers, and a record whose
  number is 0 is empty.  The list \<open>rt_receipts\<close> is the allocated array (fresh memory is zeroed), so
  an index at or beyond \<open>receiptsAlloc\<close> is the fault \<open>OutOfBounds\<close>.  This theory models
  \<open>receiptsInitialize\<close>, \<open>addReceipt\<close>, \<open>findReceipt\<close>, \<open>compressReceipts\<close> and the part of
  \<open>tryProcessReceipt\<close> that clears a record and shrinks the window.  Indices are natural numbers:
  the table never comes near \<open>INT_MAX\<close> records.

  The lemmas show when the table works (a window without gaps, receipts that arrive in order)
  and exactly where it does not: records behind a gap can be missed, a receipt inserted below the
  last one pushes records out of the window, and a look-up can read one record past the array.
\<close>

record rtable =
  rt_receipts :: "receipt_record list"
  receiptsLo :: nat
  receiptsHi :: nat
  receiptsNum :: nat
  receiptsAlloc :: nat

definition rr0 :: receipt_record where
  "rr0 = \<lparr>r_receipt = 0, r_msg = None, r_partNo = 0, r_timestamp = 0\<rparr>"

lemma rr0_receipt [simp]: "r_receipt rr0 = 0"
  by (simp add: rr0_def)

definition receiptsInitialize :: rtable where
  "receiptsInitialize = \<lparr>rt_receipts = replicate 32 rr0, receiptsLo = 0, receiptsHi = 0,
     receiptsNum = 0, receiptsAlloc = 32\<rparr>"

subsection \<open>findReceipt\<close>

text \<open>The inner loop: \<open>while (imu+1 < i2 && !receipts[imu].receipt) imu++\<close>.\<close>

function skipEmpty :: "receipt_record list \<Rightarrow> nat \<Rightarrow> nat \<Rightarrow> nat result" where
  "skipEmpty rs imu i2 =
     (if imu + 1 < i2
      then bindR (readAt rs imu) (\<lambda>r. if r_receipt r = 0 then skipEmpty rs (imu + 1) i2 else Inr imu)
      else Inr imu)"
  by pat_completeness auto
termination
  by (relation "measure (\<lambda>(rs, imu, i2). i2 - imu)") auto

declare skipEmpty.simps [simp del]

lemma skipEmpty_bounds: "skipEmpty rs imu i2 = Inr j \<Longrightarrow> imu \<le> j \<and> (imu < i2 \<longrightarrow> j < i2)"
proof (induction rs imu i2 rule: skipEmpty.induct)
  case (1 rs imu i2)
  show ?case
  proof (cases "imu + 1 < i2 \<and> imu < length rs \<and> r_receipt (rs ! imu) = 0")
    case True
    then have "skipEmpty rs (imu + 1) i2 = Inr j"
      using "1.prems" by (subst (asm) skipEmpty.simps) simp
    with True "1.IH" show ?thesis by (force simp: readAt_eq_Inr)
  next
    case False
    with "1.prems" show ?thesis
      by (subst (asm) skipEmpty.simps) (auto simp: res_eqs split: if_splits)
  qed
qed

function findLoop :: "receipt_record list \<Rightarrow> u32 \<Rightarrow> nat \<Rightarrow> nat \<Rightarrow> nat result" where
  "findLoop rs receipt i1 i2 =
     (if i1 + 1 < i2 then
        bindR (skipEmpty rs ((i1 + i2) div 2) i2) (\<lambda>imu.
          if imu + 1 < i2 then
            bindR (readAt rs imu) (\<lambda>r.
              if r_receipt r < receipt then findLoop rs receipt imu i2
              else if receipt < r_receipt r then findLoop rs receipt i1 ((i1 + i2) div 2)
              else Inr imu)
          else findLoop rs receipt i1 ((i1 + i2) div 2))
      else bindR (readAt rs i1) (\<lambda>r. Inr (if r_receipt r < receipt then i2 else i1)))"
  by pat_completeness auto
termination
proof (relation "measure (\<lambda>(rs, receipt, i1, i2). i2 - i1)")
  fix rs and receipt :: u32 and i1 i2 imu r
  assume "i1 + 1 < i2" "skipEmpty rs ((i1 + i2) div 2) i2 = Inr imu" "imu + 1 < i2"
  then show "((rs, receipt, imu, i2), rs, receipt, i1, i2) \<in> measure (\<lambda>(rs, receipt, i1, i2). i2 - i1)"
    using skipEmpty_bounds [of rs "(i1 + i2) div 2" i2 imu] by auto
qed auto

declare findLoop.simps [simp del]

definition findReceipt :: "rtable \<Rightarrow> u32 \<Rightarrow> int result" where
  "findReceipt t receipt =
     (if receiptsLo t = receiptsHi t then Inr (-1)
      else bindR (findLoop (rt_receipts t) receipt (receiptsLo t) (receiptsHi t)) (\<lambda>i. Inr (int i)))"

subsection \<open>addReceipt\<close>

text \<open>\<open>REALLOC\<close> to twice the size, with the new half zeroed by \<open>memRealloc\<close>.\<close>

definition growTable :: "rtable \<Rightarrow> rtable" where
  "growTable t = t\<lparr>rt_receipts := rt_receipts t @ replicate (receiptsAlloc t) rr0,
     receiptsAlloc := 2 * receiptsAlloc t\<rparr>"

lemma growTable_simps [simp]:
  "receiptsHi (growTable t) = receiptsHi t" "receiptsLo (growTable t) = receiptsLo t"
  "receiptsNum (growTable t) = receiptsNum t" "receiptsAlloc (growTable t) = 2 * receiptsAlloc t"
  "rt_receipts (growTable t) = rt_receipts t @ replicate (receiptsAlloc t) rr0"
  by (simp_all add: growTable_def)

text \<open>\<open>while (receiptsHi + 16 > receiptsAlloc)\<close> grow; with no allocation it would never end.\<close>

function growLoop :: "rtable \<Rightarrow> rtable result" where
  "growLoop t =
     (if receiptsHi t + 16 > receiptsAlloc t
      then if receiptsAlloc t = 0 then Inl Diverges else growLoop (growTable t)
      else Inr t)"
  by pat_completeness auto
termination
  by (relation "measure (\<lambda>t. receiptsHi t + 16 - receiptsAlloc t)") auto

declare growLoop.simps [simp del]

text \<open>The macro \<open>MVA(arr, idx1, idx2, idxDelta)\<close> for a positive \<open>idxDelta\<close>.\<close>

definition moveUp :: "receipt_record list \<Rightarrow> nat \<Rightarrow> nat \<Rightarrow> nat \<Rightarrow> receipt_record list result" where
  "moveUp arr idx1 idx2 idxDelta =
     (if idx2 < idx1 \<or> length arr < idx2 + idxDelta then Inl OutOfBounds
      else Inr (take idx1 arr @ replicate idxDelta rr0 @ take (idx2 - idx1) (drop idx1 arr)
                @ drop (idx2 + idxDelta) arr))"

definition addReceipt :: "rtable \<Rightarrow> receipt_record \<Rightarrow> rtable result" where
  "addReceipt t new =
     bindR (if receiptsHi t = 0 then Inr True
            else bindR (readAt (rt_receipts t) (receiptsHi t - 1)) (\<lambda>r. Inr (r_receipt r < r_receipt new)))
       (\<lambda>above.
     bindR
       (if above then
          let t1 = (if receiptsHi t = receiptsAlloc t then growTable t else t)
          in bindR (writeAt (rt_receipts t1) (receiptsHi t1) new) (\<lambda>rs.
             Inr (t1\<lparr>rt_receipts := rs, receiptsHi := receiptsHi t1 + 1\<rparr>))
        else
          bindR (findReceipt t (r_receipt new)) (\<lambda>i.
          let recIdx = nat (i + 1)
          in bindR (readAt (rt_receipts t) recIdx) (\<lambda>r.
             if r_receipt r \<noteq> 0 then
               bindR (growLoop t) (\<lambda>t1.
               bindR (moveUp (rt_receipts t1) recIdx (receiptsHi t1) 16) (\<lambda>rs.
               bindR (writeAt rs recIdx new) (\<lambda>rs.
               Inr (t1\<lparr>rt_receipts := rs\<rparr>))))
             else
               bindR (writeAt (rt_receipts t) recIdx new) (\<lambda>rs. Inr (t\<lparr>rt_receipts := rs\<rparr>)))))
       (\<lambda>t. Inr (t\<lparr>receiptsNum := receiptsNum t + 1\<rparr>)))"

subsection \<open>compressReceipts, clearing a record\<close>

definition compressReceipts :: "rtable \<Rightarrow> rtable result" where
  "compressReceipts t =
     (if length (rt_receipts t) < receiptsHi t then Inl OutOfBounds
      else
        let kept = filter (\<lambda>r. r_receipt r \<noteq> 0)
                     (take (receiptsHi t - receiptsLo t) (drop (receiptsLo t) (rt_receipts t)))
        in if receiptsNum t * 2 < length kept then Inl OutOfBounds
           else Inr (t\<lparr>rt_receipts := kept @ replicate (receiptsNum t * 2 - length kept) rr0,
                       receiptsLo := 0, receiptsHi := receiptsNum t,
                       receiptsAlloc := receiptsNum t * 2\<rparr>))"

text \<open>The loops of \<open>tryProcessReceipt\<close> that move \<open>receiptsLo\<close> up and \<open>receiptsHi\<close> down.\<close>

function skipUp :: "receipt_record list \<Rightarrow> nat \<Rightarrow> nat \<Rightarrow> nat result" where
  "skipUp rs lo hi =
     (if lo < hi then bindR (readAt rs lo) (\<lambda>r. if r_receipt r = 0 then skipUp rs (lo + 1) hi else Inr lo)
      else Inr lo)"
  by pat_completeness auto
termination
  by (relation "measure (\<lambda>(rs, lo, hi). hi - lo)") auto

declare skipUp.simps [simp del]

fun skipDown :: "receipt_record list \<Rightarrow> nat \<Rightarrow> nat \<Rightarrow> nat result" where
  "skipDown rs lo 0 = Inr 0"
| "skipDown rs lo (Suc hi) =
     (if lo < Suc hi
      then bindR (readAt rs hi) (\<lambda>r. if r_receipt r = 0 then skipDown rs lo hi else Inr (Suc hi))
      else Inr (Suc hi))"

definition clearReceipt :: "rtable \<Rightarrow> nat \<Rightarrow> rtable result" where
  "clearReceipt t recIdx =
     bindR (readAt (rt_receipts t) recIdx) (\<lambda>r.
     let rs = (rt_receipts t)[recIdx := r\<lparr>r_receipt := 0\<rparr>]; t = t\<lparr>rt_receipts := rs\<rparr>
     in bindR
          (if recIdx = receiptsLo t then
             bindR (skipUp rs (receiptsLo t + 1) (receiptsHi t)) (\<lambda>lo. Inr (t\<lparr>receiptsLo := lo\<rparr>))
           else if recIdx + 1 = receiptsHi t then
             bindR (skipDown rs (receiptsLo t) (receiptsHi t - 1)) (\<lambda>hi. Inr (t\<lparr>receiptsHi := hi\<rparr>))
           else Inr t)
          (\<lambda>t. Inr (if receiptsLo t = receiptsHi t then t\<lparr>receiptsLo := 0, receiptsHi := 0\<rparr> else t)))"

text \<open>The test of \<open>tryProcessReceipt\<close> whether a receipt is awaited, and where.\<close>

definition lookupReceipt :: "rtable \<Rightarrow> u32 \<Rightarrow> nat option result" where
  "lookupReceipt t receipt =
     bindR (findReceipt t receipt) (\<lambda>recIdx.
       if recIdx = -1 then Inr None
       else bindR (readAt (rt_receipts t) (nat recIdx)) (\<lambda>r.
         Inr (if r_receipt r \<noteq> receipt then None else Some (nat recIdx))))"

subsection \<open>Where the search can end\<close>

lemma skipEmpty_total: "imu < i2 \<Longrightarrow> i2 \<le> length rs \<Longrightarrow> \<exists>j. skipEmpty rs imu i2 = Inr j \<and> imu \<le> j \<and> j < i2"
proof (induction rs imu i2 rule: skipEmpty.induct)
  case (1 rs imu i2)
  then show ?case
    by (subst skipEmpty.simps) (force simp: readAt_eq_Inr dest: "1.IH")
qed

lemma findLoop_total:
  "i1 < i2 \<Longrightarrow> i2 \<le> length rs \<Longrightarrow>
     \<exists>i. findLoop rs receipt i1 i2 = Inr i \<and> i1 \<le> i \<and> i \<le> i2 \<and>
         (i = i2 \<longleftrightarrow> i1 + 1 = i2 \<and> r_receipt (rs ! i1) < receipt)"
proof (induction "i2 - i1" arbitrary: i1 i2 rule: less_induct)
  case less
  show ?case
  proof (cases "i1 + 1 < i2")
    case False
    with less.prems show ?thesis by (subst findLoop.simps) (auto intro!: exI)
  next
    case True
    let ?im = "(i1 + i2) div 2"
    have "?im < i2" using True by simp
    from skipEmpty_total [OF this less.prems(2)] obtain imu where
      imu: "skipEmpty rs ?im i2 = Inr imu" "?im \<le> imu" "imu < i2" by blast
    have left: "\<exists>i. findLoop rs receipt i1 ?im = Inr i \<and> i1 \<le> i \<and> i < i2"
      using less.hyps [of ?im i1] True less.prems by force
    have right: "\<exists>i. findLoop rs receipt imu i2 = Inr i \<and> i1 \<le> i \<and> i < i2" if "imu + 1 < i2"
      using less.hyps [of i2 imu] True less.prems imu(2) that by force
    show ?thesis
      using True imu left right less.prems(2) by (subst findLoop.simps) auto
  qed
qed

text \<open>A table whose window lies inside the array.\<close>

definition rt_bounds :: "rtable \<Rightarrow> bool" where
  "rt_bounds t \<longleftrightarrow> receiptsLo t \<le> receiptsHi t \<and> receiptsHi t \<le> receiptsAlloc t \<and>
     length (rt_receipts t) = receiptsAlloc t"

lemma findReceipt_total:
  assumes "rt_bounds t" "receiptsLo t < receiptsHi t"
  obtains i where "findReceipt t r = Inr (int i)" "receiptsLo t \<le> i" "i \<le> receiptsHi t"
    "i = receiptsHi t \<longleftrightarrow> receiptsLo t + 1 = receiptsHi t \<and> r_receipt (rt_receipts t ! receiptsLo t) < r"
proof -
  have "receiptsHi t \<le> length (rt_receipts t)" using assms(1) by (simp add: rt_bounds_def)
  from findLoop_total [OF assms(2) this, of r] obtain i where
    "findLoop (rt_receipts t) r (receiptsLo t) (receiptsHi t) = Inr i" "receiptsLo t \<le> i" "i \<le> receiptsHi t"
    "i = receiptsHi t \<longleftrightarrow> receiptsLo t + 1 = receiptsHi t \<and> r_receipt (rt_receipts t ! receiptsLo t) < r"
    by blast
  with assms(2) show ?thesis by (intro that [of i]) (simp_all add: findReceipt_def)
qed

lemma lookupReceipt_fault_iff:
  assumes "rt_bounds t"
  shows "lookupReceipt t r = Inl e \<longleftrightarrow> e = OutOfBounds \<and> receiptsLo t + 1 = receiptsHi t \<and>
    receiptsHi t = receiptsAlloc t \<and> r_receipt (rt_receipts t ! receiptsLo t) < r"
proof (cases "receiptsLo t = receiptsHi t")
  case True
  then show ?thesis by (simp add: lookupReceipt_def findReceipt_def)
next
  case False
  then have "receiptsLo t < receiptsHi t" using assms by (simp add: rt_bounds_def)
  from findReceipt_total [OF assms this, of r] obtain i where
    "findReceipt t r = Inr (int i)" "receiptsLo t \<le> i" "i \<le> receiptsHi t"
    "i = receiptsHi t \<longleftrightarrow> receiptsLo t + 1 = receiptsHi t \<and> r_receipt (rt_receipts t ! receiptsLo t) < r" .
  then show ?thesis
    using assms by (auto simp: lookupReceipt_def rt_bounds_def readAt_def)
qed

lemma lookupReceipt_sound:
  "lookupReceipt t r = Inr (Some i) \<Longrightarrow> i < length (rt_receipts t) \<and> r_receipt (rt_receipts t ! i) = r"
  by (auto simp: lookupReceipt_def res_eqs split: if_splits)

subsection \<open>Tables without gaps\<close>

text \<open>
  The records in use fill the window without a gap, in strictly ascending order, and every other
  record is empty.  \<open>recs\<close> is the abstraction, the records in use.
\<close>

definition recs :: "rtable \<Rightarrow> receipt_record list" where
  "recs t = take (receiptsHi t - receiptsLo t) (drop (receiptsLo t) (rt_receipts t))"

definition rt_dense :: "rtable \<Rightarrow> bool" where
  "rt_dense t \<longleftrightarrow> rt_bounds t \<and> 0 < receiptsAlloc t \<and> (receiptsLo t = receiptsHi t \<longrightarrow> receiptsHi t = 0) \<and>
     (\<forall>i < receiptsAlloc t. r_receipt (rt_receipts t ! i) \<noteq> 0 \<longleftrightarrow> receiptsLo t \<le> i \<and> i < receiptsHi t) \<and>
     (\<forall>i j. receiptsLo t \<le> i \<longrightarrow> i < j \<longrightarrow> j < receiptsHi t \<longrightarrow>
        r_receipt (rt_receipts t ! i) < r_receipt (rt_receipts t ! j))"

lemma skipEmpty_here: "imu < i2 \<Longrightarrow> i2 \<le> length rs \<Longrightarrow> r_receipt (rs ! imu) \<noteq> 0 \<Longrightarrow> skipEmpty rs imu i2 = Inr imu"
  by (subst skipEmpty.simps) simp

lemma findLoop_dense:
  assumes asc: "\<And>i j. lo \<le> i \<Longrightarrow> i < j \<Longrightarrow> j < hi \<Longrightarrow> r_receipt (rs ! i) < r_receipt (rs ! j)"
    and nz: "\<And>i. lo \<le> i \<Longrightarrow> i < hi \<Longrightarrow> r_receipt (rs ! i) \<noteq> 0"
    and j: "j < hi" "hi \<le> length rs"
  shows "lo \<le> i1 \<Longrightarrow> i1 < i2 \<Longrightarrow> i2 \<le> hi \<Longrightarrow> i1 \<le> j \<Longrightarrow> j < i2 \<or> j = i2 \<and> i1 + 1 = i2 \<Longrightarrow>
    findLoop rs (r_receipt (rs ! j)) i1 i2 = Inr j"
proof (induction "i2 - i1" arbitrary: i1 i2 rule: less_induct)
  case less
  show ?case
  proof (cases "i1 + 1 < i2")
    case False
    then have "i2 = i1 + 1" using less.prems by simp
    moreover from this have "j = i1 \<or> j = i1 + 1" using less.prems by linarith
    ultimately show ?thesis
      using less.prems(1) j asc [of i1 "i1 + 1"] by (subst findLoop.simps) auto
  next
    case True
    let ?im = "(i1 + i2) div 2"
    have im: "i1 < ?im" "?im < i2" using True by auto
    have sk: "skipEmpty rs ?im i2 = Inr ?im"
      using im less.prems j(2) nz [of ?im] by (intro skipEmpty_here) auto
    have jlt: "j < i2" using less.prems(5) True by simp
    consider "?im < j" | "j < ?im" | "j = ?im" by linarith
    then show ?thesis
    proof cases
      case 1
      then have a: "r_receipt (rs ! ?im) < r_receipt (rs ! j)"
        using asc [of ?im j] im less.prems j by simp
      have "findLoop rs (r_receipt (rs ! j)) ?im i2 = Inr j"
        using less.hyps [of i2 ?im] im less.prems 1 jlt by simp
      moreover have "?im + 1 < i2" using 1 jlt by linarith
      ultimately show ?thesis using True sk a im j less.prems(3) by (subst findLoop.simps) simp
    next
      case 2
      then have a: "r_receipt (rs ! j) < r_receipt (rs ! ?im)"
        using asc [of j ?im] im less.prems by simp
      have "findLoop rs (r_receipt (rs ! j)) i1 ?im = Inr j"
        using less.hyps [of ?im i1] im less.prems 2 by simp
      moreover have "\<not> r_receipt (rs ! ?im) < r_receipt (rs ! j)" using a by (rule order_less_not_sym)
      ultimately show ?thesis using True sk a im j less.prems(3) by (subst findLoop.simps) simp
    next
      case 3
      have "?im + 1 = i2 \<Longrightarrow> findLoop rs (r_receipt (rs ! j)) i1 ?im = Inr j"
        using less.hyps [of ?im i1] im less.prems 3 by auto
      then show ?thesis using True sk im j less.prems(3) 3 by (subst findLoop.simps) auto
    qed
  qed
qed

lemma lookup_dense_hit:
  assumes "rt_dense t" "receiptsLo t \<le> j" "j < receiptsHi t"
  shows "lookupReceipt t (r_receipt (rt_receipts t ! j)) = Inr (Some j)"
proof -
  have "findLoop (rt_receipts t) (r_receipt (rt_receipts t ! j)) (receiptsLo t) (receiptsHi t) = Inr j"
    by (rule findLoop_dense [where lo = "receiptsLo t" and hi = "receiptsHi t"])
      (use assms in \<open>auto simp: rt_dense_def rt_bounds_def\<close>)
  then show ?thesis
    using assms by (simp add: lookupReceipt_def findReceipt_def rt_dense_def rt_bounds_def)
qed


lemma length_recs: "rt_dense t \<Longrightarrow> length (recs t) = receiptsHi t - receiptsLo t"
  by (auto simp: recs_def rt_dense_def rt_bounds_def)

lemma nth_recs: "rt_dense t \<Longrightarrow> k < receiptsHi t - receiptsLo t \<Longrightarrow> recs t ! k = rt_receipts t ! (receiptsLo t + k)"
  by (simp add: recs_def rt_dense_def rt_bounds_def)

lemma in_recs:
  assumes "rt_dense t"
  shows "x \<in> set (recs t) \<longleftrightarrow> (\<exists>j. receiptsLo t \<le> j \<and> j < receiptsHi t \<and> x = rt_receipts t ! j)"
proof
  assume "x \<in> set (recs t)"
  then obtain k where "k < receiptsHi t - receiptsLo t" "x = recs t ! k"
    using length_recs [OF assms] by (auto simp: in_set_conv_nth)
  then show "\<exists>j. receiptsLo t \<le> j \<and> j < receiptsHi t \<and> x = rt_receipts t ! j"
    using nth_recs [OF assms] by (intro exI [of _ "receiptsLo t + k"]) simp
next
  assume "\<exists>j. receiptsLo t \<le> j \<and> j < receiptsHi t \<and> x = rt_receipts t ! j"
  then obtain j where "receiptsLo t \<le> j" "j < receiptsHi t" "x = rt_receipts t ! j" by blast
  then show "x \<in> set (recs t)"
    using length_recs [OF assms] nth_recs [OF assms, of "j - receiptsLo t"]
    by (auto simp: in_set_conv_nth intro!: exI [of _ "j - receiptsLo t"])
qed

lemma receiptsInitialize_dense: "rt_dense receiptsInitialize" "recs receiptsInitialize = []"
  by (simp_all add: receiptsInitialize_def rt_dense_def rt_bounds_def recs_def)

subsection \<open>Additions and removals at the ends\<close>

lemma add_append:
  assumes "rt_dense t" "r_receipt new \<noteq> 0" "\<forall>x\<in>set (recs t). r_receipt x < r_receipt new"
  shows "\<exists>t'. addReceipt t new = Inr t' \<and> rt_dense t' \<and> recs t' = recs t @ [new] \<and>
    receiptsNum t' = receiptsNum t + 1"
proof -
  let ?lo = "receiptsLo t" and ?hi = "receiptsHi t"
  let ?t1 = "if ?hi = receiptsAlloc t then growTable t else t"
  let ?t' = "?t1\<lparr>rt_receipts := (rt_receipts ?t1)[?hi := new], receiptsHi := ?hi + 1,
    receiptsNum := receiptsNum t + 1\<rparr>"
  have b: "?lo \<le> ?hi" "?hi \<le> receiptsAlloc t" "length (rt_receipts t) = receiptsAlloc t"
    "0 < receiptsAlloc t" "?lo = ?hi \<Longrightarrow> ?hi = 0"
    using assms(1) by (simp_all add: rt_dense_def rt_bounds_def)
  have above: "r_receipt (rt_receipts t ! (?hi - 1)) < r_receipt new" if "?hi \<noteq> 0"
  proof -
    have "rt_receipts t ! (?hi - 1) \<in> set (recs t)"
      using that b(1,5) by (subst in_recs [OF assms(1)]) (intro exI [of _ "?hi - 1"], cases "?lo = ?hi", auto)
    then show ?thesis using assms(3) by blast
  qed
  have t1: "?hi < length (rt_receipts ?t1)" "length (rt_receipts ?t1) = receiptsAlloc ?t1"
    "receiptsLo ?t1 = ?lo" "receiptsHi ?t1 = ?hi" "receiptsNum ?t1 = receiptsNum t"
    "\<And>i. i < ?hi \<Longrightarrow> rt_receipts ?t1 ! i = rt_receipts t ! i"
    "\<And>i. ?hi \<le> i \<Longrightarrow> i < receiptsAlloc ?t1 \<Longrightarrow> r_receipt (rt_receipts ?t1 ! i) = 0"
    using b assms(1) by (auto simp: nth_append rt_dense_def)
  have add: "addReceipt t new = Inr ?t'"
    using above t1(1,4,5) b by (auto simp: addReceipt_def Let_def)
  have nz: "\<And>i. ?lo \<le> i \<Longrightarrow> i < ?hi \<Longrightarrow> r_receipt (rt_receipts t ! i) \<noteq> 0"
    and asc: "\<And>i j. ?lo \<le> i \<Longrightarrow> i < j \<Longrightarrow> j < ?hi \<Longrightarrow>
        r_receipt (rt_receipts t ! i) < r_receipt (rt_receipts t ! j)"
    using assms(1) b by (auto simp: rt_dense_def)
  have z: "r_receipt (rt_receipts t ! i) = 0" if "i < ?lo" for i
  proof -
    have "i < receiptsAlloc t" using that b(1,2) by simp
    with that assms(1) show ?thesis unfolding rt_dense_def by (metis not_less)
  qed
  have top: "\<And>i. ?lo \<le> i \<Longrightarrow> i < ?hi \<Longrightarrow> r_receipt (rt_receipts t ! i) < r_receipt new"
    using assms(3) in_recs [OF assms(1)] by blast
  have f: "receiptsLo ?t' = ?lo" "receiptsHi ?t' = ?hi + 1" "receiptsAlloc ?t' = receiptsAlloc ?t1"
    "rt_receipts ?t' = (rt_receipts ?t1)[?hi := new]"
    using t1(3) by simp_all
  let ?rs = "(rt_receipts ?t1)[?hi := new]"
  have nz': "r_receipt (?rs ! i) \<noteq> 0 \<longleftrightarrow> ?lo \<le> i \<and> i < ?hi + 1" if "i < receiptsAlloc ?t1" for i
  proof -
    consider "i < ?lo" | "?lo \<le> i" "i < ?hi" | "i = ?hi" | "?hi < i" by linarith
    then show ?thesis
      using t1(1) t1(6) [of i] t1(7) [of i] nz [of i] z [of i] b(1) assms(2) that by cases simp_all
  qed
  have asc': "r_receipt (?rs ! i) < r_receipt (?rs ! j)" if "?lo \<le> i" "i < j" "j < ?hi + 1" for i j
    using that t1(1) t1(6) [of i] t1(6) [of j] asc [of i j] top [of i] by (cases "j = ?hi") simp_all
  have dense: "rt_dense ?t'"
    unfolding rt_dense_def rt_bounds_def f
  proof (intro conjI allI impI)
    show "length ?rs = receiptsAlloc ?t1" using t1(2) by (simp only: length_list_update)
    show "?hi + 1 \<le> receiptsAlloc ?t1" "0 < receiptsAlloc ?t1" using t1(1,2) by linarith+
  qed (use b(1) nz' asc' in simp_all)
  have "recs ?t' = recs t @ [new]"
  proof (rule nth_equalityI)
    show len: "length (recs ?t') = length (recs t @ [new])"
      using b(1) length_recs [OF dense] length_recs [OF assms(1)] f(1,2) by simp
    fix k
    assume "k < length (recs ?t')"
    then have k: "k \<le> ?hi - ?lo" using len length_recs [OF assms(1)] by simp
    then have "recs ?t' ! k = (rt_receipts ?t1)[?hi := new] ! (?lo + k)"
      using nth_recs [OF dense, of k] b(1) f by simp
    then show "recs ?t' ! k = (recs t @ [new]) ! k"
      using k nth_recs [OF assms(1), of k] length_recs [OF assms(1)] t1(1,6) b(1)
      by (auto simp: nth_append nth_list_update simp del: growTable_simps)
  qed
  with add dense show ?thesis by auto
qed

text \<open>The three ways in which a removal at an end leaves the window.\<close>

lemma growLoop_lo: "growLoop t = Inr t' \<Longrightarrow> receiptsLo t' = receiptsLo t"
  by (induction t rule: growLoop.induct) (subst (asm) (2) growLoop.simps, auto split: if_splits)

lemma addReceipt_lo: "addReceipt t new = Inr t' \<Longrightarrow> receiptsLo t' = receiptsLo t"
  by (auto simp: addReceipt_def Let_def bindR_eq_Inr dest: growLoop_lo split: if_splits)

lemma shrink_window:
  assumes "rt_dense t" "receiptsLo t \<le> i" "i < receiptsHi t" "i = receiptsLo t \<or> i + 1 = receiptsHi t"
    and t': "rt_receipts t' = (rt_receipts t)[i := (rt_receipts t ! i)\<lparr>r_receipt := 0\<rparr>]"
      "receiptsAlloc t' = receiptsAlloc t"
    and win: "receiptsLo t' = (if receiptsLo t + 1 = receiptsHi t then 0 else if i = receiptsLo t then i + 1 else receiptsLo t)"
      "receiptsHi t' = (if receiptsLo t + 1 = receiptsHi t then 0 else if i = receiptsLo t then receiptsHi t else i)"
  shows "rt_dense t'"
  using assms unfolding rt_dense_def rt_bounds_def
  by (auto simp: nth_list_update)

lemma clear_first:
  assumes "rt_dense t" "receiptsLo t < receiptsHi t"
  shows "\<exists>t'. clearReceipt t (receiptsLo t) = Inr t' \<and> rt_dense t' \<and> recs t' = tl (recs t)"
proof -
  let ?lo = "receiptsLo t" and ?hi = "receiptsHi t"
  let ?rs = "(rt_receipts t)[?lo := (rt_receipts t ! ?lo)\<lparr>r_receipt := 0\<rparr>]"
  let ?t' = "if ?lo + 1 = ?hi then t\<lparr>rt_receipts := ?rs, receiptsLo := 0, receiptsHi := 0\<rparr>
    else t\<lparr>rt_receipts := ?rs, receiptsLo := ?lo + 1\<rparr>"
  have b: "?hi \<le> length (rt_receipts t)" using assms(1) by (simp add: rt_dense_def rt_bounds_def)
  have nz: "?lo + 1 < ?hi \<Longrightarrow> r_receipt (rt_receipts t ! (?lo + 1)) \<noteq> 0"
    using assms(1) by (auto simp: rt_dense_def rt_bounds_def)
  have up: "skipUp ?rs (?lo + 1) ?hi = Inr (?lo + 1)"
    using nz b by (subst skipUp.simps) auto
  then have "clearReceipt t ?lo = Inr ?t'"
    using assms(2) b by (auto simp: clearReceipt_def Let_def)
  moreover have d: "rt_dense ?t'"
    by (rule shrink_window [OF assms(1) _ assms(2)]) (use assms(2) in auto)
  moreover have "tl (recs t) = take (?hi - Suc ?lo) (drop (Suc ?lo) (rt_receipts t))"
    by (simp add: recs_def tl_take tl_drop drop_Suc)
  then have "recs ?t' = tl (recs t)"
    using assms(2) by (auto simp: recs_def)
  ultimately show ?thesis by blast
qed

lemma clear_last:
  assumes "rt_dense t" "receiptsLo t + 1 < receiptsHi t"
  shows "\<exists>t'. clearReceipt t (receiptsHi t - 1) = Inr t' \<and> rt_dense t' \<and> recs t' = butlast (recs t)"
proof -
  let ?lo = "receiptsLo t" and ?hi = "receiptsHi t"
  let ?rs = "(rt_receipts t)[?hi - 1 := (rt_receipts t ! (?hi - 1))\<lparr>r_receipt := 0\<rparr>]"
  let ?t' = "t\<lparr>rt_receipts := ?rs, receiptsHi := ?hi - 1\<rparr>"
  have b: "?hi \<le> length (rt_receipts t)" using assms(1) by (simp add: rt_dense_def rt_bounds_def)
  obtain h where h: "?hi = Suc (Suc h)" "?lo < Suc h"
    using assms(2) by (cases ?hi rule: nat.exhaust; cases "?hi - 1") auto
  have nz: "r_receipt (rt_receipts t ! h) \<noteq> 0"
    using assms(1) h by (auto simp: rt_dense_def rt_bounds_def)
  have "skipDown ?rs ?lo (?hi - 1) = Inr (?hi - 1)"
    using nz b h by simp
  then have "clearReceipt t (?hi - 1) = Inr ?t'"
    using assms(2) b by (auto simp: clearReceipt_def Let_def)
  moreover have d: "rt_dense ?t'"
    by (rule shrink_window [OF assms(1), of "?hi - 1"]) (use assms(2) in auto)
  moreover have "recs ?t' = butlast (recs t)"
    using assms(2) b by (auto simp: recs_def butlast_take drop_update_cancel list_eq_iff_nth_eq)
  ultimately show ?thesis by blast
qed

subsection \<open>The contract of the table\<close>

text \<open>
  What the sender needs of the table: what is added above all others can be found, and what is
  found and lies at an end can be removed.  \<open>runStore\<close> performs a sequence of additions and of
  receipts that arrive, the way \<open>msgSendPart\<close> and \<open>tryProcessReceipt\<close> use the table, and
  \<open>runQueue\<close> is the same on the list of awaited records, defined as long as additions are
  ascending and receipts arrive for the oldest or the newest record or are \<open>stray\<close>: nobody waits for
  them, and they are not greater than the only record there is.
\<close>

datatype store_op = Await receipt_record | Arrive u32

fun runStore :: "('t \<Rightarrow> receipt_record \<Rightarrow> 't result) \<Rightarrow> ('t \<Rightarrow> u32 \<Rightarrow> nat option result) \<Rightarrow>
    ('t \<Rightarrow> nat \<Rightarrow> 't result) \<Rightarrow> 't \<Rightarrow> store_op list \<Rightarrow> 't result" where
  "runStore add look clear t [] = Inr t"
| "runStore add look clear t (Await new # ops) =
     bindR (add t new) (\<lambda>t. runStore add look clear t ops)"
| "runStore add look clear t (Arrive r # ops) =
     bindR (look t r) (\<lambda>i. case i of
         None \<Rightarrow> runStore add look clear t ops
       | Some i \<Rightarrow> bindR (clear t i) (\<lambda>t. runStore add look clear t ops))"

lemma runStore_append:
  "runStore add look clear t (xs @ ys) =
     bindR (runStore add look clear t xs) (\<lambda>t. runStore add look clear t ys)"
  by (induction add look clear t xs rule: runStore.induct)
    (auto simp: bindR_assoc fun_eq_iff intro!: bindR_cong split: option.split)

definition stray :: "u32 \<Rightarrow> receipt_record list \<Rightarrow> bool" where
  "stray r q \<longleftrightarrow> list_all (\<lambda>x. r_receipt x \<noteq> r) q \<and> (case q of [x] \<Rightarrow> r < r_receipt x | _ \<Rightarrow> True)"

lemma strayD: "stray r q \<Longrightarrow> r \<notin> r_receipt ` set q \<and> (\<forall>x. q = [x] \<longrightarrow> r < r_receipt x)"
  by (auto simp: stray_def list_all_iff)

fun runQueue :: "receipt_record list \<Rightarrow> store_op list \<Rightarrow> receipt_record list option" where
  "runQueue q [] = Some q"
| "runQueue q (Await new # ops) =
     (if r_receipt new \<noteq> 0 \<and> list_all (\<lambda>x. r_receipt x < r_receipt new) q
      then runQueue (q @ [new]) ops else None)"
| "runQueue q (Arrive r # ops) =
     (if q \<noteq> [] \<and> r_receipt (hd q) = r then runQueue (tl q) ops
      else if q \<noteq> [] \<and> r_receipt (last q) = r then runQueue (butlast q) ops
      else if stray r q then runQueue q ops
      else None)"

locale receipt_store =
  fixes add :: "'t \<Rightarrow> receipt_record \<Rightarrow> 't result"
    and look :: "'t \<Rightarrow> u32 \<Rightarrow> nat option result"
    and at :: "'t \<Rightarrow> nat \<Rightarrow> receipt_record"
    and clear :: "'t \<Rightarrow> nat \<Rightarrow> 't result"
    and records :: "'t \<Rightarrow> receipt_record list"
    and invar :: "'t \<Rightarrow> bool"
  assumes look_in: "invar t \<Longrightarrow> x \<in> set (records t) \<Longrightarrow> \<exists>i. look t (r_receipt x) = Inr (Some i) \<and> at t i = x"
    and look_out: "invar t \<Longrightarrow> r \<notin> r_receipt ` set (records t) \<Longrightarrow> \<forall>x. records t = [x] \<longrightarrow> r < r_receipt x \<Longrightarrow>
      look t r = Inr None"
    and add_above: "invar t \<Longrightarrow> r_receipt new \<noteq> 0 \<Longrightarrow> \<forall>x\<in>set (records t). r_receipt x < r_receipt new \<Longrightarrow>
      \<exists>t'. add t new = Inr t' \<and> invar t' \<and> records t' = records t @ [new]"
    and take_first: "invar t \<Longrightarrow> records t \<noteq> [] \<Longrightarrow>
      \<exists>i t'. look t (r_receipt (hd (records t))) = Inr (Some i) \<and> clear t i = Inr t' \<and>
        invar t' \<and> records t' = tl (records t)"
    and take_last: "invar t \<Longrightarrow> records t \<noteq> [] \<Longrightarrow>
      \<exists>i t'. look t (r_receipt (last (records t))) = Inr (Some i) \<and> clear t i = Inr t' \<and>
        invar t' \<and> records t' = butlast (records t)"
begin

lemma runs_like_queue:
  "invar t \<Longrightarrow> runQueue (records t) ops = Some q \<Longrightarrow>
     \<exists>t'. runStore add look clear t ops = Inr t' \<and> invar t' \<and> records t' = q"
proof (induction ops arbitrary: t)
  case Nil
  then show ?case by simp
next
  case (Cons op ops)
  show ?case
  proof (cases op)
    case (Await new)
    with Cons.prems have "r_receipt new \<noteq> 0" "\<forall>x\<in>set (records t). r_receipt x < r_receipt new"
      and run: "runQueue (records t @ [new]) ops = Some q"
      by (auto simp: list_all_iff split: if_splits)
    from add_above [OF Cons.prems(1) this(1,2)] obtain t' where
      "add t new = Inr t'" "invar t'" "records t' = records t @ [new]" by blast
    with Cons.IH [of t'] run Await show ?thesis by simp
  next
    case (Arrive r)
    consider (out) "stray r (records t)" "runQueue (records t) ops = Some q"
        "\<not> (records t \<noteq> [] \<and> r_receipt (hd (records t)) = r)" "\<not> (records t \<noteq> [] \<and> r_receipt (last (records t)) = r)"
      | (first) "records t \<noteq> []" "r_receipt (hd (records t)) = r"
      | (last) "records t \<noteq> []" "r_receipt (hd (records t)) \<noteq> r" "r_receipt (last (records t)) = r"
      using Cons.prems(2) Arrive by (auto split: if_splits)
    then show ?thesis
    proof cases
      case out
      have "look t r = Inr None" using strayD [OF out(1)] by (intro look_out [OF Cons.prems(1)]) simp_all
      with Cons.IH [OF Cons.prems(1) out(2)] Arrive show ?thesis by simp
    next
      case first
      note ne = first(1) and True = first(2)
      from take_first [OF Cons.prems(1) ne] True obtain i t' where
        "look t r = Inr (Some i)" "clear t i = Inr t'" "invar t'" "records t' = tl (records t)" by blast
      with Cons.IH [of t'] Cons.prems(2) Arrive True ne show ?thesis by simp
    next
      case last
      note ne = last(1) and False = last(2) and r = last(3)
      from take_last [OF Cons.prems(1) ne] r obtain i t' where
        "look t r = Inr (Some i)" "clear t i = Inr t'" "invar t'" "records t' = butlast (records t)" by blast
      with Cons.IH [of t'] Cons.prems(2) Arrive False ne r show ?thesis by simp
    qed
  qed
qed

end

lemma recs_ne: "rt_dense t \<Longrightarrow> recs t \<noteq> [] \<longleftrightarrow> receiptsLo t < receiptsHi t"
  using length_recs [of t] by (metis length_greater_0_conv zero_less_diff)

lemma recs_ends:
  assumes "rt_dense t" "receiptsLo t < receiptsHi t"
  shows "hd (recs t) = rt_receipts t ! receiptsLo t" "last (recs t) = rt_receipts t ! (receiptsHi t - 1)"
  using assms nth_recs [OF assms(1), of 0] nth_recs [OF assms(1), of "receiptsHi t - receiptsLo t - 1"]
    length_recs [OF assms(1)] recs_ne [OF assms(1)]
  by (simp_all add: hd_conv_nth last_conv_nth)

text \<open>The answer for a number that is not awaited: none, but for the one case in which the look-up reads too far.\<close>

lemma lookup_dense_miss:
  assumes "rt_dense t" "r \<notin> r_receipt ` set (recs t)"
  shows "lookupReceipt t r = (if length (recs t) = 1 \<and> receiptsHi t = receiptsAlloc t \<and> r_receipt (hd (recs t)) < r
    then Inl OutOfBounds else Inr None)"
proof (cases "receiptsLo t < receiptsHi t")
  case False
  then have "recs t = []" "receiptsLo t = receiptsHi t"
    using recs_ne [OF assms(1)] assms(1) by (auto simp: rt_dense_def rt_bounds_def)
  then show ?thesis by (simp add: lookupReceipt_def findReceipt_def)
next
  case True
  have b: "rt_bounds t" "receiptsHi t \<le> receiptsAlloc t" "length (rt_receipts t) = receiptsAlloc t"
    using assms(1) by (simp_all add: rt_dense_def rt_bounds_def)
  obtain i where i: "findReceipt t r = Inr (int i)" "receiptsLo t \<le> i" "i \<le> receiptsHi t"
    "i = receiptsHi t \<longleftrightarrow> receiptsLo t + 1 = receiptsHi t \<and> r_receipt (rt_receipts t ! receiptsLo t) < r"
    by (rule findReceipt_total [OF b(1) True])
  have len: "length (recs t) = 1 \<longleftrightarrow> receiptsLo t + 1 = receiptsHi t" using length_recs [OF assms(1)] True by auto
  have hd: "r_receipt (hd (recs t)) = r_receipt (rt_receipts t ! receiptsLo t)" by (simp add: recs_ends(1) [OF assms(1) True])
  show ?thesis
  proof (cases "i = receiptsHi t")
    case top: True
    then have "r \<noteq> 0" using i(4) by auto
    moreover have "r_receipt (rt_receipts t ! i) = 0" if "i < receiptsAlloc t"
      using that assms(1) top unfolding rt_dense_def by blast
    ultimately show ?thesis using i(1,4) top b len hd by (auto simp: lookupReceipt_def readAt_def)
  next
    case False
    then have "rt_receipts t ! i \<in> set (recs t)" using i(2,3) by (subst in_recs [OF assms(1)]) auto
    then have "r_receipt (rt_receipts t ! i) \<noteq> r" using assms(2) by blast
    then show ?thesis using i False b len hd by (auto simp: lookupReceipt_def readAt_def)
  qed
qed

lemma lookup_dense_found:
  assumes "rt_dense t" "x \<in> set (recs t)"
  shows "\<exists>i. lookupReceipt t (r_receipt x) = Inr (Some i) \<and> rt_receipts t ! i = x"
  using assms lookup_dense_hit [OF assms(1)] by (auto simp: in_recs)

interpretation table: receipt_store addReceipt lookupReceipt "\<lambda>t i. rt_receipts t ! i" clearReceipt recs rt_dense
proof unfold_locales
  fix t and x :: receipt_record
  assume "rt_dense t" "x \<in> set (recs t)"
  then show "\<exists>i. lookupReceipt t (r_receipt x) = Inr (Some i) \<and> rt_receipts t ! i = x" by (rule lookup_dense_found)
next
  fix t and r :: u32
  assume "rt_dense t" "r \<notin> r_receipt ` set (recs t)" "\<forall>x. recs t = [x] \<longrightarrow> r < r_receipt x"
  then show "lookupReceipt t r = Inr None" by (cases "recs t") (auto simp: lookup_dense_miss length_Suc_conv)
next
  fix t and new :: receipt_record
  assume "rt_dense t" "r_receipt new \<noteq> 0" "\<forall>x\<in>set (recs t). r_receipt x < r_receipt new"
  from add_append [OF this]
  show "\<exists>t'. addReceipt t new = Inr t' \<and> rt_dense t' \<and> recs t' = recs t @ [new]" by blast
next
  fix t
  assume d: "rt_dense t" and "recs t \<noteq> []"
  then have ne: "receiptsLo t < receiptsHi t" by (simp add: recs_ne)
  show first: "\<exists>i t'. lookupReceipt t (r_receipt (hd (recs t))) = Inr (Some i) \<and> clearReceipt t i = Inr t' \<and>
      rt_dense t' \<and> recs t' = tl (recs t)"
    using lookup_dense_hit [OF d order_refl ne] clear_first [OF d ne] recs_ends(1) [OF d ne] by auto
  show "\<exists>i t'. lookupReceipt t (r_receipt (last (recs t))) = Inr (Some i) \<and> clearReceipt t i = Inr t' \<and>
      rt_dense t' \<and> recs t' = butlast (recs t)"
  proof (cases "receiptsLo t + 1 = receiptsHi t")
    case True
    then have "length (recs t) = 1" using length_recs [OF d] by simp
    then obtain x where "recs t = [x]" by (auto simp: length_Suc_conv)
    with first show ?thesis by simp
  next
    case False
    with ne have "receiptsLo t + 1 < receiptsHi t" by simp
    from clear_last [OF d this] lookup_dense_hit [OF d, of "receiptsHi t - 1"] recs_ends(2) [OF d ne] ne
    show ?thesis by auto
  qed
qed

subsection \<open>Properties\<close>

definition runTable :: "store_op list \<Rightarrow> rtable result" where
  "runTable = runStore addReceipt lookupReceipt clearReceipt receiptsInitialize"

lemma initial_array: "replicate 32 rr0 = rr0 # rr0 # rr0 # rr0 # replicate 28 rr0"
  "replicate 16 rr0 = rr0 # replicate 15 rr0"
  by (simp_all add: numeral_eq_Suc)

definition rec_of :: "u32 \<Rightarrow> receipt_record" where
  "rec_of r = rr0\<lparr>r_receipt := r\<rparr>"

lemma rec_of_receipt [simp]: "r_receipt (rec_of r) = r"
  by (simp add: rec_of_def)

text \<open>C6. The table refines the list of awaited records: from the initial table, any sequence of additions
  with ascending receipt numbers and of receipts that arrive, for the oldest or the newest record
  or for none (but for no greater number while there is a single record), of any length, runs without a fault (the array growing as needed) and ends
  with exactly the records that the list has.  And then \<open>lookupReceipt\<close> answers for every number:
  it gives the index of the record that awaits it, if there is one, wherever it is in the list, and
  otherwise -1, except that for a single record in the last slot of the array and a greater number it
  reads past the end.\<close>

theorem table_refines_queue:
  assumes "runQueue [] ops = Some q"
  shows "\<exists>t. runTable ops = Inr t \<and> rt_dense t \<and> recs t = q \<and>
    (\<forall>x\<in>set q. \<exists>i. lookupReceipt t (r_receipt x) = Inr (Some i) \<and> rt_receipts t ! i = x) \<and>
    (\<forall>r. r \<notin> r_receipt ` set q \<longrightarrow> lookupReceipt t r =
       (if length q = 1 \<and> receiptsHi t = receiptsAlloc t \<and> r_receipt (hd q) < r then Inl OutOfBounds else Inr None))"
proof -
  obtain t where t: "runTable ops = Inr t" "rt_dense t" "recs t = q"
    using table.runs_like_queue [OF receiptsInitialize_dense(1), of ops q] assms
    by (auto simp: receiptsInitialize_dense(2) runTable_def)
  then show ?thesis using table.look_in lookup_dense_miss [OF t(2)] by auto
qed

theorem table_refines_queue_witness:
  "\<exists>t. runTable [Await (rec_of 5), Await (rec_of 7), Arrive 5, Await (rec_of 9), Arrive 8, Await (rec_of 10), Arrive 10,
       Await (rec_of 12)] = Inr t \<and> recs t = [rec_of 7, rec_of 9, rec_of 12] \<and>
     (\<exists>i. lookupReceipt t 9 = Inr (Some i) \<and> rt_receipts t ! i = rec_of 9) \<and> lookupReceipt t 8 = Inr None \<and> lookupReceipt t 13 = Inr None"
  using table_refines_queue [of "[Await (rec_of 5), Await (rec_of 7), Arrive 5, Await (rec_of 9), Arrive 8,
    Await (rec_of 10), Arrive 10, Await (rec_of 12)]" "[rec_of 7, rec_of 9, rec_of 12]"] by (auto simp: stray_def)

text \<open>C24. A look-up in a table whose window lies inside the array ends and stays inside the array, but for
  one case: when the window is the last slot of the array alone and the receipt is above the
  record there, \<open>findReceipt\<close> returns the index one past the array and it is read.\<close>

theorem lookupReceipt_overread_iff:
  assumes "rt_bounds t"
  shows "lookupReceipt t r = Inl e \<longleftrightarrow> e = OutOfBounds \<and> receiptsLo t + 1 = receiptsHi t \<and>
    receiptsHi t = receiptsAlloc t \<and> r_receipt (rt_receipts t ! receiptsLo t) < r"
  using assms by (rule lookupReceipt_fault_iff)

theorem lookupReceipt_overread_iff_witness:
  "lookupReceipt \<lparr>rt_receipts = replicate 31 rr0 @ [rec_of 5], receiptsLo = 31, receiptsHi = 32,
     receiptsNum = 32, receiptsAlloc = 32\<rparr> 9 = Inl OutOfBounds"
  by (subst lookupReceipt_overread_iff) (simp_all add: rt_bounds_def nth_append)

text \<open>C30. Receipts that arrive out of order can be lost: with four records awaited, when the receipt of
  the third arrives first, the record of the fourth is in the table but is not found any more.
  The binary search drops the upper half as soon as it meets a gap that reaches its last slot.\<close>

theorem lookup_misses_behind_gap:
  assumes "0 < r_receipt a" "r_receipt a < r_receipt b" "r_receipt b < r_receipt c"
    "r_receipt c < r_receipt d"
  shows "\<exists>t. runTable [Await a, Await b, Await c, Await d, Arrive (r_receipt c)] = Inr t \<and>
    d \<in> set (recs t) \<and> lookupReceipt t (r_receipt d) = Inr None"
proof -
  let ?ops = "[Await a, Await b, Await c, Await d]"
  have lt: "r_receipt a < r_receipt c" "r_receipt a < r_receipt d" "r_receipt b < r_receipt d"
    using assms by (auto intro: order_less_trans)
  have nlt: "\<not> r_receipt d < r_receipt c" "\<not> r_receipt c < r_receipt b"
    using assms by auto
  have nz: "r_receipt b \<noteq> 0" "r_receipt c \<noteq> 0" "r_receipt d \<noteq> 0"
    using assms by auto
  note ev = addReceipt_def lookupReceipt_def findReceipt_def clearReceipt_def findLoop.simps
    skipEmpty.simps Let_def
  let ?t = "\<lparr>rt_receipts = a # b # c # d # replicate 28 rr0, receiptsLo = 0, receiptsHi = 4,
    receiptsNum = 4, receiptsAlloc = 32\<rparr>"
  let ?u = "?t\<lparr>rt_receipts := a # b # c\<lparr>r_receipt := 0\<rparr> # d # replicate 28 rr0\<rparr>"
  have t: "runTable [Await a, Await b, Await c, Await d] = Inr ?t"
    using assms lt by (simp add: runTable_def receiptsInitialize_def addReceipt_def initial_array
        numeral_2_eq_2 numeral_3_eq_3)
  have "lookupReceipt ?t (r_receipt c) = Inr (Some 2)"
    using assms lt nlt nz by (simp add: ev cong: bindR_weak_cong)
  moreover have "clearReceipt ?t 2 = Inr ?u"
    by (simp add: clearReceipt_def numeral_2_eq_2)
  moreover have "lookupReceipt ?u (r_receipt d) = Inr None"
    using assms lt nlt nz by (simp add: ev cong: bindR_weak_cong)
  moreover have "d \<in> set (recs ?u)" by (simp add: recs_def)
  moreover from calculation(1,2) have "runTable ([Await a, Await b, Await c, Await d] @ [Arrive (r_receipt c)]) = Inr ?u"
    unfolding runTable_def runStore_append t [unfolded runTable_def] by simp
  ultimately show ?thesis by auto
qed

theorem lookup_misses_behind_gap_witness:
  "\<exists>t. runTable [Await (rec_of 5), Await (rec_of 7), Await (rec_of 8), Await (rec_of 9), Arrive 8] = Inr t \<and>
    rec_of 9 \<in> set (recs t) \<and> lookupReceipt t 9 = Inr None"
  using lookup_misses_behind_gap [of "rec_of 5" "rec_of 7" "rec_of 8" "rec_of 9"] by simp

text \<open>A record whose receipt lies between those of the awaited ones is inserted into the window but
  \<open>receiptsHi\<close> is not advanced, so the record moved up to make room leaves the window: its receipt
  is not found when it arrives, and the fragment never counts as confirmed.\<close>

theorem addReceipt_between_loses_last:
  assumes "0 < r_receipt a" "r_receipt a < r_receipt n" "r_receipt n < r_receipt b"
    "r_receipt b < r_receipt c"
  shows "\<exists>t. runTable [Await a, Await b, Await c, Await n] = Inr t \<and> receiptsNum t = 4 \<and>
    recs t = [a, b, n] \<and> lookupReceipt t (r_receipt c) = Inr None"
proof -
  have lt: "r_receipt a < r_receipt b" "r_receipt a < r_receipt c" "r_receipt n < r_receipt c"
    using assms by (auto intro: order_less_trans)
  have nlt: "\<not> r_receipt b < r_receipt n" "\<not> r_receipt c < r_receipt n"
    using assms lt by auto
  have nz: "r_receipt b \<noteq> 0" "r_receipt c \<noteq> 0" "r_receipt n \<noteq> 0"
    using assms by auto
  note ev = addReceipt_def lookupReceipt_def findReceipt_def findLoop.simps
    skipEmpty.simps Let_def growLoop.simps moveUp_def
  let ?t = "\<lparr>rt_receipts = a # b # c # rr0 # replicate 28 rr0, receiptsLo = 0, receiptsHi = 3,
    receiptsNum = 3, receiptsAlloc = 32\<rparr>"
  let ?u = "?t\<lparr>rt_receipts := a # b # n # replicate 15 rr0 @ c # replicate 13 rr0, receiptsNum := 4\<rparr>"
  have t: "runTable [Await a, Await b, Await c] = Inr ?t"
    using assms lt by (simp add: runTable_def receiptsInitialize_def addReceipt_def initial_array
        numeral_2_eq_2 numeral_3_eq_3)
  have "addReceipt ?t n = Inr ?u"
    using assms lt nlt nz by (simp add: ev initial_array cong: bindR_weak_cong)
  moreover have "lookupReceipt ?u (r_receipt c) = Inr None"
    using assms lt nlt nz by (simp add: ev cong: bindR_weak_cong)
  moreover have "recs ?u = [a, b, n]" by (simp add: recs_def)
  moreover from calculation(1) have "runTable ([Await a, Await b, Await c] @ [Await n]) = Inr ?u"
    unfolding runTable_def runStore_append t [unfolded runTable_def] by simp
  ultimately show ?thesis by auto
qed

theorem addReceipt_between_loses_last_witness:
  "\<exists>t. runTable [Await (rec_of 5), Await (rec_of 7), Await (rec_of 9), Await (rec_of 6)] = Inr t \<and>
    recs t = [rec_of 5, rec_of 7, rec_of 6] \<and> lookupReceipt t 9 = Inr None"
  using addReceipt_between_loses_last [of "rec_of 5" "rec_of 6" "rec_of 7" "rec_of 9"] by auto

text \<open>
  The table looks receipts up by their number alone, and toxcore numbers the messages of each friend for
  himself.  So with messages to two friends the same number can be awaited twice: the second record is
  written behind the window and not found, and the receipt of the second friend is taken for that of
  the first, whose part is then confirmed.
\<close>

lemma same_number_confused:
  assumes "r_receipt a \<noteq> 0" "r_receipt b = r_receipt a"
  shows "\<exists>t. runTable [Await a, Await b] = Inr t \<and> receiptsNum t = 2 \<and> recs t = [a] \<and>
    lookupReceipt t (r_receipt b) = Inr (Some 0) \<and> rt_receipts t ! 0 = a"
proof -
  note ev = addReceipt_def lookupReceipt_def findReceipt_def findLoop.simps skipEmpty.simps Let_def growLoop.simps moveUp_def
  let ?t = "\<lparr>rt_receipts = a # rr0 # replicate 30 rr0, receiptsLo = 0, receiptsHi = 1, receiptsNum = 1, receiptsAlloc = 32\<rparr>"
  let ?u = "?t\<lparr>rt_receipts := a # b # replicate 30 rr0, receiptsNum := 2\<rparr>"
  have "replicate 32 rr0 = rr0 # rr0 # replicate 30 rr0" by (simp add: numeral_eq_Suc)
  then have "addReceipt receiptsInitialize a = Inr ?t" by (simp add: receiptsInitialize_def addReceipt_def)
  moreover have "addReceipt ?t b = Inr ?u" using assms by (simp add: ev cong: bindR_weak_cong)
  moreover have "lookupReceipt ?u (r_receipt b) = Inr (Some 0)" using assms by (simp add: ev cong: bindR_weak_cong)
  ultimately show ?thesis by (simp add: runTable_def recs_def)
qed

end
