(* ===== verification/Database.thy ===== *)
theory Database
  imports Message
begin

section \<open>The database\<close>

text \<open>
  \<open>database.c\<close>: the tables \<open>fragmented_meta\<close> and \<open>fragmented_data\<close>, the prepared statements and
  the functions on top of them.  A table is the list of its rows, an SQL statement is the function
  on the tables that it denotes, and an error code of SQLite, which the code turns into
  \<open>abort()\<close>, is the fault \<open>Aborted\<close>.  SQLite itself is a parameter, \<open>engine\<close>: which rowid a new row
  gets and how large a blob may be; what is assumed of it is \<open>engine_ok\<close>.  The conversions that
  the \<open>bind_\<dots>\<close> functions make (\<open>unsigned\<close> and \<open>uint64_t\<close> to the signed types, and once
  \<open>uint64_t\<close> to \<open>int\<close>) are written out.  \<open>db_held\<close> counts the locks that are held.

  The lemmas show that every operation keeps the tables consistent and touches only the rows of
  its own message, that fragments of any number of messages, in any order and with duplicates,
  deliver each message exactly once and intact (as long as no fragment starts with a zero byte),
  that a stored outbound message is loaded with exactly the parts confirmed, and where the code
  goes wrong: a lock that is not released, an abort that a friend can cause, fragments that count
  twice, a time stamp that never advances.
\<close>

record meta_row =
  mt_outbound :: int
  mt_friend_id :: int
  mt_type :: int
  mt_frags_id :: int
  timestamp_first :: int
  timestamp_last :: int
  frags_done :: int
  frags_num :: int

record data_row =
  dt_rowid :: int
  dt_outbound :: int
  dt_friend_id :: int
  dt_frags_id :: int
  dt_message :: "byte list option"
  dt_confirmed :: "byte list option"
  dt_receipt :: "int option"

text \<open>The static variable \<open>stmt\<close> of \<open>readDbName\<close>.\<close>

datatype stmt_state = NotPrepared | Prepared | Finalized

record database =
  fragmented_meta :: "meta_row list"
  fragmented_data :: "data_row list"
  db_open :: bool
  db_lockCb :: bool
  db_held :: nat
  dbInMemory :: bool
  dbName_stmt :: stmt_state

record engine =
  newRowid :: "data_row list \<Rightarrow> int"
  maxBlob :: nat

text \<open>The key of a row, with the conversions of \<open>friend_number\<close> to \<open>int\<close> and \<open>id\<close> to \<open>sqlite3_int64\<close>.\<close>

type_synonym key = "int \<times> int \<times> int"

definition key_of :: "int \<Rightarrow> u32 \<Rightarrow> u64 \<Rightarrow> key" where
  "key_of outbound friend mid = (outbound, sint friend, sint mid)"

definition meta_key :: "meta_row \<Rightarrow> key" where
  "meta_key m = (mt_outbound m, mt_friend_id m, mt_frags_id m)"

definition data_key :: "data_row \<Rightarrow> key" where
  "data_key d = (dt_outbound d, dt_friend_id d, dt_frags_id d)"

definition selMeta :: "database \<Rightarrow> key \<Rightarrow> meta_row option" where
  "selMeta db k = lookupBy meta_key (fragmented_meta db) k"

definition selData :: "database \<Rightarrow> key \<Rightarrow> data_row option" where
  "selData db k = lookupBy data_key (fragmented_data db) k"

subsection \<open>Locks\<close>

definition dbLock :: "database \<Rightarrow> database" where
  "dbLock db = (if db_lockCb db then db\<lparr>db_held := db_held db + 1\<rparr> else db)"

definition dbUnlock :: "database \<Rightarrow> database" where
  "dbUnlock db = (if db_lockCb db then db\<lparr>db_held := db_held db - 1\<rparr> else db)"

subsection \<open>Blobs\<close>

text \<open>\<open>length\<close> and \<open>off\<close> reach SQLite as \<open>int\<close>; it refuses negative ones and any access past the blob.\<close>

definition blobRange :: "byte list \<Rightarrow> u32 \<Rightarrow> u32 \<Rightarrow> bool" where
  "blobRange blob n off \<longleftrightarrow> 0 \<le> sint n \<and> 0 \<le> sint off \<and> sint off + sint n \<le> int (length blob)"

definition readBlob :: "byte list \<Rightarrow> u32 \<Rightarrow> u32 \<Rightarrow> byte list result" where
  "readBlob blob n off =
     (if blobRange blob n off then Inr (take (unat n) (drop (unat off) blob)) else Inl Aborted)"

definition writeBlob :: "byte list \<Rightarrow> byte list \<Rightarrow> u32 \<Rightarrow> u32 \<Rightarrow> byte list result" where
  "writeBlob blob bytes n off =
     (if blobRange blob n off
      then Inr (take (unat off) blob @ take (unat n) bytes @ drop (unat off + unat n) blob)
      else Inl Aborted)"

text \<open>\<open>openBlob\<close> fails for a rowid that is in no row and for a column that is NULL.\<close>

definition openBlob :: "database \<Rightarrow> (data_row \<Rightarrow> byte list option) \<Rightarrow> int \<Rightarrow> byte list result" where
  "openBlob db field rowid =
     (case lookupBy dt_rowid (fragmented_data db) rowid of
        None \<Rightarrow> Inl Aborted
      | Some d \<Rightarrow> (case field d of None \<Rightarrow> Inl Aborted | Some b \<Rightarrow> Inr b))"

definition updData :: "int \<Rightarrow> (data_row \<Rightarrow> data_row) \<Rightarrow> database \<Rightarrow> database" where
  "updData rowid f db =
     db\<lparr>fragmented_data := map (\<lambda>d. if dt_rowid d = rowid then f d else d) (fragmented_data db)\<rparr>"

subsection \<open>Statements used by several functions\<close>

text \<open>\<open>getFragmentsDataRowid\<close>: 0 when there is no row.\<close>

definition getFragmentsDataRowid :: "database \<Rightarrow> int \<Rightarrow> u32 \<Rightarrow> u64 \<Rightarrow> int" where
  "getFragmentsDataRowid db outbound friend mid =
     (case selData db (key_of outbound friend mid) of None \<Rightarrow> 0 | Some d \<Rightarrow> dt_rowid d)"

text \<open>\<open>bind_Int_Int64_Int_Int64\<close> takes the time stamp as an \<open>int\<close>.\<close>

definition bindTm :: "u64 \<Rightarrow> int" where
  "bindTm tm = sint (ucast tm :: u32)"

definition updateFragmentedMetaDone :: "int \<Rightarrow> u64 \<Rightarrow> u32 \<Rightarrow> u64 \<Rightarrow> database \<Rightarrow> database result" where
  "updateFragmentedMetaDone outbound tm friend mid db =
     (let k = key_of outbound friend mid;
          upd = (\<lambda>m. m\<lparr>timestamp_last := max (timestamp_last m) (bindTm tm), frags_done := frags_done m + 1\<rparr>)
      in if length (filter (\<lambda>m. meta_key m = k) (fragmented_meta db)) \<noteq> 1 then Inl Aborted
         else Inr (db\<lparr>fragmented_meta :=
           map (\<lambda>m. if meta_key m = k then upd m else m) (fragmented_meta db)\<rparr>))"

definition deleteDataRecord :: "int \<Rightarrow> u32 \<Rightarrow> u64 \<Rightarrow> database \<Rightarrow> database" where
  "deleteDataRecord outbound friend mid db =
     db\<lparr>fragmented_data := filter (\<lambda>d. data_key d \<noteq> key_of outbound friend mid) (fragmented_data db)\<rparr>"

subsection \<open>Opening and closing\<close>

text \<open>
  \<open>createSchema\<close> keeps tables that exist, so an on-disk database is given by its tables.
  \<open>readDbName\<close> finalizes its statement but keeps the pointer, and \<open>prepare\<close> does nothing for a
  pointer that is not NULL.
\<close>

definition readDbName :: "database \<Rightarrow> database result" where
  "readDbName db =
     (let stmt = (if dbName_stmt db = NotPrepared then Prepared else dbName_stmt db)
      in if stmt = Finalized then Inl UseAfterFree
         else Inr (db\<lparr>dbName_stmt := Finalized\<rparr>))"

definition createSchema :: "database \<Rightarrow> database" where
  "createSchema db = dbUnlock (dbLock db)"

definition initDb :: "database \<Rightarrow> database result" where
  "initDb db = readDbName (createSchema db)"

definition dbInitialize :: "meta_row list \<Rightarrow> data_row list \<Rightarrow> bool \<Rightarrow> database \<Rightarrow> database result" where
  "dbInitialize metaRows dataRows lockCb db =
     initDb (db\<lparr>fragmented_meta := metaRows, fragmented_data := dataRows, db_open := True,
                db_lockCb := lockCb\<rparr>)"

definition dbInitializeInMemory :: "database \<Rightarrow> database result" where
  "dbInitializeInMemory db =
     initDb (db\<lparr>fragmented_meta := [], fragmented_data := [], db_open := True, dbInMemory := True\<rparr>)"

definition dbUninitialize :: "database \<Rightarrow> database" where
  "dbUninitialize db =
     db\<lparr>fragmented_meta := [], fragmented_data := [], db_open := False, dbInMemory := False,
        db_lockCb := False\<rparr>"

text \<open>The state before the first call.\<close>

definition db0 :: database where
  "db0 = \<lparr>fragmented_meta = [], fragmented_data = [], db_open = False, db_lockCb = False, db_held = 0,
     dbInMemory = False, dbName_stmt = NotPrepared\<rparr>"

subsection \<open>dbInsertInboundFragment\<close>

text \<open>What the callback \<open>msgReadyCb\<close> is called with.\<close>

record ready =
  rd_tm1 :: u64
  rd_tm2 :: u64
  rd_friend :: u32
  rd_type :: int
  rd_message :: "byte list"

text \<open>
  The insertion of the data row, unless there is a meta row: a row with the same key violates the
  primary key, and a \<open>zeroblob\<close> larger than the limit of SQLite is an error.
\<close>

definition insertDataInbound :: "engine \<Rightarrow> u32 \<Rightarrow> u64 \<Rightarrow> u32 \<Rightarrow> database \<Rightarrow> database result" where
  "insertDataInbound e friend mid sz db =
     (let k = key_of 0 friend mid
      in if selMeta db k \<noteq> None then Inr db
         else if maxBlob e < unat sz \<or> selData db k \<noteq> None then Inl Aborted
         else Inr (db\<lparr>fragmented_data := fragmented_data db @
           [\<lparr>dt_rowid = newRowid e (fragmented_data db), dt_outbound = 0, dt_friend_id = sint friend,
             dt_frags_id = sint mid, dt_message = Some (replicate (unat sz) 0), dt_confirmed = None,
             dt_receipt = None\<rparr>]\<rparr>))"

definition insertMetaInbound :: "u32 \<Rightarrow> int \<Rightarrow> u64 \<Rightarrow> u64 \<Rightarrow> u32 \<Rightarrow> database \<Rightarrow> database" where
  "insertMetaInbound friend type mid tm parts db =
     (if selMeta db (key_of 0 friend mid) \<noteq> None then db
      else db\<lparr>fragmented_meta := fragmented_meta db @
        [\<lparr>mt_outbound = 0, mt_friend_id = sint friend, mt_type = type, mt_frags_id = sint mid,
          timestamp_first = sint tm, timestamp_last = sint tm, frags_done = 0, frags_num = sint parts\<rparr>]\<rparr>)"

text \<open>The rest of the function, once the blob has been written: the message may be complete.\<close>

definition finishInbound :: "u32 \<Rightarrow> int \<Rightarrow> u64 \<Rightarrow> database \<Rightarrow> database \<times> ready option" where
  "finishInbound friend type mid db =
     (let k = key_of 0 friend mid
      in case (selMeta db k, selData db k) of
           (Some m, Some d) \<Rightarrow>
             if frags_done m = frags_num m then
               (dbUnlock (deleteDataRecord 0 friend mid db),
                Some \<lparr>rd_tm1 = word_of_int (timestamp_first m), rd_tm2 = word_of_int (timestamp_last m),
                      rd_friend = word_of_int (mt_friend_id m), rd_type = type,
                      rd_message = (case dt_message d of None \<Rightarrow> [] | Some b \<Rightarrow> b)\<rparr>)
             else (dbUnlock db, None)
         | _ \<Rightarrow> (dbUnlock db, None))"

text \<open>
  From the opening of the blob on.  The branch \<open>if (firstByte)\<close> returns without \<open>dbUnlock\<close>.
  \<open>data[0]\<close> is read only when \<open>firstByte\<close> is not zero; \<open>partNo\<close> is used in log messages only.
\<close>

definition storeFragment :: "u32 \<Rightarrow> int \<Rightarrow> u64 \<Rightarrow> u32 \<Rightarrow> byte list \<Rightarrow> u64 \<Rightarrow> int \<Rightarrow> database \<Rightarrow>
    (database \<times> ready option) result" where
  "storeFragment friend type mid off bytes tm rowid db =
     bindR (openBlob db dt_message rowid) (\<lambda>blob.
     bindR (readBlob blob 1 off) (\<lambda>first.
     if hd first \<noteq> 0 then
       bindR (readAt bytes 0) (\<lambda>_. Inr (db, None))
     else
       bindR (writeBlob blob bytes (of_nat (length bytes)) off) (\<lambda>blob.
       bindR (updateFragmentedMetaDone 0 tm friend mid
                (updData rowid (\<lambda>d. d\<lparr>dt_message := Some blob\<rparr>) db)) (\<lambda>db.
       Inr (finishInbound friend type mid db)))))"

definition dbInsertInboundFragment :: "engine \<Rightarrow> u32 \<Rightarrow> int \<Rightarrow> u64 \<Rightarrow> u32 \<Rightarrow> u32 \<Rightarrow> u32 \<Rightarrow> u32 \<Rightarrow>
    byte list \<Rightarrow> u64 \<Rightarrow> database \<Rightarrow> (database \<times> ready option) result" where
  "dbInsertInboundFragment e friend type mid partNo parts off sz bytes tm db =
     bindR (insertDataInbound e friend mid sz (dbLock db)) (\<lambda>db.
     let db = insertMetaInbound friend type mid tm parts db;
         rowid = getFragmentsDataRowid db 0 friend mid
     in if rowid = 0 then Inr (dbUnlock db, None)
        else storeFragment friend type mid off bytes tm rowid db)"

subsection \<open>Outbound messages\<close>

definition dbInsertOutboundMessage :: "engine \<Rightarrow> u32 \<Rightarrow> int \<Rightarrow> u64 \<Rightarrow> u64 \<Rightarrow> u32 \<Rightarrow> byte list \<Rightarrow> u32 \<Rightarrow>
    database \<Rightarrow> database result" where
  "dbInsertOutboundMessage e friend type mid tm parts bytes receipt db =
     (let db = dbLock db; k = key_of 1 friend mid
      in if selMeta db k \<noteq> None then Inl Aborted
         else
           let db = db\<lparr>fragmented_meta := fragmented_meta db @
             [\<lparr>mt_outbound = 1, mt_friend_id = sint friend, mt_type = type, mt_frags_id = sint mid,
               timestamp_first = sint tm, timestamp_last = sint tm, frags_done = 0, frags_num = sint parts\<rparr>]\<rparr>
           in if selData db k \<noteq> None \<or> maxBlob e < length bytes \<or> maxBlob e < nat (sint parts) then Inl Aborted
              else Inr (dbUnlock (db\<lparr>fragmented_data := fragmented_data db @
                [\<lparr>dt_rowid = newRowid e (fragmented_data db), dt_outbound = 1, dt_friend_id = sint friend,
                  dt_frags_id = sint mid, dt_message = Some bytes,
                  dt_confirmed = Some (replicate (nat (sint parts)) 0), dt_receipt = Some (sint receipt)\<rparr>]\<rparr>)))"

definition dbOutboundPartConfirmed :: "u32 \<Rightarrow> u64 \<Rightarrow> u32 \<Rightarrow> u64 \<Rightarrow> database \<Rightarrow> database result" where
  "dbOutboundPartConfirmed friend mid partNo tm db =
     (let db = dbLock db; rowid = getFragmentsDataRowid db 1 friend mid
      in if rowid = 0 then Inl Aborted
         else
           bindR (openBlob db dt_confirmed rowid) (\<lambda>blob.
           bindR (writeBlob blob [1] 1 (partNo - 1)) (\<lambda>blob.
           bindR (updateFragmentedMetaDone 1 tm friend mid
                    (updData rowid (\<lambda>d. d\<lparr>dt_confirmed := Some blob\<rparr>) db)) (\<lambda>db.
           Inr (dbUnlock db)))))"

definition dbClearOutboundPending :: "u32 \<Rightarrow> u64 \<Rightarrow> database \<Rightarrow> database" where
  "dbClearOutboundPending friend mid db = dbUnlock (deleteDataRecord 1 friend mid (dbLock db))"

text \<open>The arguments of \<open>msgPendingSentCb\<close>, one record for each row of the join.\<close>

record pending =
  pd_friend :: u32
  pd_type :: int
  pd_id :: u64
  pd_tm1 :: u64
  pd_tm2 :: u64
  pd_numConfirmed :: u32
  pd_numParts :: u32
  pd_message :: "byte list"
  pd_confirmed :: "byte list"
  pd_receipt :: int

definition pendingRow :: "meta_row \<Rightarrow> data_row \<Rightarrow> pending" where
  "pendingRow m d =
     \<lparr>pd_friend = word_of_int (mt_friend_id m), pd_type = mt_type m, pd_id = word_of_int (mt_frags_id m),
      pd_tm1 = word_of_int (timestamp_first m), pd_tm2 = word_of_int (timestamp_last m),
      pd_numConfirmed = word_of_int (frags_done m), pd_numParts = word_of_int (frags_num m),
      pd_message = (case dt_message d of None \<Rightarrow> [] | Some b \<Rightarrow> b),
      pd_confirmed = (case dt_confirmed d of None \<Rightarrow> [] | Some b \<Rightarrow> b),
      pd_receipt = (case dt_receipt d of None \<Rightarrow> 0 | Some r \<Rightarrow> r)\<rparr>"

definition selectPending :: "database \<Rightarrow> pending list" where
  "selectPending db =
     concat (map (\<lambda>m. map (pendingRow m) (filter (\<lambda>d. data_key d = meta_key m) (fragmented_data db)))
       (filter (\<lambda>m. mt_outbound m = 1) (fragmented_meta db)))"


subsection \<open>Consistent tables\<close>

text \<open>
  What is assumed of SQLite: the rowid of a new row is not zero and not in use, and blobs are
  smaller than 2 GiB.
\<close>

definition engine_ok :: "engine \<Rightarrow> bool" where
  "engine_ok e \<longleftrightarrow> maxBlob e < 2 ^ 31 \<and>
     (\<forall>rows. newRowid e rows \<noteq> 0 \<and> newRowid e rows \<notin> dt_rowid ` set rows)"

definition row_ok :: "database \<Rightarrow> data_row \<Rightarrow> bool" where
  "row_ok db d \<longleftrightarrow> dt_rowid d \<noteq> 0 \<and> dt_message d \<noteq> None \<and>
     (dt_outbound d = 1 \<longrightarrow> dt_confirmed d \<noteq> None) \<and> selMeta db (data_key d) \<noteq> None"

definition db_inv :: "database \<Rightarrow> bool" where
  "db_inv db \<longleftrightarrow> distinct (map meta_key (fragmented_meta db)) \<and>
     distinct (map data_key (fragmented_data db)) \<and> distinct (map dt_rowid (fragmented_data db)) \<and>
     (\<forall>d\<in>set (fragmented_data db). row_ok db d)"

lemma db_inv_data:
  assumes "db_inv db" "selData db k = Some d"
  shows "row_ok db d" "data_key d = k" "lookupBy dt_rowid (fragmented_data db) (dt_rowid d) = Some d"
proof -
  have "d \<in> set (fragmented_data db)" "data_key d = k"
    using assms(2) by (auto dest: lookupBy_SomeD simp: selData_def)
  then show "row_ok db d" "data_key d = k" "lookupBy dt_rowid (fragmented_data db) (dt_rowid d) = Some d"
    using assms(1) by (simp_all add: db_inv_def lookupBy_unique)
qed

lemma data_needs_meta: "db_inv db \<Longrightarrow> selMeta db k = None \<Longrightarrow> selData db k = None"
  using db_inv_data [of db k] by (cases "selData db k") (auto simp: row_ok_def)

lemma lock_simps [simp]:
  "fragmented_meta (dbLock db) = fragmented_meta db" "fragmented_data (dbLock db) = fragmented_data db"
  "fragmented_meta (dbUnlock db) = fragmented_meta db" "fragmented_data (dbUnlock db) = fragmented_data db"
  "db_lockCb (dbLock db) = db_lockCb db" "db_lockCb (dbUnlock db) = db_lockCb db"
  "selMeta (dbLock db) = selMeta db" "selData (dbLock db) = selData db"
  "selMeta (dbUnlock db) = selMeta db" "selData (dbUnlock db) = selData db"
  by (simp_all add: dbLock_def dbUnlock_def selMeta_def selData_def fun_eq_iff)

lemma db_inv_cong:
  "fragmented_meta db = fragmented_meta db' \<Longrightarrow> fragmented_data db = fragmented_data db' \<Longrightarrow> db_inv db = db_inv db'"
  by (simp add: db_inv_def row_ok_def selMeta_def)

lemma db_inv_lock [simp]: "db_inv (dbLock db) = db_inv db" "db_inv (dbUnlock db) = db_inv db"
  by (simp_all add: db_inv_def row_ok_def)

lemma delete_simps [simp]:
  "db_lockCb (deleteDataRecord outbound friend mid db) = db_lockCb db"
  "db_held (deleteDataRecord outbound friend mid db) = db_held db"
  by (simp_all add: deleteDataRecord_def)

lemma held_unlock: "db_held (dbUnlock db) = db_held db - (if db_lockCb db then 1 else 0)"
  by (simp add: dbUnlock_def)

lemma held_lock: "db_held (dbLock db) = db_held db + (if db_lockCb db then 1 else 0)"
  by (simp add: dbLock_def)

lemma unlock_lock [simp]: "dbUnlock (dbLock db) = db"
  by (simp add: dbLock_def dbUnlock_def)

text \<open>The four ways in which the tables change.\<close>

lemma addMeta_effect:
  assumes "db_inv db" "selMeta db (meta_key m) = None"
  shows "db_inv (db\<lparr>fragmented_meta := fragmented_meta db @ [m]\<rparr>)"
    "selMeta (db\<lparr>fragmented_meta := fragmented_meta db @ [m]\<rparr>) = (selMeta db)(meta_key m \<mapsto> m)"
    "selData (db\<lparr>fragmented_meta := fragmented_meta db @ [m]\<rparr>) = selData db"
proof -
  show sel: "selMeta (db\<lparr>fragmented_meta := fragmented_meta db @ [m]\<rparr>) = (selMeta db)(meta_key m \<mapsto> m)"
    using assms(2) lookupBy_append [of meta_key "fragmented_meta db" m]
    by (simp add: selMeta_def fun_eq_iff)
  show "db_inv (db\<lparr>fragmented_meta := fragmented_meta db @ [m]\<rparr>)"
    using assms by (auto simp: db_inv_def row_ok_def sel) (auto simp: selMeta_def lookupBy_None)
  show "selData (db\<lparr>fragmented_meta := fragmented_meta db @ [m]\<rparr>) = selData db"
    by (simp add: selData_def fun_eq_iff)
qed

lemma addData_effect:
  assumes "db_inv db" "selData db (data_key d) = None" "row_ok db d" "dt_rowid d \<notin> dt_rowid ` set (fragmented_data db)"
  shows "db_inv (db\<lparr>fragmented_data := fragmented_data db @ [d]\<rparr>)"
    "selMeta (db\<lparr>fragmented_data := fragmented_data db @ [d]\<rparr>) = selMeta db"
    "selData (db\<lparr>fragmented_data := fragmented_data db @ [d]\<rparr>) = (selData db)(data_key d \<mapsto> d)"
proof -
  show sel: "selMeta (db\<lparr>fragmented_data := fragmented_data db @ [d]\<rparr>) = selMeta db"
    by (simp add: selMeta_def fun_eq_iff)
  show "db_inv (db\<lparr>fragmented_data := fragmented_data db @ [d]\<rparr>)"
    using assms by (auto simp: db_inv_def row_ok_def sel) (auto simp: selData_def lookupBy_None)
  show "selData (db\<lparr>fragmented_data := fragmented_data db @ [d]\<rparr>) = (selData db)(data_key d \<mapsto> d)"
    using assms(2) lookupBy_append [of data_key "fragmented_data db" d]
    by (simp add: selData_def fun_eq_iff)
qed

lemma deleteData_effect:
  assumes "db_inv db"
  shows "db_inv (deleteDataRecord outbound friend mid db)"
    "selMeta (deleteDataRecord outbound friend mid db) = selMeta db"
    "selData (deleteDataRecord outbound friend mid db) = (selData db)(key_of outbound friend mid := None)"
  using assms
  by (auto simp: deleteDataRecord_def db_inv_def row_ok_def selMeta_def selData_def fun_eq_iff
      lookupBy_filter distinct_map_filter)

lemma updData_effect:
  assumes "db_inv db" "selData db k = Some d"
    and f: "\<And>x. data_key (f x) = data_key x" "\<And>x. dt_rowid (f x) = dt_rowid x" "row_ok db (f d)"
  shows "db_inv (updData (dt_rowid d) f db)" "selMeta (updData (dt_rowid d) f db) = selMeta db"
    "selData (updData (dt_rowid d) f db) = (selData db)(k \<mapsto> f d)"
proof -
  let ?rows = "fragmented_data db"
  have up: "updData (dt_rowid d) f db = db\<lparr>fragmented_data := map (\<lambda>x. if data_key x = k then f x else x) ?rows\<rparr>"
    using assms(1,2) update_by_other_key [of data_key ?rows dt_rowid k d]
    by (simp add: updData_def db_inv_def selData_def)
  show sel: "selMeta (updData (dt_rowid d) f db) = selMeta db"
    by (simp add: updData_def selMeta_def fun_eq_iff)
  show "selData (updData (dt_rowid d) f db) = (selData db)(k \<mapsto> f d)"
    using assms(2) f(1) by (simp add: up selData_def lookupBy_map fun_eq_iff)
  have keys: "map data_key (map (\<lambda>x. if data_key x = k then f x else x) ?rows) = map data_key ?rows"
    "map dt_rowid (map (\<lambda>x. if data_key x = k then f x else x) ?rows) = map dt_rowid ?rows"
    by (auto simp: f(1,2))
  have "row_ok db (if data_key x = k then f x else x)" if "x \<in> set ?rows" for x
  proof (cases "data_key x = k")
    case True
    then have "x = d"
      using that assms(1,2) lookupBy_unique [of data_key ?rows x] by (simp add: db_inv_def selData_def)
    then show ?thesis using True f(3) by simp
  qed (use assms(1) that in \<open>simp add: db_inv_def\<close>)
  moreover have "row_ok (updData (dt_rowid d) f db) x = row_ok db x" for x
    by (simp add: row_ok_def sel)
  moreover have "fragmented_data (updData (dt_rowid d) f db) = map (\<lambda>x. if data_key x = k then f x else x) ?rows"
    "fragmented_meta (updData (dt_rowid d) f db) = fragmented_meta db"
    by (simp_all add: up)
  ultimately show "db_inv (updData (dt_rowid d) f db)"
    using assms(1) unfolding db_inv_def by (simp only: keys) (simp only: set_map ball_simps simp_thms, blast)
qed

lemma metaDone_effect:
  assumes "db_inv db" "selMeta db (key_of outbound friend mid) = Some m"
  obtains db' where "updateFragmentedMetaDone outbound tm friend mid db = Inr db'" "db_inv db'"
    "selMeta db' = (selMeta db)(key_of outbound friend mid \<mapsto>
       m\<lparr>timestamp_last := max (timestamp_last m) (bindTm tm), frags_done := frags_done m + 1\<rparr>)"
    "selData db' = selData db" "db_lockCb db' = db_lockCb db" "db_held db' = db_held db"
proof -
  let ?k = "key_of outbound friend mid" and ?rows = "fragmented_meta db"
  let ?upd = "\<lambda>m. m\<lparr>timestamp_last := max (timestamp_last m) (bindTm tm), frags_done := frags_done m + 1\<rparr>"
  let ?db = "db\<lparr>fragmented_meta := map (\<lambda>m. if meta_key m = ?k then ?upd m else m) ?rows\<rparr>"
  have mk: "meta_key (?upd r) = meta_key r" for r by (simp add: meta_key_def)
  have "updateFragmentedMetaDone outbound tm friend mid db = Inr ?db"
    using assms count_unique [of meta_key ?rows ?k]
    by (simp add: updateFragmentedMetaDone_def db_inv_def selMeta_def Let_def)
  moreover have sel: "selMeta ?db = (selMeta db)(?k \<mapsto> ?upd m)"
    using assms(2) lookupBy_map [of meta_key ?upd ?k ?rows, OF mk]
    by (simp add: selMeta_def fun_eq_iff)
  moreover have "map meta_key (fragmented_meta ?db) = map meta_key ?rows"
    by (auto simp: mk)
  from assms(1) have "db_inv ?db"
    unfolding db_inv_def row_ok_def sel \<open>map meta_key (fragmented_meta ?db) = map meta_key ?rows\<close> by simp
  ultimately show ?thesis by (intro that [of ?db]) (simp_all add: selData_def fun_eq_iff)
qed

subsection \<open>One fragment\<close>

lemma blobRange_iff:
  "blobRange b n off \<longleftrightarrow> unat n < 2 ^ 31 \<and> unat off < 2 ^ 31 \<and> unat off + unat n \<le> length b"
  using of_nat_le_iff [of "unat off + unat n" "length b", where 'a = int]
  unfolding blobRange_def sint_nonneg by (auto simp: sint_u32)

text \<open>The bytes of a blob after a write.\<close>

definition patch :: "byte list \<Rightarrow> byte list \<Rightarrow> nat \<Rightarrow> byte list" where
  "patch blob bytes off = take off blob @ bytes @ drop (off + length bytes) blob"

lemma length_patch: "off + length bytes \<le> length blob \<Longrightarrow> length (patch blob bytes off) = length blob"
  by (simp add: patch_def)

lemma nth_patch:
  "off + length bytes \<le> length blob \<Longrightarrow> i < length blob \<Longrightarrow>
     patch blob bytes off ! i = (if off \<le> i \<and> i < off + length bytes then bytes ! (i - off) else blob ! i)"
  by (auto simp: patch_def nth_append)

lemma writeBlob_patch:
  "length bytes < 2 ^ 31 \<Longrightarrow> unat off < 2 ^ 31 \<Longrightarrow> unat off + length bytes \<le> length blob \<Longrightarrow>
     writeBlob blob bytes (of_nat (length bytes)) off = Inr (patch blob bytes (unat off))"
  by (simp add: writeBlob_def blobRange_iff unat_of_nat_u32 patch_def)

lemma readBlob_first:
  "unat off < 2 ^ 31 \<Longrightarrow> unat off < length blob \<Longrightarrow> \<exists>xs. readBlob blob 1 off = Inr xs \<and> hd xs = blob ! unat off"
  by (simp add: readBlob_def blobRange_iff hd_drop_conv_nth)

text \<open>The meta row after one more fragment, and what is handed over when it is the last one.\<close>

definition metaDone :: "u64 \<Rightarrow> meta_row \<Rightarrow> meta_row" where
  "metaDone tm m = m\<lparr>timestamp_last := max (timestamp_last m) (bindTm tm), frags_done := frags_done m + 1\<rparr>"

definition readyOf :: "meta_row \<Rightarrow> int \<Rightarrow> byte list \<Rightarrow> ready" where
  "readyOf m type blob = \<lparr>rd_tm1 = word_of_int (timestamp_first m), rd_tm2 = word_of_int (timestamp_last m),
     rd_friend = word_of_int (mt_friend_id m), rd_type = type, rd_message = blob\<rparr>"

lemma finishInbound_effect:
  assumes "db_inv db" "selMeta db (key_of 0 friend mid) = Some m" "selData db (key_of 0 friend mid) = Some d"
    "dt_message d = Some blob" "finishInbound friend type mid db = (db', out)"
  shows "db_inv db' \<and> selMeta db' = selMeta db \<and>
    selData db' = (if frags_done m = frags_num m then (selData db)(key_of 0 friend mid := None) else selData db) \<and>
    out = (if frags_done m = frags_num m then Some (readyOf m type blob) else None) \<and>
    db_lockCb db' = db_lockCb db \<and> db_held db' = db_held db - (if db_lockCb db then 1 else 0)"
proof (cases "frags_done m = frags_num m")
  case True
  then have "db' = dbUnlock (deleteDataRecord 0 friend mid db)" "out = Some (readyOf m type blob)"
    using assms by (auto simp: finishInbound_def Let_def readyOf_def)
  then show ?thesis
    using True deleteData_effect [OF assms(1), of 0 friend mid] by (simp add: held_unlock)
next
  case False
  then have "db' = dbUnlock db" "out = None"
    using assms by (auto simp: finishInbound_def Let_def)
  then show ?thesis using False assms(1) by (simp add: held_unlock)
qed

lemma storeFragment_effect:
  assumes inv: "db_inv db" and m: "selMeta db (key_of 0 friend mid) = Some m"
    and d: "selData db (key_of 0 friend mid) = Some d" "dt_message d = Some blob"
    and off: "unat off < 2 ^ 31" "unat off < length blob" "blob ! unat off = 0"
    and len: "length bytes < 2 ^ 31" "unat off + length bytes \<le> length blob"
  obtains db' where "storeFragment friend type mid off bytes tm (dt_rowid d) db = Inr (db',
        if frags_done m + 1 = frags_num m then Some (readyOf (metaDone tm m) type (patch blob bytes (unat off))) else None)"
    "db_inv db'" "selMeta db' = (selMeta db)(key_of 0 friend mid \<mapsto> metaDone tm m)"
    "selData db' = (selData db)(key_of 0 friend mid :=
        if frags_done m + 1 = frags_num m then None else Some (d\<lparr>dt_message := Some (patch blob bytes (unat off))\<rparr>))"
    "db_lockCb db' = db_lockCb db" "db_held db' = db_held db - (if db_lockCb db then 1 else 0)"
proof -
  let ?k = "key_of 0 friend mid" and ?b = "patch blob bytes (unat off)"
  let ?f = "\<lambda>d. d\<lparr>dt_message := Some ?b\<rparr>" and ?done = "frags_done m + 1 = frags_num m"
  note row = db_inv_data [OF inv d(1)]
  have upd: "db_inv (updData (dt_rowid d) ?f db)" "selMeta (updData (dt_rowid d) ?f db) = selMeta db"
    "selData (updData (dt_rowid d) ?f db) = (selData db)(?k \<mapsto> ?f d)"
    by (rule updData_effect [OF inv d(1)]; use row(1) in \<open>simp add: data_key_def row_ok_def\<close>)+
  obtain db2 where db2: "updateFragmentedMetaDone 0 tm friend mid (updData (dt_rowid d) ?f db) = Inr db2"
    "db_inv db2" "selMeta db2 = (selMeta db)(?k \<mapsto> metaDone tm m)" "selData db2 = (selData db)(?k \<mapsto> ?f d)"
    "db_lockCb db2 = db_lockCb db" "db_held db2 = db_held db"
    using metaDone_effect [OF upd(1), of 0 friend mid m tm] upd m
    by (auto simp: metaDone_def updData_def)
  obtain db' out where fin: "finishInbound friend type mid db2 = (db', out)" by fastforce
  have eff: "db_inv db' \<and> selMeta db' = selMeta db2 \<and>
    selData db' = (if frags_done (metaDone tm m) = frags_num (metaDone tm m) then (selData db2)(?k := None) else selData db2) \<and>
    out = (if frags_done (metaDone tm m) = frags_num (metaDone tm m) then Some (readyOf (metaDone tm m) type ?b) else None) \<and>
    db_lockCb db' = db_lockCb db2 \<and> db_held db' = db_held db2 - (if db_lockCb db2 then 1 else 0)"
    by (rule finishInbound_effect [OF db2(2) _ _ _ fin, where d = "?f d"]) (simp_all add: db2(3,4))
  have open_b: "openBlob db dt_message (dt_rowid d) = Inr blob"
    using row(3) d(2) by (simp add: openBlob_def)
  obtain first where first: "readBlob blob 1 off = Inr first" "hd first = 0"
    using readBlob_first [OF off(1,2)] off(3) by auto
  have "storeFragment friend type mid off bytes tm (dt_rowid d) db = Inr (db', out)"
    by (simp add: storeFragment_def open_b first writeBlob_patch [OF len(1) off(1) len(2)] db2(1) fin)
  then show ?thesis
    using eff db2(3-6) by (intro that [of db']) (simp_all add: metaDone_def fun_eq_iff)
qed

subsection \<open>The three states of an inbound message\<close>

lemma unat_one_u32 [simp]: "unat (1 :: u32) = 1"
  by simp

definition freshMeta :: "u32 \<Rightarrow> int \<Rightarrow> u64 \<Rightarrow> u64 \<Rightarrow> u32 \<Rightarrow> meta_row" where
  "freshMeta friend type mid tm parts = \<lparr>mt_outbound = 0, mt_friend_id = sint friend, mt_type = type,
     mt_frags_id = sint mid, timestamp_first = sint tm, timestamp_last = sint tm, frags_done = 0,
     frags_num = sint parts\<rparr>"

lemma freshMeta_key: "meta_key (freshMeta friend type mid tm parts) = key_of 0 friend mid"
  by (simp add: freshMeta_def meta_key_def key_of_def)

lemma insert_finished:
  assumes "db_inv db" "selMeta db (key_of 0 friend mid) \<noteq> None" "selData db (key_of 0 friend mid) = None"
  shows "dbInsertInboundFragment e friend type mid partNo parts off sz bytes tm db = Inr (db, None)"
  using assms
  by (simp add: dbInsertInboundFragment_def insertDataInbound_def insertMetaInbound_def
      getFragmentsDataRowid_def Let_def)

lemma insert_active:
  assumes "db_inv db" "selMeta db (key_of 0 friend mid) = Some m" "selData db (key_of 0 friend mid) = Some d"
  shows "dbInsertInboundFragment e friend type mid partNo parts off sz bytes tm db =
    storeFragment friend type mid off bytes tm (dt_rowid d) (dbLock db)"
  using assms db_inv_data(1) [OF assms(1,3)]
  by (simp add: dbInsertInboundFragment_def insertDataInbound_def insertMetaInbound_def
      getFragmentsDataRowid_def Let_def row_ok_def)

lemma insert_too_large:
  assumes "selMeta db (key_of 0 friend mid) = None" "maxBlob e < unat sz"
  shows "dbInsertInboundFragment e friend type mid partNo parts off sz bytes tm db = Inl Aborted"
  using assms by (simp add: dbInsertInboundFragment_def insertDataInbound_def Let_def)

lemma insert_fresh:
  assumes e: "engine_ok e" and inv: "db_inv db" and fresh: "selMeta db (key_of 0 friend mid) = None"
    and sz: "unat sz \<le> maxBlob e"
  obtains d db1 where "dbInsertInboundFragment e friend type mid partNo parts off sz bytes tm db =
      storeFragment friend type mid off bytes tm (dt_rowid d) db1"
    "db_inv db1" "selMeta db1 = (selMeta db)(key_of 0 friend mid \<mapsto> freshMeta friend type mid tm parts)"
    "selData db1 = (selData db)(key_of 0 friend mid \<mapsto> d)" "dt_message d = Some (replicate (unat sz) 0)"
    "db_lockCb db1 = db_lockCb db" "db_held db1 = db_held db + (if db_lockCb db then 1 else 0)"
proof -
  let ?k = "key_of 0 friend mid" and ?L = "dbLock db"
  let ?m = "freshMeta friend type mid tm parts"
  let ?d = "\<lparr>dt_rowid = newRowid e (fragmented_data ?L), dt_outbound = 0, dt_friend_id = sint friend,
             dt_frags_id = sint mid, dt_message = Some (replicate (unat sz) 0), dt_confirmed = None,
             dt_receipt = None\<rparr>"
  let ?db0 = "?L\<lparr>fragmented_meta := fragmented_meta ?L @ [?m]\<rparr>"
  let ?db1 = "?db0\<lparr>fragmented_data := fragmented_data ?db0 @ [?d]\<rparr>"
  have nod: "selData db ?k = None" using data_needs_meta [OF inv fresh] .
  have kd: "data_key ?d = ?k" by (simp add: data_key_def key_of_def)
  have inv0: "db_inv ?db0" "selMeta ?db0 = (selMeta db)(?k \<mapsto> ?m)" "selData ?db0 = selData db"
    using addMeta_effect [of ?L ?m] inv fresh by (simp_all add: freshMeta_key)
  have id: "dt_rowid ?d \<noteq> 0" "dt_rowid ?d \<notin> dt_rowid ` set (fragmented_data ?db0)"
    using e unfolding engine_ok_def by auto
  have ok: "row_ok ?db0 ?d" unfolding row_ok_def inv0(2) kd using id(1) by simp
  have eff: "db_inv ?db1" "selMeta ?db1 = (selMeta db)(?k \<mapsto> ?m)" "selData ?db1 = (selData db)(?k \<mapsto> ?d)"
    using addData_effect [OF inv0(1) _ ok id(2)] inv0 nod kd by simp_all
  have a: "insertDataInbound e friend mid sz ?L = Inr (?L\<lparr>fragmented_data := fragmented_data ?L @ [?d]\<rparr>)"
    using fresh nod sz by (simp add: insertDataInbound_def Let_def)
  have "selMeta (?L\<lparr>fragmented_data := fragmented_data ?L @ [?d]\<rparr>) ?k = None"
    using fresh by (simp add: selMeta_def)
  then have b: "insertMetaInbound friend type mid tm parts (?L\<lparr>fragmented_data := fragmented_data ?L @ [?d]\<rparr>) = ?db1"
    by (simp add: insertMetaInbound_def freshMeta_def)
  have c: "getFragmentsDataRowid ?db1 0 friend mid = dt_rowid ?d"
    unfolding getFragmentsDataRowid_def eff(3) by simp
  show ?thesis
  proof (rule that [of ?d ?db1])
    show "dbInsertInboundFragment e friend type mid partNo parts off sz bytes tm db =
      storeFragment friend type mid off bytes tm (dt_rowid ?d) ?db1"
      unfolding dbInsertInboundFragment_def a bindR_Inr b Let_def c using id(1) by (simp only: if_False)
    show "db_inv ?db1" "selMeta ?db1 = (selMeta db)(?k \<mapsto> ?m)" "selData ?db1 = (selData db)(?k \<mapsto> ?d)"
      by (fact eff)+
    show "db_held ?db1 = db_held db + (if db_lockCb db then 1 else 0)" by (simp add: held_lock)
  qed simp_all
qed

subsection \<open>All outcomes of an arrival\<close>

text \<open>
  The blob a fragment is written to: that of the stored message or, for a message not seen before,
  \<open>sz\<close> zero bytes.
\<close>

definition blobFor :: "database \<Rightarrow> key \<Rightarrow> nat \<Rightarrow> byte list" where
  "blobFor db k sz =
     (case selData db k of None \<Rightarrow> replicate sz 0
      | Some d \<Rightarrow> (case dt_message d of None \<Rightarrow> [] | Some b \<Rightarrow> b))"

lemma storeFragment_cases:
  assumes inv: "db_inv db" and m: "selMeta db (key_of 0 friend mid) = Some m"
    and d: "selData db (key_of 0 friend mid) = Some d" "dt_message d = Some blob" and len: "length bytes < 2 ^ 31"
    and r: "r = storeFragment friend type mid off bytes tm (dt_rowid d) db"
  shows "\<not> (unat off < 2 ^ 31 \<and> unat off < length blob) \<Longrightarrow> r = Inl Aborted"
    and "unat off < 2 ^ 31 \<Longrightarrow> unat off < length blob \<Longrightarrow> blob ! unat off \<noteq> 0 \<Longrightarrow>
      r = (if bytes = [] then Inl OutOfBounds else Inr (db, None))"
    and "unat off < 2 ^ 31 \<Longrightarrow> unat off < length blob \<Longrightarrow> blob ! unat off = 0 \<Longrightarrow>
      length blob < unat off + length bytes \<Longrightarrow> r = Inl Aborted"
proof -
  have op: "openBlob db dt_message (dt_rowid d) = Inr blob"
    using db_inv_data(3) [OF inv d(1)] d(2) by (simp add: openBlob_def)
  show "\<not> (unat off < 2 ^ 31 \<and> unat off < length blob) \<Longrightarrow> r = Inl Aborted"
    by (auto simp: r storeFragment_def op readBlob_def blobRange_iff)
  assume o: "unat off < 2 ^ 31" "unat off < length blob"
  from readBlob_first [OF o] obtain first where f: "readBlob blob 1 off = Inr first" "hd first = blob ! unat off"
    by blast
  show "blob ! unat off \<noteq> 0 \<Longrightarrow> r = (if bytes = [] then Inl OutOfBounds else Inr (db, None))"
    by (simp add: r storeFragment_def op f)
  show "blob ! unat off = 0 \<Longrightarrow> length blob < unat off + length bytes \<Longrightarrow> r = Inl Aborted"
    using len by (simp add: r storeFragment_def op f writeBlob_def blobRange_iff unat_of_nat_u32)
qed

text \<open>Either the message is complete, or the arrival is a \<open>storeFragment\<close> on consistent tables.\<close>

lemma insert_cases:
  assumes e: "engine_ok e" and inv: "db_inv db"
  obtains (complete) "selMeta db (key_of 0 friend mid) \<noteq> None" "selData db (key_of 0 friend mid) = None"
      "dbInsertInboundFragment e friend type mid partNo parts off sz bytes tm db = Inr (db, None)"
  | (large) "selMeta db (key_of 0 friend mid) = None" "maxBlob e < unat sz"
      "dbInsertInboundFragment e friend type mid partNo parts off sz bytes tm db = Inl Aborted"
  | (store) m d db1 where
      "dbInsertInboundFragment e friend type mid partNo parts off sz bytes tm db =
        storeFragment friend type mid off bytes tm (dt_rowid d) db1"
      "db_inv db1" "selMeta db1 (key_of 0 friend mid) = Some m" "selData db1 (key_of 0 friend mid) = Some d"
      "dt_message d = Some (blobFor db (key_of 0 friend mid) (unat sz))"
      "db_lockCb db1 = db_lockCb db" "db_held db1 = db_held db + (if db_lockCb db then 1 else 0)"
      "\<And>k. k \<noteq> key_of 0 friend mid \<Longrightarrow> selMeta db1 k = selMeta db k \<and> selData db1 k = selData db k"
      "selMeta db (key_of 0 friend mid) = None \<Longrightarrow> unat sz \<le> maxBlob e"
      "selMeta db (key_of 0 friend mid) = None \<or> selData db (key_of 0 friend mid) \<noteq> None"
      "m = (case selMeta db (key_of 0 friend mid) of None \<Rightarrow> freshMeta friend type mid tm parts | Some m \<Rightarrow> m)"
proof -
  let ?k = "key_of 0 friend mid"
  consider (c) "selMeta db ?k \<noteq> None" "selData db ?k = None"
    | (l) "selMeta db ?k = None" "maxBlob e < unat sz"
    | (f) "selMeta db ?k = None" "unat sz \<le> maxBlob e"
    | (a) "selMeta db ?k \<noteq> None" "selData db ?k \<noteq> None" by fastforce
  then show thesis
  proof cases
    case c
    show thesis by (rule complete [OF c insert_finished [OF inv c]])
  next
    case l
    show thesis by (rule large [OF l insert_too_large [OF l]])
  next
    case f
    note nod = data_needs_meta [OF inv f(1)]
    obtain d db1 where i: "dbInsertInboundFragment e friend type mid partNo parts off sz bytes tm db =
        storeFragment friend type mid off bytes tm (dt_rowid d) db1"
      "db_inv db1" "selMeta db1 = (selMeta db)(?k \<mapsto> freshMeta friend type mid tm parts)"
      "selData db1 = (selData db)(?k \<mapsto> d)" "dt_message d = Some (replicate (unat sz) 0)"
      "db_lockCb db1 = db_lockCb db" "db_held db1 = db_held db + (if db_lockCb db then 1 else 0)"
      by (rule insert_fresh [OF e inv f(1,2)])
    show thesis
      by (rule store [OF i(1,2)]) (use f nod i(3-7) in \<open>simp_all add: blobFor_def\<close>)
  next
    case a
    then obtain m d where md: "selMeta db ?k = Some m" "selData db ?k = Some d" by auto
    moreover obtain b where "dt_message d = Some b"
      using db_inv_data(1) [OF inv md(2)] by (auto simp: row_ok_def)
    ultimately show thesis
      by (intro store [OF insert_active [OF inv md]]) (use inv in \<open>simp_all add: blobFor_def held_lock\<close>)
  qed
qed

text \<open>The stored byte that the duplicate check looks at is not zero.\<close>

definition countsAsDuplicate :: "database \<Rightarrow> key \<Rightarrow> u32 \<Rightarrow> bool" where
  "countsAsDuplicate db k off \<longleftrightarrow>
     (case selData db k of None \<Rightarrow> False | Some d \<Rightarrow> blobFor db k 0 ! unat off \<noteq> 0)"

lemma insertInbound_outcome:
  assumes e: "engine_ok e" and inv: "db_inv db" and len: "length bytes < 2 ^ 31"
    and r: "dbInsertInboundFragment e friend type mid partNo parts off sz bytes tm db = Inr (db', out)"
  shows "db_inv db'"
    and "\<And>k. k \<noteq> key_of 0 friend mid \<Longrightarrow> selMeta db' k = selMeta db k \<and> selData db' k = selData db k"
    and "db_held db' = db_held db + (if db_lockCb db \<and> countsAsDuplicate db (key_of 0 friend mid) off then 1 else 0)"
proof -
  let ?k = "key_of 0 friend mid" and ?b = "blobFor db (key_of 0 friend mid) (unat sz)"
  have "db_inv db' \<and> (\<forall>k. k \<noteq> ?k \<longrightarrow> selMeta db' k = selMeta db k \<and> selData db' k = selData db k) \<and>
    db_held db' = db_held db + (if db_lockCb db \<and> countsAsDuplicate db ?k off then 1 else 0)"
  proof (cases rule: insert_cases [OF e inv, of friend mid type partNo parts off sz bytes tm,
      case_names complete large store])
    case complete
    then show ?thesis using r inv by (simp add: countsAsDuplicate_def)
  next
    case large
    then show ?thesis using r by simp
  next
    case (store m d db1)
    note cs = storeFragment_cases [OF store(2-5) len refl, where type = type and off = off and tm = tm]
    have rr: "storeFragment friend type mid off bytes tm (dt_rowid d) db1 = Inr (db', out)"
      using r store(1) by simp
    have off: "unat off < 2 ^ 31" "unat off < length ?b" using cs(1) rr by auto
    show ?thesis
    proof (cases "?b ! unat off = 0")
      case False
      with cs(2) [OF off False] rr have "db' = db1" by (auto split: if_splits)
      moreover have "countsAsDuplicate db ?k off"
        using False off by (auto simp: countsAsDuplicate_def blobFor_def split: option.splits)
      ultimately show ?thesis using store(2,7,8) by auto
    next
      case True
      have l: "unat off + length bytes \<le> length ?b" using cs(3) [OF off True] rr by force
      have "\<not> countsAsDuplicate db ?k off"
        using True by (auto simp: countsAsDuplicate_def blobFor_def split: option.splits)
      moreover obtain db2 out2 where "storeFragment friend type mid off bytes tm (dt_rowid d) db1 = Inr (db2, out2)"
        "db_inv db2" "\<And>k. k \<noteq> ?k \<Longrightarrow> selMeta db2 k = selMeta db1 k \<and> selData db2 k = selData db1 k"
        "db_held db2 = db_held db1 - (if db_lockCb db1 then 1 else 0)"
        by (rule storeFragment_effect [OF store(2-5) off True len l, of type tm]) auto
      ultimately show ?thesis using rr store(6-8) by auto
    qed
  qed
  then show "db_inv db'"
    and "\<And>k. k \<noteq> ?k \<Longrightarrow> selMeta db' k = selMeta db k \<and> selData db' k = selData db k"
    and "db_held db' = db_held db + (if db_lockCb db \<and> countsAsDuplicate db ?k off then 1 else 0)"
    by blast+
qed

text \<open>The counters of a message: parts confirmed or received, and parts in all.\<close>

definition counters :: "database \<Rightarrow> key \<Rightarrow> (int \<times> int) option" where
  "counters db k = map_option (\<lambda>m. (frags_done m, frags_num m)) (selMeta db k)"

text \<open>The counter of an outbound message is not less than the number of its parts that are marked as confirmed.\<close>

definition counted :: "database \<Rightarrow> bool" where
  "counted db \<longleftrightarrow> (\<forall>k m. selMeta db k = Some m \<longrightarrow> 0 \<le> frags_done m \<and>
     (\<forall>d b. fst k = 1 \<longrightarrow> selData db k = Some d \<longrightarrow> dt_confirmed d = Some b \<longrightarrow>
        int (length (filter (\<lambda>x. x \<noteq> 0) b)) \<le> frags_done m))"

lemma countedD:
  assumes "counted db" "selMeta db k = Some m"
  shows "0 \<le> frags_done m"
    and "fst k = 1 \<Longrightarrow> selData db k = Some d \<Longrightarrow> dt_confirmed d = Some b \<Longrightarrow> int (length (filter (\<lambda>x. x \<noteq> 0) b)) \<le> frags_done m"
  using assms unfolding counted_def by blast+

lemma counted_step:
  assumes "counted db" "\<And>k. k \<noteq> k0 \<Longrightarrow> selMeta db' k = selMeta db k \<and> selData db' k = selData db k"
    "\<And>m. selMeta db' k0 = Some m \<Longrightarrow> 0 \<le> frags_done m"
    "\<And>m d b. selMeta db' k0 = Some m \<Longrightarrow> fst k0 = 1 \<Longrightarrow> selData db' k0 = Some d \<Longrightarrow> dt_confirmed d = Some b \<Longrightarrow>
       int (length (filter (\<lambda>x. x \<noteq> 0) b)) \<le> frags_done m"
  shows "counted db'"
  unfolding counted_def
proof (intro allI impI)
  fix k m
  assume m: "selMeta db' k = Some m"
  show "0 \<le> frags_done m \<and> (\<forall>d b. fst k = 1 \<longrightarrow> selData db' k = Some d \<longrightarrow> dt_confirmed d = Some b \<longrightarrow>
      int (length (filter (\<lambda>x. x \<noteq> 0) b)) \<le> frags_done m)"
  proof (cases "k = k0")
    case True
    then show ?thesis using assms(3,4) m by blast
  next
    case False
    then have "selMeta db k = Some m" "selData db' k = selData db k" using assms(2) m by simp_all
    then show ?thesis using countedD [OF assms(1)] by auto
  qed
qed

text \<open>What an arrival does to the counters.\<close>

definition countersAfter :: "database \<Rightarrow> key \<Rightarrow> u32 \<Rightarrow> u32 \<Rightarrow> int \<times> int" where
  "countersAfter db k off parts = (case counters db k of None \<Rightarrow> (1, sint parts)
     | Some (n, tot) \<Rightarrow> (if selData db k = None \<or> countsAsDuplicate db k off then n else n + 1, tot))"

lemma insertInbound_counters:
  assumes e: "engine_ok e" and inv: "db_inv db" and len: "length bytes < 2 ^ 31"
    and r: "dbInsertInboundFragment e friend type mid partNo parts off sz bytes tm db = Inr (db', out)"
  shows "counters db' (key_of 0 friend mid) = Some (countersAfter db (key_of 0 friend mid) off parts)"
proof -
  let ?k = "key_of 0 friend mid" and ?b = "blobFor db (key_of 0 friend mid) (unat sz)"
  show ?thesis
  proof (cases rule: insert_cases [OF e inv, of friend mid type partNo parts off sz bytes tm,
      case_names complete large store])
    case complete
    then show ?thesis using r by (auto simp: counters_def countersAfter_def)
  next
    case large
    then show ?thesis using r by simp
  next
    case (store m d db1)
    note cs = storeFragment_cases [OF store(2-5) len refl, where type = type and off = off and tm = tm]
    have rr: "storeFragment friend type mid off bytes tm (dt_rowid d) db1 = Inr (db', out)"
      using r store(1) by simp
    have off: "unat off < 2 ^ 31" "unat off < length ?b" using cs(1) rr by auto
    have fresh: "?b ! unat off = 0" if "selMeta db ?k = None"
      using that off data_needs_meta [OF inv that] by (auto simp: blobFor_def)
    have dup: "countsAsDuplicate db ?k off \<longleftrightarrow> ?b ! unat off \<noteq> 0"
      using off by (auto simp: countsAsDuplicate_def blobFor_def split: option.splits)
    show ?thesis
    proof (cases "?b ! unat off = 0")
      case False
      with cs(2) [OF off False] rr have "db' = db1" by (auto split: if_splits)
      moreover obtain m0 where "selMeta db ?k = Some m0" using fresh False by (cases "selMeta db ?k") simp_all
      ultimately show ?thesis using store(3,11) False dup by (simp add: counters_def countersAfter_def)
    next
      case True
      have l: "unat off + length bytes \<le> length ?b" using cs(3) [OF off True] rr by force
      have "selMeta db' ?k = Some (metaDone tm m)"
        by (rule storeFragment_effect [OF store(2-5) off True len l, of type tm]) (use rr in simp)
      then show ?thesis using store(10,11) True dup
        by (auto simp: counters_def countersAfter_def metaDone_def freshMeta_def split: option.splits)
    qed
  qed
qed

subsection \<open>Outbound rows\<close>

lemma patch_one: "i < length b \<Longrightarrow> patch b [x] i = b[i := x]"
  by (simp add: patch_def upd_conv_take_nth_drop)

lemma partConfirmed_effect:
  assumes inv: "db_inv db" and m: "selMeta db (key_of 1 friend mid) = Some m"
    and d: "selData db (key_of 1 friend mid) = Some d" "dt_confirmed d = Some b"
    and i: "unat (partNo - 1) < length b" "unat (partNo - 1) < 2 ^ 31"
  obtains db' where "dbOutboundPartConfirmed friend mid partNo tm db = Inr db'" "db_inv db'"
    "selMeta db' = (selMeta db)(key_of 1 friend mid \<mapsto> metaDone tm m)"
    "selData db' = (selData db)(key_of 1 friend mid \<mapsto> d\<lparr>dt_confirmed := Some (b[unat (partNo - 1) := 1])\<rparr>)"
    "db_lockCb db' = db_lockCb db" "db_held db' = db_held db"
proof -
  let ?k = "key_of 1 friend mid" and ?f = "\<lambda>d. d\<lparr>dt_confirmed := Some (b[unat (partNo - 1) := 1])\<rparr>"
  have L: "db_inv (dbLock db)" "selData (dbLock db) ?k = Some d" using inv d by simp_all
  note row = db_inv_data [OF L]
  have upd: "db_inv (updData (dt_rowid d) ?f (dbLock db))"
    "selMeta (updData (dt_rowid d) ?f (dbLock db)) = selMeta (dbLock db)"
    "selData (updData (dt_rowid d) ?f (dbLock db)) = (selData (dbLock db))(?k \<mapsto> ?f d)"
    by (rule updData_effect [OF L]; use row(1) in \<open>simp add: data_key_def row_ok_def\<close>)+
  obtain db2 where db2: "updateFragmentedMetaDone 1 tm friend mid (updData (dt_rowid d) ?f (dbLock db)) = Inr db2"
    "db_inv db2" "selMeta db2 = (selMeta db)(?k \<mapsto> metaDone tm m)" "selData db2 = (selData db)(?k \<mapsto> ?f d)"
    "db_lockCb db2 = db_lockCb (dbLock db)" "db_held db2 = db_held (dbLock db)"
    using metaDone_effect [OF upd(1), of 1 friend mid m tm] upd m
    by (auto simp: metaDone_def updData_def)
  have op: "openBlob (dbLock db) dt_confirmed (dt_rowid d) = Inr b"
    using row(3) d(2) by (simp add: openBlob_def)
  have wr: "writeBlob b [1] 1 (partNo - 1) = Inr (b[unat (partNo - 1) := 1])"
    using writeBlob_patch [of "[1]" "partNo - 1" b] i patch_one [OF i(1), of 1] by simp
  have id: "getFragmentsDataRowid (dbLock db) 1 friend mid = dt_rowid d" "dt_rowid d \<noteq> 0"
    using d(1) row(1) by (simp_all add: getFragmentsDataRowid_def row_ok_def)
  have "dbOutboundPartConfirmed friend mid partNo tm db = Inr (dbUnlock db2)"
    by (simp add: dbOutboundPartConfirmed_def Let_def id op wr db2(1))
  then show ?thesis
    using db2 by (intro that [of "dbUnlock db2"]) (simp_all add: held_unlock held_lock)
qed

lemma partConfirmed_faults:
  assumes inv: "db_inv db" and r: "dbOutboundPartConfirmed friend mid partNo tm db = Inr db'"
  obtains m d b where "selMeta db (key_of 1 friend mid) = Some m" "selData db (key_of 1 friend mid) = Some d"
    "dt_confirmed d = Some b" "unat (partNo - 1) < length b" "unat (partNo - 1) < 2 ^ 31"
proof -
  let ?k = "key_of 1 friend mid"
  have L: "db_inv (dbLock db)" using inv by simp
  obtain d where d: "selData db ?k = Some d"
    using r by (cases "selData db ?k") (auto simp: dbOutboundPartConfirmed_def getFragmentsDataRowid_def Let_def)
  then have dL: "selData (dbLock db) ?k = Some d" by simp
  note row = db_inv_data [OF L dL]
  have out: "dt_outbound d = 1" using row(2) by (simp add: data_key_def key_of_def)
  then obtain b where b: "dt_confirmed d = Some b" using row(1) by (auto simp: row_ok_def)
  have op: "openBlob (dbLock db) dt_confirmed (dt_rowid d) = Inr b"
    using row(3) b by (simp add: openBlob_def)
  have "blobRange b 1 (partNo - 1)"
    using r d op row(1)
    by (auto simp: dbOutboundPartConfirmed_def getFragmentsDataRowid_def Let_def row_ok_def writeBlob_def
        split: if_splits)
  moreover obtain m where "selMeta db ?k = Some m" using row(1,2) by (auto simp: row_ok_def)
  ultimately show ?thesis using that d b by (simp add: blobRange_iff)
qed

lemma insertOutbound_effect:
  assumes e: "engine_ok e" and inv: "db_inv db"
    and r: "dbInsertOutboundMessage e friend type mid tm parts bytes receipt db = Inr db'"
  obtains m d where "db_inv db'" "selMeta db (key_of 1 friend mid) = None"
    "selMeta db' = (selMeta db)(key_of 1 friend mid \<mapsto> m)" "selData db' = (selData db)(key_of 1 friend mid \<mapsto> d)"
    "m = \<lparr>mt_outbound = 1, mt_friend_id = sint friend, mt_type = type, mt_frags_id = sint mid,
          timestamp_first = sint tm, timestamp_last = sint tm, frags_done = 0, frags_num = sint parts\<rparr>"
    "dt_message d = Some bytes" "dt_confirmed d = Some (replicate (nat (sint parts)) 0)"
    "dt_receipt d = Some (sint receipt)" "db_lockCb db' = db_lockCb db" "db_held db' = db_held db"
proof -
  let ?k = "key_of 1 friend mid" and ?L = "dbLock db"
  let ?m = "\<lparr>mt_outbound = 1, mt_friend_id = sint friend, mt_type = type, mt_frags_id = sint mid,
          timestamp_first = sint tm, timestamp_last = sint tm, frags_done = 0, frags_num = sint parts\<rparr>"
  let ?db0 = "?L\<lparr>fragmented_meta := fragmented_meta ?L @ [?m]\<rparr>"
  let ?d = "\<lparr>dt_rowid = newRowid e (fragmented_data ?db0), dt_outbound = 1, dt_friend_id = sint friend,
                  dt_frags_id = sint mid, dt_message = Some bytes,
                  dt_confirmed = Some (replicate (nat (sint parts)) 0), dt_receipt = Some (sint receipt)\<rparr>"
  let ?db1 = "?db0\<lparr>fragmented_data := fragmented_data ?db0 @ [?d]\<rparr>"
  have none: "selMeta db ?k = None" "selData ?db0 ?k = None" and db': "db' = dbUnlock ?db1"
    using r by (auto simp: dbInsertOutboundMessage_def Let_def split: if_splits)
  have km: "meta_key ?m = ?k" and kd: "data_key ?d = ?k" by (simp_all add: meta_key_def data_key_def key_of_def)
  have L: "db_inv ?L" "selMeta ?L (meta_key ?m) = None" unfolding km using inv none(1) by simp_all
  note eff0 = addMeta_effect [OF L, unfolded km]
  have id: "dt_rowid ?d \<noteq> 0" "dt_rowid ?d \<notin> dt_rowid ` set (fragmented_data ?db0)"
    using e unfolding engine_ok_def by auto
  have ok: "row_ok ?db0 ?d" unfolding row_ok_def eff0(2) kd using id(1) by simp
  note eff1 = addData_effect [OF eff0(1) none(2) [folded kd] ok id(2), unfolded kd]
  show ?thesis
  proof (rule that [of ?m ?d])
    show "db_inv db'" using eff1(1) by (simp add: db')
    show "selMeta db' = (selMeta db)(?k \<mapsto> ?m)"
      unfolding db' lock_simps(9) eff1(2) eff0(2) by simp
    show "selData db' = (selData db)(?k \<mapsto> ?d)"
      unfolding db' lock_simps(10) eff1(3) eff0(3) by simp
    show "db_held db' = db_held db" by (simp add: db' held_unlock held_lock)
  qed (simp_all add: none(1) db')
qed

lemma insertOutbound_runs:
  assumes "engine_ok e" "db_inv db" "selMeta db (key_of 1 friend mid) = None"
    "length bytes \<le> maxBlob e" "unat parts \<le> length bytes"
  shows "\<exists>db'. dbInsertOutboundMessage e friend type mid tm parts bytes receipt db = Inr db'"
proof -
  have "unat parts < 2 ^ 31" using assms(1,4,5) by (auto simp: engine_ok_def)
  then have "nat (sint parts) = unat parts" by (simp add: sint_u32)
  with assms data_needs_meta [OF assms(2,3)] show ?thesis
    by (simp add: dbInsertOutboundMessage_def Let_def selMeta_def selData_def)
qed

lemma selectPending_set:
  assumes "db_inv db"
  shows "p \<in> set (selectPending db) \<longleftrightarrow>
    (\<exists>k m d. fst k = 1 \<and> selMeta db k = Some m \<and> selData db k = Some d \<and> p = pendingRow m d)"
proof
  assume "p \<in> set (selectPending db)"
  then obtain m d where "m \<in> set (fragmented_meta db)" "mt_outbound m = 1" "d \<in> set (fragmented_data db)"
    "data_key d = meta_key m" "p = pendingRow m d" by (auto simp: selectPending_def)
  moreover have "fst (meta_key m) = mt_outbound m" by (simp add: meta_key_def)
  ultimately show "\<exists>k m d. fst k = 1 \<and> selMeta db k = Some m \<and> selData db k = Some d \<and> p = pendingRow m d"
    using assms lookupBy_unique [of meta_key "fragmented_meta db" m] lookupBy_unique [of data_key "fragmented_data db" d]
    unfolding db_inv_def selMeta_def selData_def by metis
next
  assume "\<exists>k m d. fst k = 1 \<and> selMeta db k = Some m \<and> selData db k = Some d \<and> p = pendingRow m d"
  then obtain k m d where r: "fst k = 1" "selMeta db k = Some m" "selData db k = Some d" "p = pendingRow m d"
    by blast
  then have "m \<in> set (fragmented_meta db)" "meta_key m = k" "d \<in> set (fragmented_data db)" "data_key d = k"
    by (auto simp: selMeta_def selData_def dest: lookupBy_SomeD)
  moreover from this r(1) have "mt_outbound m = 1" by (auto simp: meta_key_def)
  ultimately show "p \<in> set (selectPending db)" using r(4) by (auto simp: selectPending_def)
qed

lemma selectPending_insert:
  assumes "db_inv db" "db_inv db2" "fst k = 1" "selData db k = None"
    and sel: "selMeta db2 = (selMeta db)(k \<mapsto> m)" "selData db2 = (selData db)(k \<mapsto> d)"
  shows "set (selectPending db2) = insert (pendingRow m d) (set (selectPending db))"
proof (intro set_eqI iffI)
  fix q
  assume "q \<in> set (selectPending db2)"
  then obtain k' m' d' where q: "fst k' = 1" "selMeta db2 k' = Some m'" "selData db2 k' = Some d'" "q = pendingRow m' d'"
    by (auto simp only: selectPending_set [OF assms(2)])
  show "q \<in> insert (pendingRow m d) (set (selectPending db))"
  proof (cases "k' = k")
    case False
    then have "selMeta db k' = Some m'" "selData db k' = Some d'" using q(2,3) sel by simp_all
    then show ?thesis using q(1,4) selectPending_set [OF assms(1), of q] by blast
  qed (use q sel in simp)
next
  fix q
  assume "q \<in> insert (pendingRow m d) (set (selectPending db))"
  then consider "q = pendingRow m d" | "q \<in> set (selectPending db)" by blast
  then show "q \<in> set (selectPending db2)"
  proof cases
    case 1
    moreover have "selMeta db2 k = Some m" "selData db2 k = Some d" using sel by simp_all
    ultimately show ?thesis using assms(3) selectPending_set [OF assms(2), of q] by blast
  next
    case 2
    then obtain k' m' d' where q: "fst k' = 1" "selMeta db k' = Some m'" "selData db k' = Some d'" "q = pendingRow m' d'"
      by (auto simp only: selectPending_set [OF assms(1)])
    then have "selMeta db2 k' = Some m'" "selData db2 k' = Some d'" using sel assms(4) by auto
    then show ?thesis using q(1,4) selectPending_set [OF assms(2), of q] by blast
  qed
qed

lemma selectPending_delete:
  assumes "db_inv db" "db_inv db2" "selData db k = None"
    and sel: "selMeta db2 = (selMeta db)(k \<mapsto> m)" "selData db2 = selData db"
  shows "set (selectPending db2) = set (selectPending db)"
proof (rule set_eqI)
  fix q
  have "selData db k' = Some d' \<Longrightarrow> selMeta db2 k' = selMeta db k'" for k' d'
    using sel(1) assms(3) by (cases "k' = k") auto
  then show "q \<in> set (selectPending db2) \<longleftrightarrow> q \<in> set (selectPending db)"
    unfolding selectPending_set [OF assms(1)] selectPending_set [OF assms(2)] sel(2) by metis
qed

fun confirmParts :: "u32 \<Rightarrow> u64 \<Rightarrow> (u32 \<times> u64) list \<Rightarrow> database \<Rightarrow> database result" where
  "confirmParts friend mid [] db = Inr db"
| "confirmParts friend mid ((partNo, tm) # cs) db =
     bindR (dbOutboundPartConfirmed friend mid partNo tm db) (confirmParts friend mid cs)"

text \<open>The blob \<open>confirmed\<close> after the parts \<open>cs\<close> of \<open>n\<close> have been confirmed.\<close>

definition confirmedBits :: "byte list \<Rightarrow> (u32 \<times> u64) list \<Rightarrow> byte list" where
  "confirmedBits b cs = map (\<lambda>i. if i + 1 \<in> unat ` fst ` set cs then 1 else b ! i) [0..<length b]"

lemma confirmedBits_Cons:
  assumes "1 \<le> unat partNo" "unat partNo \<le> length b"
  shows "confirmedBits (b[unat (partNo - 1) := 1]) cs = confirmedBits b ((partNo, tm) # cs)"
proof -
  have u: "unat (partNo - 1) + 1 = unat partNo"
    using assms(1) by (rule unat_pred)
  show ?thesis
    using u by (auto simp: confirmedBits_def nth_list_update intro!: nth_equalityI)
qed

lemma confirmParts_effect:
  "db_inv db \<Longrightarrow> selMeta db (key_of 1 friend mid) = Some m \<Longrightarrow> selData db (key_of 1 friend mid) = Some d \<Longrightarrow>
   dt_confirmed d = Some b \<Longrightarrow> length b < 2 ^ 31 \<Longrightarrow>
   \<forall>(partNo, tm)\<in>set cs. 1 \<le> unat partNo \<and> unat partNo \<le> length b \<Longrightarrow>
   \<exists>db' m' d'. confirmParts friend mid cs db = Inr db' \<and> db_inv db' \<and>
     selMeta db' = (selMeta db)(key_of 1 friend mid \<mapsto> m') \<and> selData db' = (selData db)(key_of 1 friend mid \<mapsto> d') \<and>
     m' = m\<lparr>timestamp_last := timestamp_last m', frags_done := frags_done m + int (length cs)\<rparr> \<and>
     d' = d\<lparr>dt_confirmed := Some (confirmedBits b cs)\<rparr>"
proof (induction cs arbitrary: db m d b)
  case Nil
  have "confirmedBits b [] = b" by (simp add: confirmedBits_def map_nth)
  with Nil show ?case by (intro exI [of _ db] exI [of _ m] exI [of _ d]) (simp add: fun_upd_idem)
next
  case (Cons c cs)
  obtain partNo tm where c: "c = (partNo, tm)" by (cases c)
  have p: "1 \<le> unat partNo" "unat partNo \<le> length b" using Cons.prems(6) c by auto
  then have u: "unat (partNo - 1) + 1 = unat partNo"
    by (simp only: unat_pred)
  then have i: "unat (partNo - 1) < length b" "unat (partNo - 1) < 2 ^ 31" using p(2) Cons.prems(5) by linarith+
  obtain db1 where e: "dbOutboundPartConfirmed friend mid partNo tm db = Inr db1" "db_inv db1"
    "selMeta db1 = (selMeta db)(key_of 1 friend mid \<mapsto> metaDone tm m)"
    "selData db1 = (selData db)(key_of 1 friend mid \<mapsto> d\<lparr>dt_confirmed := Some (b[unat (partNo - 1) := 1])\<rparr>)"
    by (rule partConfirmed_effect [OF Cons.prems(1-4) i, of tm])
  let ?b = "b[unat (partNo - 1) := 1]" and ?d = "d\<lparr>dt_confirmed := Some (b[unat (partNo - 1) := 1])\<rparr>"
  have IH: "selMeta db1 (key_of 1 friend mid) = Some (metaDone tm m)" "selData db1 (key_of 1 friend mid) = Some ?d"
    "dt_confirmed ?d = Some ?b" "length ?b < 2 ^ 31"
    "\<forall>(partNo, tm)\<in>set cs. 1 \<le> unat partNo \<and> unat partNo \<le> length ?b"
    using e(3,4) Cons.prems(5,6) by simp_all
  obtain db' m' d' where r: "confirmParts friend mid cs db1 = Inr db'" "db_inv db'"
    "selMeta db' = (selMeta db1)(key_of 1 friend mid \<mapsto> m')" "selData db' = (selData db1)(key_of 1 friend mid \<mapsto> d')"
    "m' = (metaDone tm m)\<lparr>timestamp_last := timestamp_last m', frags_done := frags_done (metaDone tm m) + int (length cs)\<rparr>"
    "d' = ?d\<lparr>dt_confirmed := Some (confirmedBits ?b cs)\<rparr>"
    using Cons.IH [OF e(2) IH] by blast
  have "m' = m\<lparr>timestamp_last := timestamp_last m', frags_done := frags_done m + int (length (c # cs))\<rparr>"
    by (subst r(5)) (simp add: metaDone_def)
  moreover have "d' = d\<lparr>dt_confirmed := Some (confirmedBits b (c # cs))\<rparr>"
    using r(6) confirmedBits_Cons [OF p] by (simp add: c)
  moreover have "confirmParts friend mid (c # cs) db = Inr db'" using e(1) r(1) by (simp add: c)
  ultimately show ?case
    using r(2-4) e(3,4) by (intro exI [of _ db'] exI [of _ m'] exI [of _ d'] conjI) simp_all
qed

text \<open>An engine for the witnesses: the rowid one above the largest, as SQLite does, and its default limit.\<close>

definition engine_default :: engine where
  "engine_default = \<lparr>newRowid = (\<lambda>rows. foldr (\<lambda>d n. max (dt_rowid d) n) rows 0 + 1), maxBlob = 1000000000\<rparr>"

lemma engine_default_ok: "engine_ok engine_default"
proof -
  have "dt_rowid d \<le> foldr (\<lambda>d n. max (dt_rowid d) n) rows 0" if "d \<in> set rows" for rows d
    using that by (induction rows) (auto simp: max_def)
  then have "foldr (\<lambda>d n. max (dt_rowid d) n) rows 0 + 1 \<notin> dt_rowid ` set rows" for rows
    by fastforce
  moreover have "0 \<le> foldr (\<lambda>d n. max (dt_rowid d) n) rows 0" for rows
    by (induction rows) auto
  then have "foldr (\<lambda>d n. max (dt_rowid d) n) rows 0 + 1 \<noteq> 0" for rows
    by (smt (verit))
  moreover have "newRowid engine_default rows = foldr (\<lambda>d n. max (dt_rowid d) n) rows 0 + 1" for rows
    by (simp add: engine_default_def)
  moreover have "maxBlob engine_default < 2 ^ 31" by (simp add: engine_default_def)
  ultimately show ?thesis unfolding engine_ok_def by (intro conjI allI) simp_all
qed

lemma db0_inv: "db_inv db0" "selMeta db0 k = None"
  by (simp_all add: db_inv_def db0_def selMeta_def lookupBy_def)

text \<open>A database with one inbound message of four bytes of which the first has arrived, behind a lock.\<close>

definition dbOne :: database where
  "dbOne = db0\<lparr>fragmented_meta := [(freshMeta 7 0 1500000000000 5 2)\<lparr>frags_done := 1\<rparr>],
     fragmented_data := [\<lparr>dt_rowid = 1, dt_outbound = 0, dt_friend_id = 7, dt_frags_id = 1500000000000,
       dt_message = Some [97, 0, 0, 0], dt_confirmed = None, dt_receipt = None\<rparr>], db_lockCb := True\<rparr>"

lemma sint_small: "unat (w :: u32) < 2 ^ 31 \<Longrightarrow> sint w = uint w" "unat (v :: u64) < 2 ^ 63 \<Longrightarrow> sint v = uint v"
  by (simp_all add: sint_u32 sint_u64)

lemma dbOne_facts: "db_inv dbOne" "selMeta dbOne (key_of 0 7 1500000000000) \<noteq> None"
  "selData dbOne (key_of 0 7 1500000000000) = Some (hd (fragmented_data dbOne))"
  by (simp_all add: dbOne_def db_inv_def row_ok_def selMeta_def selData_def lookupBy_def meta_key_def
      data_key_def key_of_def freshMeta_def sint_small db0_def)

subsection \<open>Properties\<close>

lemma filter_update_le: "length (filter P (xs[i := y])) \<le> length (filter P xs) + 1"
proof (induction xs arbitrary: i)
  case (Cons x xs)
  show ?case
  proof (cases i)
    case (Suc j)
    then show ?thesis using Cons.IH [of j] by simp
  qed simp
qed simp

lemma inbound_counted:
  assumes "engine_ok e" "db_inv db" "length bytes < 2 ^ 31"
    "dbInsertInboundFragment e friend type mid partNo parts off sz bytes tm db = Inr (db', out)" "counted db"
  shows "db_inv db' \<and> counted db' \<and> counters db' (key_of 0 friend mid) = Some (countersAfter db (key_of 0 friend mid) off parts) \<and>
    (\<forall>k. k \<noteq> key_of 0 friend mid \<longrightarrow> selMeta db' k = selMeta db k \<and> selData db' k = selData db k)"
proof -
  let ?k = "key_of 0 friend mid"
  note eff = insertInbound_outcome [OF assms(1-4)] and cnt = insertInbound_counters [OF assms(1-4)]
  have "0 \<le> fst (countersAfter db ?k off parts)"
    using countedD(1) [OF assms(5)] by (auto simp: countersAfter_def counters_def split: option.splits)
  then have "0 \<le> frags_done m" if "selMeta db' ?k = Some m" for m
    using that cnt unfolding counters_def by (metis fst_conv option.inject option.simps(9))
  then have "counted db'"
    by (intro counted_step [OF assms(5) eff(2)]) (auto simp: key_of_def)
  then show ?thesis using eff(1,2) cnt by blast
qed

lemma insertOutbound_counted:
  assumes "engine_ok e" "db_inv db"
    "dbInsertOutboundMessage e friend type mid tm parts bytes receipt db = Inr db'" "counted db"
  shows "db_inv db' \<and> counted db' \<and> counters db (key_of 1 friend mid) = None \<and>
    counters db' (key_of 1 friend mid) = Some (0, sint parts) \<and>
    (\<forall>k. k \<noteq> key_of 1 friend mid \<longrightarrow> selMeta db' k = selMeta db k \<and> selData db' k = selData db k)"
proof -
  let ?k = "key_of 1 friend mid"
  obtain m d where i: "db_inv db'" "selMeta db ?k = None" "selMeta db' = (selMeta db)(?k \<mapsto> m)" "selData db' = (selData db)(?k \<mapsto> d)"
    "m = \<lparr>mt_outbound = 1, mt_friend_id = sint friend, mt_type = type, mt_frags_id = sint mid,
          timestamp_first = sint tm, timestamp_last = sint tm, frags_done = 0, frags_num = sint parts\<rparr>"
    "dt_message d = Some bytes" "dt_confirmed d = Some (replicate (nat (sint parts)) 0)"
    by (rule insertOutbound_effect [OF assms(1-3)])
  have "counted db'" by (rule counted_step [OF assms(4), of ?k]) (use i in auto)
  then show ?thesis using i by (auto simp: counters_def)
qed

lemma confirm_counted:
  assumes "db_inv db" "dbOutboundPartConfirmed friend mid partNo tm db = Inr db'" "counted db"
  shows "db_inv db' \<and> counted db' \<and> (\<exists>n tot. counters db (key_of 1 friend mid) = Some (n, tot) \<and>
      counters db' (key_of 1 friend mid) = Some (n + 1, tot)) \<and>
    (\<forall>k. k \<noteq> key_of 1 friend mid \<longrightarrow> selMeta db' k = selMeta db k \<and> selData db' k = selData db k)"
proof -
  let ?k = "key_of 1 friend mid" and ?i = "unat (partNo - 1)"
  obtain m d b where r: "selMeta db ?k = Some m" "selData db ?k = Some d" "dt_confirmed d = Some b" "?i < length b" "?i < 2 ^ 31"
    by (rule partConfirmed_faults [OF assms(1,2)])
  obtain db2 where c: "dbOutboundPartConfirmed friend mid partNo tm db = Inr db2" "db_inv db2"
    "selMeta db2 = (selMeta db)(?k \<mapsto> metaDone tm m)" "selData db2 = (selData db)(?k \<mapsto> d\<lparr>dt_confirmed := Some (b[?i := 1])\<rparr>)"
    by (rule partConfirmed_effect [OF assms(1) r, of tm])
  have db2: "db' = db2" using c(1) assms(2) by simp
  note old = countedD(1) [OF assms(3) r(1)] countedD(2) [OF assms(3) r(1) _ r(2,3)]
  have "int (length (filter (\<lambda>x. x \<noteq> 0) (b[?i := 1]))) \<le> frags_done m + 1"
    using filter_update_le [of "\<lambda>x. x \<noteq> 0" b ?i 1] old(2) by (simp add: key_of_def)
  then have "counted db'"
    unfolding db2 by (intro counted_step [OF assms(3), of ?k]) (use c(3,4) old(1) in \<open>auto simp: metaDone_def\<close>)
  then show ?thesis using c(2-4) r(1) by (simp add: db2 counters_def metaDone_def)
qed

lemma clear_counted:
  assumes "db_inv db" "counted db"
  shows "dbClearOutboundPending friend mid db = db' \<Longrightarrow>
    db_inv db' \<and> counted db' \<and> counters db' (key_of 1 friend mid) = counters db (key_of 1 friend mid) \<and>
    (\<forall>k. k \<noteq> key_of 1 friend mid \<longrightarrow> selMeta db' k = selMeta db k \<and> selData db' k = selData db k)"
proof -
  let ?k = "key_of 1 friend mid"
  assume db': "dbClearOutboundPending friend mid db = db'"
  have eff: "db_inv db'" "selMeta db' = selMeta db" "selData db' = (selData db)(?k := None)"
    using deleteData_effect [of "dbLock db" 1 friend mid] assms(1) db' by (auto simp: dbClearOutboundPending_def)
  have "counted db'" by (rule counted_step [OF assms(2), of ?k]) (use eff(2,3) countedD(1) [OF assms(2)] in auto)
  then show ?thesis using eff by (simp add: counters_def)
qed

text \<open>C13. The tables stay consistent: whatever its arguments, each operation on the database that returns
  leaves keys and rowids unique and every data row with a meta row and a message, and changes no
  row of another message.  The counters are kept with them (\<open>counters\<close>: the parts confirmed or
  received, and the parts in all): an arriving fragment of an unknown message sets them to 1 and
  the number of parts announced; a further one adds one, unless the message is complete or the fragment
  is taken for a duplicate, when nothing is added; a new outbound message begins with 0; each confirmation
  adds one; clearing a message leaves its counters.  So no outbound message has more parts marked as
  confirmed than its counter says (\<open>counted\<close>).\<close>

theorem db_operations_keep_inv:
  assumes "engine_ok e" "db_inv db" "length bytes < 2 ^ 31" "counted db"
  shows "(dbInsertInboundFragment e friend type mid partNo parts off sz bytes tm db = Inr (db', out) \<longrightarrow>
       db_inv db' \<and> counted db' \<and> counters db' (key_of 0 friend mid) = Some (countersAfter db (key_of 0 friend mid) off parts) \<and>
       (\<forall>k. k \<noteq> key_of 0 friend mid \<longrightarrow> selMeta db' k = selMeta db k \<and> selData db' k = selData db k)) \<and>
    (dbInsertOutboundMessage e friend type mid tm parts bytes receipt db = Inr db' \<longrightarrow>
       db_inv db' \<and> counted db' \<and> counters db (key_of 1 friend mid) = None \<and>
       counters db' (key_of 1 friend mid) = Some (0, sint parts) \<and>
       (\<forall>k. k \<noteq> key_of 1 friend mid \<longrightarrow> selMeta db' k = selMeta db k \<and> selData db' k = selData db k)) \<and>
    (dbOutboundPartConfirmed friend mid partNo tm db = Inr db' \<longrightarrow>
       db_inv db' \<and> counted db' \<and> (\<exists>n tot. counters db (key_of 1 friend mid) = Some (n, tot) \<and>
         counters db' (key_of 1 friend mid) = Some (n + 1, tot)) \<and>
       (\<forall>k. k \<noteq> key_of 1 friend mid \<longrightarrow> selMeta db' k = selMeta db k \<and> selData db' k = selData db k)) \<and>
    (dbClearOutboundPending friend mid db = db' \<longrightarrow>
       db_inv db' \<and> counted db' \<and> counters db' (key_of 1 friend mid) = counters db (key_of 1 friend mid) \<and>
       (\<forall>k. k \<noteq> key_of 1 friend mid \<longrightarrow> selMeta db' k = selMeta db k \<and> selData db' k = selData db k))"
  by (rule conjI, rule impI, erule inbound_counted [OF assms(1-3) _ assms(4)],
      rule conjI, rule impI, erule insertOutbound_counted [OF assms(1,2) _ assms(4)],
      rule conjI, rule impI, erule confirm_counted [OF assms(2) _ assms(4)],
      rule impI, erule clear_counted [OF assms(2,4)])

lemma dbOne_counted: "counted dbOne"
  by (simp add: counted_def dbOne_def selMeta_def selData_def lookupBy_def meta_key_def freshMeta_def sint_small db0_def)

text \<open>In the database \<open>dbOne\<close> a message of two parts is stored, its second part confirmed, the rest of the
  inbound message arrives, and the outbound message is cleared.\<close>

theorem db_operations_keep_inv_witness:
  "\<exists>db1 db2 db3 out. dbInsertOutboundMessage engine_default 7 0 9 5 2 [97, 98] 3 dbOne = Inr db1 \<and>
     dbOutboundPartConfirmed 7 9 2 6 db1 = Inr db2 \<and>
     dbInsertInboundFragment engine_default 7 0 1500000000000 2 2 1 4 [98, 99, 100] 6 db2 = Inr (db3, out) \<and>
     counters db1 (key_of 1 7 9) = Some (0, 2) \<and> counters db2 (key_of 1 7 9) = Some (1, 2) \<and>
     counters db3 (key_of 0 7 1500000000000) = Some (2, 2) \<and>
     counters (dbClearOutboundPending 7 9 db3) (key_of 1 7 9) = Some (1, 2) \<and>
     db_inv (dbClearOutboundPending 7 9 db3) \<and> counted (dbClearOutboundPending 7 9 db3)"
proof -
  let ?k0 = "key_of 0 7 1500000000000" and ?k1 = "key_of 1 7 9"
  have ks: "?k0 \<noteq> ?k1" by (simp add: key_of_def)
  have l: "length [98, 99, 100 :: byte] < 2 ^ 31" "length [97, 98 :: byte] < 2 ^ 31" by simp_all
  obtain db1 m d where db1: "dbInsertOutboundMessage engine_default 7 0 9 5 2 [97, 98] 3 dbOne = Inr db1"
    "selMeta db1 ?k1 = Some m" "selData db1 ?k1 = Some d" "dt_confirmed d = Some [0, 0]"
  proof -
    have "selMeta dbOne ?k1 = None"
      by (simp add: dbOne_def selMeta_def lookupBy_def meta_key_def freshMeta_def key_of_def sint_small)
    moreover have "length [97, 98 :: byte] \<le> maxBlob engine_default" "unat (2 :: u32) \<le> length [97, 98 :: byte]"
      by (simp_all add: engine_default_def)
    ultimately obtain db1 where i: "dbInsertOutboundMessage engine_default 7 0 9 5 2 [97, 98] 3 dbOne = Inr db1"
      using insertOutbound_runs [OF engine_default_ok dbOne_facts(1)] by blast
    show thesis
      by (rule insertOutbound_effect [OF engine_default_ok dbOne_facts(1) i], rule that [OF i]) (simp_all add: sint_small numeral_2_eq_2)
  qed
  note c1 = db_operations_keep_inv [OF engine_default_ok dbOne_facts(1) l(2) dbOne_counted, THEN conjunct2, THEN conjunct1, rule_format, OF db1(1)]
  obtain db2 where db2: "dbOutboundPartConfirmed 7 9 2 6 db1 = Inr db2"
    by (rule partConfirmed_effect [OF _ db1(2-4), of 2 6]) (use c1 in simp_all)
  have c2: "db_inv db2 \<and> counted db2 \<and> counters db2 ?k1 = Some (1, 2) \<and>
      (\<forall>k. k \<noteq> ?k1 \<longrightarrow> selMeta db2 k = selMeta dbOne k \<and> selData db2 k = selData dbOne k)"
    using db_operations_keep_inv [OF engine_default_ok _ l(1), of db1, THEN conjunct2, THEN conjunct2, THEN conjunct1, rule_format, OF _ _ db2] c1
    by (auto simp: sint_small)
  let ?d = "hd (fragmented_data dbOne)"
  have meta: "selMeta dbOne ?k0 = Some ((freshMeta 7 0 1500000000000 5 2)\<lparr>frags_done := 1\<rparr>)"
    by (simp add: dbOne_def selMeta_def lookupBy_def meta_key_def freshMeta_def key_of_def sint_small)
  moreover have "selMeta db2 ?k0 = selMeta dbOne ?k0 \<and> selData db2 ?k0 = selData dbOne ?k0" using c2 ks by blast
  moreover have "dt_message ?d = Some [97, 0, 0, 0]" by (simp add: dbOne_def)
  ultimately have m2: "selMeta db2 ?k0 = Some ((freshMeta 7 0 1500000000000 5 2)\<lparr>frags_done := 1\<rparr>)" "selData db2 ?k0 = Some ?d"
    "dt_message ?d = Some [97, 0, 0, 0]"
    using dbOne_facts(3) by (simp_all only:)
  have "db_inv (dbLock db2)" "selMeta (dbLock db2) ?k0 = Some ((freshMeta 7 0 1500000000000 5 2)\<lparr>frags_done := 1\<rparr>)"
    "selData (dbLock db2) ?k0 = Some ?d" using c2 m2 by simp_all
  then obtain db3 out where
    "storeFragment 7 0 1500000000000 1 [98, 99, 100] 6 (dt_rowid ?d) (dbLock db2) = Inr (db3, out)"
    by (rule storeFragment_effect [OF _ _ _ m2(3), where off = 1 and bytes = "[98, 99, 100]" and type = 0 and tm = 6]) simp_all
  then have db3: "dbInsertInboundFragment engine_default 7 0 1500000000000 2 2 1 4 [98, 99, 100] 6 db2 = Inr (db3, out)"
    using c2 by (subst insert_active [OF _ m2(1,2)]) simp_all
  have after: "countersAfter db2 ?k0 1 2 = (2, 2)"
    using m2 by (simp add: countersAfter_def counters_def countsAsDuplicate_def blobFor_def freshMeta_def sint_small)
  have c3: "db_inv db3 \<and> counted db3 \<and> counters db3 ?k0 = Some (2, 2) \<and> selMeta db3 ?k1 = selMeta db2 ?k1"
  proof -
    have "db_inv db3 \<and> counted db3 \<and> counters db3 ?k0 = Some (countersAfter db2 ?k0 1 2) \<and>
        (\<forall>k. k \<noteq> ?k0 \<longrightarrow> selMeta db3 k = selMeta db2 k \<and> selData db3 k = selData db2 k)"
      by (rule db_operations_keep_inv [OF engine_default_ok _ l(1), of db2, THEN conjunct1, THEN mp, OF _ _ db3]) (use c2 in blast)+
    then show ?thesis using ks unfolding after by metis
  qed
  have "db_inv (dbClearOutboundPending 7 9 db3) \<and> counted (dbClearOutboundPending 7 9 db3) \<and>
      counters (dbClearOutboundPending 7 9 db3) ?k1 = counters db3 ?k1"
    using db_operations_keep_inv [OF engine_default_ok _ l(1), of db3, THEN conjunct2, THEN conjunct2, THEN conjunct2, rule_format, OF _ _ refl] c3
    by blast
  then show ?thesis using db1(1) db2 db3 c1 c2 c3
    by (intro exI [of _ db1] exI [of _ db2] exI [of _ db3] exI [of _ out]) (simp add: counters_def sint_small)
qed

text \<open>C32. Locks are not balanced: \<open>dbInsertInboundFragment\<close> releases the lock it takes on every path but the
  one for a duplicate fragment of a message that is not complete yet, which returns with the lock
  held; and that is the only way in which the number of held locks changes.\<close>

theorem dbInsertInboundFragment_locks:
  assumes "engine_ok e" "db_inv db" "length bytes < 2 ^ 31"
    "dbInsertInboundFragment e friend type mid partNo parts off sz bytes tm db = Inr (db', out)"
  shows "db_held db' = db_held db +
    (if db_lockCb db \<and> countsAsDuplicate db (key_of 0 friend mid) off then 1 else 0)"
  using assms by (rule insertInbound_outcome(3))

theorem dbInsertInboundFragment_locks_witness:
  "\<exists>db' out. dbInsertInboundFragment engine_default 7 0 1500000000000 1 2 0 4 [97] 6 dbOne = Inr (db', out) \<and>
     db_held db' = db_held dbOne + 1"
proof -
  let ?d = "hd (fragmented_data dbOne)"
  obtain m where m: "selMeta dbOne (key_of 0 7 1500000000000) = Some m" using dbOne_facts(2) by auto
  have L: "db_inv (dbLock dbOne)" "selMeta (dbLock dbOne) (key_of 0 7 1500000000000) = Some m"
    "selData (dbLock dbOne) (key_of 0 7 1500000000000) = Some ?d" "dt_message ?d = Some [97, 0, 0, 0]"
    using dbOne_facts(1,3) m by simp_all (simp add: dbOne_def)
  have "storeFragment 7 0 1500000000000 0 [97] 6 (dt_rowid ?d) (dbLock dbOne) = Inr (dbLock dbOne, None)"
    using storeFragment_cases(2) [OF L, of "[97]" _ 0 0 6, OF _ refl] by simp
  then have r: "dbInsertInboundFragment engine_default 7 0 1500000000000 1 2 0 4 [97] 6 dbOne
      = Inr (dbLock dbOne, None)"
    using insert_active [OF dbOne_facts(1) m dbOne_facts(3)] by simp
  have "countsAsDuplicate dbOne (key_of 0 7 1500000000000) 0"
    unfolding countsAsDuplicate_def blobFor_def dbOne_facts(3) using L(4) by simp
  moreover have "db_lockCb dbOne" by (simp add: dbOne_def)
  ultimately show ?thesis
    using dbInsertInboundFragment_locks [OF engine_default_ok dbOne_facts(1) _ r] r by simp
qed

text \<open>C33. What a friend can do with a fragment of a message that was not seen before: the process
  aborts exactly when the announced size exceeds the limit of SQLite, or the offset does not lie
  inside that size, or the payload does not fit behind the offset.  Nothing checks these numbers, which
  come from the network, before they reach SQLite.\<close>

theorem first_fragment_aborts_iff:
  assumes "engine_ok e" "db_inv db" "selMeta db (key_of 0 friend mid) = None" "length bytes < 2 ^ 31"
  shows "dbInsertInboundFragment e friend type mid partNo parts off sz bytes tm db = Inl x \<longleftrightarrow>
    x = Aborted \<and> (maxBlob e < unat sz \<or> unat sz \<le> unat off \<or> unat sz < unat off + length bytes)"
proof (cases rule: insert_cases [OF assms(1,2), of friend mid type partNo parts off sz bytes tm,
      case_names complete large store])
  case complete
  then show ?thesis using assms(3) by simp
next
  case large
  then show ?thesis by auto
next
  case (store m d db1)
  have sz: "unat sz \<le> maxBlob e" "maxBlob e < 2 ^ 31"
    using store(9) assms(1,3) by (simp_all add: engine_ok_def)
  have blob: "blobFor db (key_of 0 friend mid) (unat sz) = replicate (unat sz) 0"
    using data_needs_meta [OF assms(2,3)] by (simp add: blobFor_def)
  note cs = storeFragment_cases [OF store(2-4) store(5)[unfolded blob] assms(4) refl, where type = type and off = off and tm = tm]
  show ?thesis
  proof (cases "unat off < unat sz")
    case False
    then show ?thesis using cs(1) store(1) by auto
  next
    case True
    then have o: "unat off < 2 ^ 31" "unat off < length (replicate (unat sz) (0 :: byte))"
      "replicate (unat sz) (0 :: byte) ! unat off = 0" using sz by simp_all
    show ?thesis
    proof (cases "unat sz < unat off + length bytes")
      case t: True
      then show ?thesis using cs(3) [OF o] store(1) by auto
    next
      case f: False
      then have "unat off + length bytes \<le> length (replicate (unat sz) (0 :: byte))" by simp
      then obtain db2 out2 where "storeFragment friend type mid off bytes tm (dt_rowid d) db1 = Inr (db2, out2)"
        using storeFragment_effect [OF store(2-4) store(5)[unfolded blob] o assms(4), of type tm] by metis
      then show ?thesis using True f sz(1) store(1) by simp
    qed
  qed
qed

theorem first_fragment_aborts_iff_witness:
  "dbInsertInboundFragment engine_default 7 0 1500000000000 1 2 4 4 [104] 5 db0 = Inl Aborted"
  using first_fragment_aborts_iff [OF engine_default_ok db0_inv(1) db0_inv(2), of "[104]" 7 0 1500000000000 1 2 4 4 5 Aborted]
  by simp

text \<open>The time stamp never advances: \<open>updateFragmentedMetaDone\<close> binds the 64-bit time as an \<open>int\<close>, so the value that
  reaches \<open>max\<close> is below 2^31, and a row whose last time stamp is any real time in milliseconds keeps it
  while its count of fragments goes up.\<close>

theorem timestamp_never_advances:
  assumes "db_inv db" "selMeta db (key_of outbound friend mid) = Some m" "2 ^ 31 \<le> timestamp_last m"
  shows "\<exists>db'. updateFragmentedMetaDone outbound tm friend mid db = Inr db' \<and>
    selMeta db' (key_of outbound friend mid) = Some (m\<lparr>frags_done := frags_done m + 1\<rparr>)"
proof -
  have "bindTm tm < 2 ^ 31"
    using unsigned_less [of "ucast tm :: u32", where 'a = int]
    unfolding bindTm_def sint_u32 less_uint_iff by (auto split: if_splits)
  then have "max (timestamp_last m) (bindTm tm) = timestamp_last m" using assms(3) by simp
  moreover obtain db' where "updateFragmentedMetaDone outbound tm friend mid db = Inr db'"
    "selMeta db' = (selMeta db)(key_of outbound friend mid \<mapsto>
       m\<lparr>timestamp_last := max (timestamp_last m) (bindTm tm), frags_done := frags_done m + 1\<rparr>)"
    by (rule metaDone_effect [OF assms(1,2), of tm])
  ultimately show ?thesis by simp
qed

theorem timestamp_never_advances_witness:
  "\<exists>db'. updateFragmentedMetaDone 0 1600000000000 7 1500000000000
       (dbOne\<lparr>fragmented_meta := [freshMeta 7 0 1500000000000 1500000000000 2]\<rparr>) = Inr db' \<and>
     selMeta db' (key_of 0 7 1500000000000) = Some ((freshMeta 7 0 1500000000000 1500000000000 2)\<lparr>frags_done := 1\<rparr>)"
proof -
  let ?m = "freshMeta 7 0 1500000000000 1500000000000 2"
  let ?db = "dbOne\<lparr>fragmented_meta := [?m]\<rparr>"
  have "db_inv ?db" "selMeta ?db (key_of 0 7 1500000000000) = Some ?m"
    by (simp_all add: dbOne_def db_inv_def row_ok_def selMeta_def lookupBy_def freshMeta_key)
      (simp add: data_key_def key_of_def sint_small)
  moreover have "2 ^ 31 \<le> timestamp_last ?m" by (simp add: freshMeta_def sint_small)
  ultimately show ?thesis
    using timestamp_never_advances [of ?db 0 7 1500000000000 ?m 1600000000000] by (simp add: freshMeta_def)
qed

text \<open>The rows of an outbound message that has been inserted and then partly confirmed.\<close>

lemma insert_confirm_effect:
  assumes "engine_ok e" "db_inv db" "unat parts < 2 ^ 31"
    "dbInsertOutboundMessage e friend type mid tm parts bytes receipt db = Inr db1"
    "\<forall>(partNo, t)\<in>set cs. 1 \<le> unat partNo \<and> unat partNo \<le> unat parts"
  obtains db2 m d where "confirmParts friend mid cs db1 = Inr db2" "db_inv db2" "selMeta db (key_of 1 friend mid) = None"
    "selMeta db2 = (selMeta db)(key_of 1 friend mid \<mapsto> m)" "selData db2 = (selData db)(key_of 1 friend mid \<mapsto> d)"
    "pendingRow m d = \<lparr>pd_friend = friend, pd_type = type, pd_id = mid, pd_tm1 = tm,
        pd_tm2 = word_of_int (timestamp_last m),
        pd_numConfirmed = of_nat (length cs), pd_numParts = parts, pd_message = bytes,
        pd_confirmed = map (\<lambda>i. if i + 1 \<in> unat ` fst ` set cs then 1 else 0) [0..<unat parts],
        pd_receipt = sint receipt\<rparr>"
proof -
  let ?k = "key_of 1 friend mid"
  obtain m d where i: "db_inv db1" "selMeta db ?k = None" "selMeta db1 = (selMeta db)(?k \<mapsto> m)"
    "selData db1 = (selData db)(?k \<mapsto> d)"
    "m = \<lparr>mt_outbound = 1, mt_friend_id = sint friend, mt_type = type, mt_frags_id = sint mid,
          timestamp_first = sint tm, timestamp_last = sint tm, frags_done = 0, frags_num = sint parts\<rparr>"
    "dt_message d = Some bytes" "dt_confirmed d = Some (replicate (nat (sint parts)) 0)"
    "dt_receipt d = Some (sint receipt)"
    by (rule insertOutbound_effect [OF assms(1,2,4)])
  have b: "dt_confirmed d = Some (replicate (unat parts) 0)" using i(7) assms(3) by (simp add: sint_u32)
  have sel: "selMeta db1 ?k = Some m" "selData db1 ?k = Some d" using i(3,4) by simp_all
  have len: "length (replicate (unat parts) (0 :: byte)) < 2 ^ 31"
    "\<forall>(partNo, tm)\<in>set cs. 1 \<le> unat partNo \<and> unat partNo \<le> length (replicate (unat parts) (0 :: byte))"
    using assms(3,5) by simp_all
  obtain db2 m' d' where r: "confirmParts friend mid cs db1 = Inr db2" "db_inv db2"
    "selMeta db2 = (selMeta db1)(?k \<mapsto> m')" "selData db2 = (selData db1)(?k \<mapsto> d')"
    "m' = m\<lparr>timestamp_last := timestamp_last m', frags_done := frags_done m + int (length cs)\<rparr>"
    "d' = d\<lparr>dt_confirmed := Some (confirmedBits (replicate (unat parts) 0) cs)\<rparr>"
    using confirmParts_effect [OF i(1) sel b len] by blast
  have bits: "confirmedBits (replicate (unat parts) 0) cs
      = map (\<lambda>i. if i + 1 \<in> unat ` fst ` set cs then 1 else 0) [0..<unat parts]"
    by (auto simp: confirmedBits_def)
  show thesis
    by (rule that [OF r(1,2) i(2), of m' d'], simp_all add: r(3,4) i(3,4))
      (subst r(5), simp add: pendingRow_def r(6) i(5,6,8) bits)
qed

text \<open>C14. What is stored is what is loaded: after an outbound message has been inserted and any of its parts
  have been confirmed, \<open>dbLoadPendingSentMessages\<close> hands over, besides what it did before, exactly
  one more message, with the same friend, type, id, bytes and receipt, with the number of
  confirmations and with exactly the confirmed parts marked; once it is cleared, it is not handed
  over any more.\<close>

theorem pending_roundtrip:
  assumes "engine_ok e" "db_inv db" "unat parts < 2 ^ 31"
    "dbInsertOutboundMessage e friend type mid tm parts bytes receipt db = Inr db1"
    "\<forall>(partNo, t)\<in>set cs. 1 \<le> unat partNo \<and> unat partNo \<le> unat parts"
  shows "\<exists>db2 tm2. confirmParts friend mid cs db1 = Inr db2 \<and>
    set (selectPending db2) = insert \<lparr>pd_friend = friend, pd_type = type, pd_id = mid, pd_tm1 = tm, pd_tm2 = tm2,
        pd_numConfirmed = of_nat (length cs), pd_numParts = parts, pd_message = bytes,
        pd_confirmed = map (\<lambda>i. if i + 1 \<in> unat ` fst ` set cs then 1 else 0) [0..<unat parts],
        pd_receipt = sint receipt\<rparr> (set (selectPending db)) \<and>
    set (selectPending (dbClearOutboundPending friend mid db2)) = set (selectPending db)"
proof -
  let ?k = "key_of 1 friend mid"
  obtain db2 m d where r: "confirmParts friend mid cs db1 = Inr db2" "db_inv db2" "selMeta db ?k = None"
    "selMeta db2 = (selMeta db)(?k \<mapsto> m)" "selData db2 = (selData db)(?k \<mapsto> d)"
    "pendingRow m d = \<lparr>pd_friend = friend, pd_type = type, pd_id = mid, pd_tm1 = tm,
        pd_tm2 = word_of_int (timestamp_last m),
        pd_numConfirmed = of_nat (length cs), pd_numParts = parts, pd_message = bytes,
        pd_confirmed = map (\<lambda>i. if i + 1 \<in> unat ` fst ` set cs then 1 else 0) [0..<unat parts],
        pd_receipt = sint receipt\<rparr>"
    by (rule insert_confirm_effect [OF assms])
  note nod = data_needs_meta [OF assms(2) r(3)]
  have k: "fst ?k = 1" by (simp add: key_of_def)
  have load: "set (selectPending db2) = insert (pendingRow m d) (set (selectPending db))"
    by (rule selectPending_insert [OF assms(2) r(2) k nod r(4,5)])
  have clear: "db_inv (dbClearOutboundPending friend mid db2)"
    "selMeta (dbClearOutboundPending friend mid db2) = selMeta db2"
    "selData (dbClearOutboundPending friend mid db2) = (selData db2)(?k := None)"
    using deleteData_effect [of "dbLock db2" 1 friend mid] r(2) by (simp_all add: dbClearOutboundPending_def)
  have "selData (dbClearOutboundPending friend mid db2) = selData db"
    using nod by (simp add: clear(3) r(5) fun_upd_idem)
  with clear(1,2) r(4) have "set (selectPending (dbClearOutboundPending friend mid db2)) = set (selectPending db)"
    by (intro selectPending_delete [OF assms(2) _ nod]) simp_all
  with r(1) load [unfolded r(6)] show ?thesis
    by (intro exI [of _ db2] exI [of _ "word_of_int (timestamp_last m)"] conjI)
qed

theorem pending_roundtrip_witness:
  "\<exists>db1 db2 tm2. dbInsertOutboundMessage engine_default 7 0 1500000000000 5 2 [104, 105] 9 db0 = Inr db1 \<and>
    confirmParts 7 1500000000000 [(2, 6)] db1 = Inr db2 \<and>
    set (selectPending db2) = {\<lparr>pd_friend = 7, pd_type = 0, pd_id = 1500000000000, pd_tm1 = 5, pd_tm2 = tm2,
        pd_numConfirmed = 1, pd_numParts = 2, pd_message = [104, 105], pd_confirmed = [0, 1], pd_receipt = 9\<rparr>} \<and>
    selectPending (dbClearOutboundPending 7 1500000000000 db2) = []"
proof -
  have none: "selectPending db0 = []" by (simp add: selectPending_def db0_def)
  obtain db1 where db1: "dbInsertOutboundMessage engine_default 7 0 1500000000000 5 2 [104, 105] 9 db0 = Inr db1"
    by (simp add: dbInsertOutboundMessage_def db0_inv data_needs_meta [OF db0_inv(1)] sint_small
        engine_default_def selData_def db0_def lookupBy_def selMeta_def Let_def)
  have bits: "map (\<lambda>i. if i + 1 \<in> unat ` fst ` set [(2 :: u32, 6 :: u64)] then 1 else (0 :: byte)) [0..<unat (2 :: u32)] = [0, 1]"
    by (simp add: upt_rec)
  have "sint (9 :: u32) = 9" by (simp add: sint_small)
  moreover have "\<forall>(partNo, t)\<in>set [(2 :: u32, 6 :: u64)]. 1 \<le> unat partNo \<and> unat partNo \<le> unat (2 :: u32)" by simp
  ultimately show ?thesis
    using pending_roundtrip [OF engine_default_ok db0_inv(1) _ db1, of "[(2, 6)]", unfolded bits none] db1
    by (simp only: set_empty) auto
qed

end
