(* ===== verification/Statements.thy ===== *)
theory Statements
  imports Database
begin

section \<open>The prepared statements\<close>

text \<open>
  The layer of \<open>database.c\<close> that talks to SQLite: preparing, binding, executing, resetting and
  finalizing statements.  Theory \<open>Database\<close> takes a statement for the function on the tables that it
  denotes; here a function is what it calls: the log of the calls of the SQLite interface.  What SQLite
  answers, a result code or the value of a column, is the parameter \<open>sqlite\<close>, a function of all
  the calls before.  A result code that the code does not expect is the fault \<open>Aborted\<close>, as in the code.

  SQLite documents how a statement is to be used: it is bound and executed only between
  \<open>sqlite3_prepare_v2\<close> and \<open>sqlite3_finalize\<close>, bound only while it is not being executed, and only
  to the parameters that its text has.  That contract is the relation \<open>api\<close>.  The lemmas show that
  every function keeps it, that every statement is executed with all its parameters bound, and that
  no statement is left when the static ones are destroyed, with one exception, \<open>readDbName\<close>.
\<close>

subsection \<open>The interface of SQLite\<close>

type_synonym stmt = nat

datatype boundval = VInt int | VInt64 int | VBlob "byte list"

datatype sqcall =
    Prepare string stmt          \<comment> \<open>\<open>sqlite3_prepare_v2\<close>: the text, the statement it creates\<close>
  | Bind stmt nat boundval       \<comment> \<open>\<open>sqlite3_bind_int\<close>, \<open>_int64\<close>, \<open>_blob64\<close>\<close>
  | Step stmt
  | Reset stmt
  | Finalize stmt
  | Column stmt nat              \<comment> \<open>\<open>sqlite3_column_\<dots>\<close>\<close>
  | Exec string

record sqlite =
  sq_rc :: "sqcall list \<Rightarrow> sqcall \<Rightarrow> int"
  sq_column :: "sqcall list \<Rightarrow> stmt \<Rightarrow> nat \<Rightarrow> int"
  sq_changes :: "sqcall list \<Rightarrow> int"   \<comment> \<open>\<open>sqlite3_changes\<close>\<close>

abbreviation (input) SQLITE_OK :: int where "SQLITE_OK \<equiv> 0"
abbreviation (input) SQLITE_ROW :: int where "SQLITE_ROW \<equiv> 100"
abbreviation (input) SQLITE_DONE :: int where "SQLITE_DONE \<equiv> 101"

subsection \<open>The static variables and their statements\<close>

datatype stmtVar =
    StmtInsertFragmentedDataInbound | StmtInsertFragmentedMetaInbound | StmtSelectRowidFromFragmentedMeta
  | StmtInsertFragmentedDataOutbound | StmtInsertFragmentedMetaOutbound | StmtUpdateFragmentedMeta
  | StmtSelectFragmentedInboundDone | StmtSelectFragmentedOutboundPending | StmtDeleteFragmentedData
  | StmtReadDbName

record stmts =
  s_vars :: "stmtVar \<Rightarrow> stmt option"
  s_brk :: stmt
  s_log :: "sqcall list"

definition stmts0 :: stmts where
  "stmts0 = \<lparr>s_vars = (\<lambda>_. None), s_brk = 1, s_log = []\<rparr>"

fun sqlOf :: "stmtVar \<Rightarrow> string" where
  "sqlOf StmtInsertFragmentedDataInbound =
     ''INSERT INTO fragmented_data (outbound, friend_id, frags_id, message)'' @
     '' SELECT 0, ?, ?, zeroblob(?)'' @
     '' WHERE NOT EXISTS (SELECT 1 FROM fragmented_meta WHERE outbound=0 AND friend_id=? AND frags_id=?);''"
| "sqlOf StmtInsertFragmentedMetaInbound =
     ''INSERT INTO fragmented_meta (outbound, friend_id, type, frags_id, timestamp_first, timestamp_last,'' @
     '' frags_done, frags_num)'' @
     '' SELECT 0, ?, ?, ?, ?, ?, 0, ?'' @
     '' WHERE NOT EXISTS (SELECT 1 FROM fragmented_meta WHERE outbound=0 AND friend_id=? AND frags_id=?);''"
| "sqlOf StmtSelectRowidFromFragmentedMeta =
     ''SELECT rowid FROM fragmented_data WHERE outbound=? AND friend_id=? AND frags_id=?;''"
| "sqlOf StmtInsertFragmentedMetaOutbound =
     ''INSERT INTO fragmented_meta (outbound, friend_id, type, frags_id, timestamp_first, timestamp_last,'' @
     '' frags_done, frags_num)'' @
     '' VALUES(1, ?, ?, ?, ?, ?, 0, ?);''"
| "sqlOf StmtInsertFragmentedDataOutbound =
     ''INSERT INTO fragmented_data (outbound, friend_id, frags_id, message, confirmed, receipt)'' @
     '' VALUES(1, ?, ?, ?, zeroblob(?), ?);''"
| "sqlOf StmtUpdateFragmentedMeta =
     ''UPDATE fragmented_meta SET timestamp_last=max(timestamp_last,?), frags_done = frags_done+1'' @
     '' WHERE outbound=? AND friend_id=? AND frags_id=?;''"
| "sqlOf StmtSelectFragmentedInboundDone =
     ''SELECT timestamp_first, timestamp_last, friend_id, message, length(message)'' @
     '' FROM fragmented_meta JOIN fragmented_data USING (outbound, friend_id, frags_id)'' @
     '' WHERE outbound=0 AND friend_id=? AND frags_id=? AND frags_done = frags_num;''"
| "sqlOf StmtSelectFragmentedOutboundPending =
     ''SELECT friend_id, type, frags_id,'' @
     '' timestamp_first, timestamp_last,'' @
     '' frags_done, frags_num,'' @
     '' message, length(message),'' @
     '' confirmed, length(confirmed),'' @
     '' receipt'' @
     '' FROM fragmented_meta JOIN fragmented_data USING (outbound, friend_id, frags_id)'' @
     '' WHERE outbound=1;''"
| "sqlOf StmtDeleteFragmentedData =
     ''DELETE FROM fragmented_data WHERE outbound=? AND friend_id=? AND frags_id=?;''"
| "sqlOf StmtReadDbName = ''PRAGMA database_list;''"

subsection \<open>Single calls\<close>

definition issue :: "sqcall \<Rightarrow> stmts \<Rightarrow> stmts" where
  "issue c st = st\<lparr>s_log := s_log st @ [c]\<rparr>"

text \<open>A call that must return \<open>SQLITE_OK\<close>.\<close>

definition mustOk :: "sqlite \<Rightarrow> sqcall \<Rightarrow> stmts \<Rightarrow> stmts result" where
  "mustOk sq c st = (if sq_rc sq (s_log st) c \<noteq> SQLITE_OK then Inl Aborted else Inr (issue c st))"

definition prepareStatement :: "sqlite \<Rightarrow> string \<Rightarrow> stmts \<Rightarrow> (stmt \<times> stmts) result" where
  "prepareStatement sq sql st =
     bindR (mustOk sq (Prepare sql (s_brk st)) st) (\<lambda>st'. Inr (s_brk st, st'\<lparr>s_brk := s_brk st + 1\<rparr>))"

definition prepare :: "sqlite \<Rightarrow> stmtVar \<Rightarrow> stmts \<Rightarrow> (stmt \<times> stmts) result" where
  "prepare sq v st =
     (case s_vars st v of
        None \<Rightarrow> bindR (prepareStatement sq (sqlOf v) st) (\<lambda>(s, st). Inr (s, st\<lparr>s_vars := (s_vars st)(v \<mapsto> s)\<rparr>))
      | Some s \<Rightarrow> Inr (s, st))"

definition destroyPreparedStatement :: "stmtVar \<Rightarrow> stmts \<Rightarrow> stmts" where
  "destroyPreparedStatement v st =
     (case s_vars st v of None \<Rightarrow> st
      | Some s \<Rightarrow> (issue (Finalize s) st)\<lparr>s_vars := (s_vars st)(v := None)\<rparr>)"

definition destroyPreparedStatements :: "stmts \<Rightarrow> stmts" where
  "destroyPreparedStatements st = fold destroyPreparedStatement
     [StmtInsertFragmentedDataInbound, StmtInsertFragmentedMetaInbound, StmtSelectRowidFromFragmentedMeta,
      StmtInsertFragmentedDataOutbound, StmtInsertFragmentedMetaOutbound, StmtUpdateFragmentedMeta,
      StmtSelectFragmentedInboundDone, StmtSelectFragmentedOutboundPending, StmtDeleteFragmentedData] st"

definition bindInt :: "sqlite \<Rightarrow> stmt \<Rightarrow> nat \<Rightarrow> u32 \<Rightarrow> stmts \<Rightarrow> stmts result" where
  "bindInt sq s n a st = mustOk sq (Bind s n (VInt (sint a))) st"

definition bindInt64 :: "sqlite \<Rightarrow> stmt \<Rightarrow> nat \<Rightarrow> u64 \<Rightarrow> stmts \<Rightarrow> stmts result" where
  "bindInt64 sq s n a st = mustOk sq (Bind s n (VInt64 (sint a))) st"

definition bindBlob :: "sqlite \<Rightarrow> stmt \<Rightarrow> nat \<Rightarrow> byte list \<Rightarrow> stmts \<Rightarrow> stmts result" where
  "bindBlob sq s n bytes st = mustOk sq (Bind s n (VBlob bytes)) st"

subsection \<open>Binding all parameters of a statement\<close>

definition bind_Int_Int64 :: "sqlite \<Rightarrow> stmt \<Rightarrow> u32 \<Rightarrow> u64 \<Rightarrow> stmts \<Rightarrow> stmts result" where
  "bind_Int_Int64 sq s a1 a2 st = bindR (bindInt sq s 1 a1 st) (bindInt64 sq s 2 a2)"

definition bind_Int_Int_Int64 :: "sqlite \<Rightarrow> stmt \<Rightarrow> u32 \<Rightarrow> u32 \<Rightarrow> u64 \<Rightarrow> stmts \<Rightarrow> stmts result" where
  "bind_Int_Int_Int64 sq s a1 a2 a3 st =
     bindR (bindInt sq s 1 a1 st) (\<lambda>st. bindR (bindInt sq s 2 a2 st) (bindInt64 sq s 3 a3))"

definition bind_Int_Int64_Int_Int64 :: "sqlite \<Rightarrow> stmt \<Rightarrow> u32 \<Rightarrow> u64 \<Rightarrow> u32 \<Rightarrow> u64 \<Rightarrow> stmts \<Rightarrow> stmts result" where
  "bind_Int_Int64_Int_Int64 sq s a1 a2 a3 a4 st =
     bindR (bindInt sq s 1 a1 st) (\<lambda>st. bindR (bindInt64 sq s 2 a2 st) (\<lambda>st.
     bindR (bindInt sq s 3 a3 st) (bindInt64 sq s 4 a4)))"

definition bind_Int_Int64_Blob_Int_Int :: "sqlite \<Rightarrow> stmt \<Rightarrow> u32 \<Rightarrow> u64 \<Rightarrow> byte list \<Rightarrow> u32 \<Rightarrow> u32 \<Rightarrow> stmts \<Rightarrow> stmts result" where
  "bind_Int_Int64_Blob_Int_Int sq s a1 a2 a3 a4 a5 st =
     bindR (bindInt sq s 1 a1 st) (\<lambda>st. bindR (bindInt64 sq s 2 a2 st) (\<lambda>st.
     bindR (bindBlob sq s 3 a3 st) (\<lambda>st. bindR (bindInt sq s 4 a4 st) (bindInt sq s 5 a5))))"

text \<open>The \<open>int\<close> \<open>a4\<close> is bound with \<open>bindInt64\<close>, so it is converted with its sign.\<close>

definition bind_Int_Int64_Int64_Int_Int64 :: "sqlite \<Rightarrow> stmt \<Rightarrow> u32 \<Rightarrow> u64 \<Rightarrow> u64 \<Rightarrow> u32 \<Rightarrow> u64 \<Rightarrow> stmts \<Rightarrow> stmts result" where
  "bind_Int_Int64_Int64_Int_Int64 sq s a1 a2 a3 a4 a5 st =
     bindR (bindInt sq s 1 a1 st) (\<lambda>st. bindR (bindInt64 sq s 2 a2 st) (\<lambda>st.
     bindR (bindInt64 sq s 3 a3 st) (\<lambda>st. bindR (bindInt64 sq s 4 (scast a4) st) (bindInt64 sq s 5 a5))))"

definition bind_Int_Int_Int64_Int64_Int64_Int :: "sqlite \<Rightarrow> stmt \<Rightarrow> u32 \<Rightarrow> u32 \<Rightarrow> u64 \<Rightarrow> u64 \<Rightarrow> u64 \<Rightarrow> u32 \<Rightarrow> stmts \<Rightarrow> stmts result" where
  "bind_Int_Int_Int64_Int64_Int64_Int sq s a1 a2 a3 a4 a5 a6 st =
     bindR (bindInt sq s 1 a1 st) (\<lambda>st. bindR (bindInt sq s 2 a2 st) (\<lambda>st.
     bindR (bindInt64 sq s 3 a3 st) (\<lambda>st. bindR (bindInt64 sq s 4 a4 st) (\<lambda>st.
     bindR (bindInt64 sq s 5 a5 st) (bindInt sq s 6 a6)))))"

definition bind_Int_Int_Int64_Int64_Int64_Int_Int_Int64 ::
    "sqlite \<Rightarrow> stmt \<Rightarrow> u32 \<Rightarrow> u32 \<Rightarrow> u64 \<Rightarrow> u64 \<Rightarrow> u64 \<Rightarrow> u32 \<Rightarrow> u32 \<Rightarrow> u64 \<Rightarrow> stmts \<Rightarrow> stmts result" where
  "bind_Int_Int_Int64_Int64_Int64_Int_Int_Int64 sq s a1 a2 a3 a4 a5 a6 a7 a8 st =
     bindR (bindInt sq s 1 a1 st) (\<lambda>st. bindR (bindInt sq s 2 a2 st) (\<lambda>st.
     bindR (bindInt64 sq s 3 a3 st) (\<lambda>st. bindR (bindInt64 sq s 4 a4 st) (\<lambda>st.
     bindR (bindInt64 sq s 5 a5 st) (\<lambda>st. bindR (bindInt sq s 6 a6 st) (\<lambda>st.
     bindR (bindInt sq s 7 a7 st) (bindInt64 sq s 8 a8)))))))"

subsection \<open>Executing\<close>

definition resetStmt :: "stmt \<Rightarrow> stmts \<Rightarrow> stmts" where
  "resetStmt s st = issue (Reset s) st"

definition execSql :: "sqlite \<Rightarrow> string \<Rightarrow> stmts \<Rightarrow> stmts result" where
  "execSql sq sql st = mustOk sq (Exec sql) st"

definition execPrepared :: "sqlite \<Rightarrow> stmt \<Rightarrow> stmts \<Rightarrow> stmts result" where
  "execPrepared sq s st =
     (if sq_rc sq (s_log st) (Step s) \<noteq> SQLITE_DONE then Inl Aborted
      else Inr (resetStmt s (issue (Step s) st)))"

definition execPreparedRowOrNot :: "sqlite \<Rightarrow> stmt \<Rightarrow> stmts \<Rightarrow> (bool \<times> stmts) result" where
  "execPreparedRowOrNot sq s st =
     (let rc = sq_rc sq (s_log st) (Step s)
      in if rc \<noteq> SQLITE_ROW \<and> rc \<noteq> SQLITE_DONE then Inl Aborted
         else Inr (rc = SQLITE_ROW, issue (Step s) st))"

definition execPreparedInt64 :: "sqlite \<Rightarrow> stmt \<Rightarrow> nat \<Rightarrow> stmts \<Rightarrow> (int option \<times> stmts) result" where
  "execPreparedInt64 sq s iCol st =
     (let rc = sq_rc sq (s_log st) (Step s)
      in if rc \<noteq> SQLITE_ROW \<and> rc \<noteq> SQLITE_DONE then Inl Aborted
         else let st = issue (Step s) st
              in if rc = SQLITE_ROW
                 then Inr (Some (sq_column sq (s_log st) s iCol), resetStmt s (issue (Column s iCol) st))
                 else Inr (None, resetStmt s st))"

text \<open>\<open>execPreparedText\<close>: the text of the column is copied; only the calls matter here.\<close>

definition execPreparedText :: "sqlite \<Rightarrow> stmt \<Rightarrow> nat \<Rightarrow> stmts \<Rightarrow> (bool \<times> stmts) result" where
  "execPreparedText sq s iCol st =
     (let rc = sq_rc sq (s_log st) (Step s)
      in if rc \<noteq> SQLITE_ROW \<and> rc \<noteq> SQLITE_DONE then Inl Aborted
         else let st = issue (Step s) st
              in if rc = SQLITE_ROW then Inr (True, resetStmt s (issue (Column s iCol) st))
                 else Inr (False, resetStmt s st))"

subsection \<open>The statements of the operations\<close>

definition sqlReadDbName :: "sqlite \<Rightarrow> stmts \<Rightarrow> stmts result" where
  "sqlReadDbName sq st =
     bindR (prepare sq StmtReadDbName st) (\<lambda>(s, st).
     bindR (execPreparedText sq s 1 st) (\<lambda>(_, st).
     Inr (issue (Finalize s) st)))"

definition sqlDataRowid :: "sqlite \<Rightarrow> u32 \<Rightarrow> u32 \<Rightarrow> u64 \<Rightarrow> stmts \<Rightarrow> (int \<times> stmts) result" where
  "sqlDataRowid sq outbound friend mid st =
     bindR (prepare sq StmtSelectRowidFromFragmentedMeta st) (\<lambda>(s, st).
     bindR (bind_Int_Int_Int64 sq s outbound friend mid st) (\<lambda>st.
     bindR (execPreparedInt64 sq s 0 st) (\<lambda>(rowid, st).
     Inr (case rowid of None \<Rightarrow> 0 | Some r \<Rightarrow> r, st))))"

text \<open>\<open>tm\<close> is passed as the \<open>int\<close> \<open>a1\<close>, \<open>outbound\<close> as the 64-bit \<open>a2\<close>.\<close>

definition sqlMetaDone :: "sqlite \<Rightarrow> u32 \<Rightarrow> u64 \<Rightarrow> u32 \<Rightarrow> u64 \<Rightarrow> stmts \<Rightarrow> stmts result" where
  "sqlMetaDone sq outbound tm friend mid st =
     bindR (prepare sq StmtUpdateFragmentedMeta st) (\<lambda>(s, st).
     bindR (bind_Int_Int64_Int_Int64 sq s (ucast tm) (scast outbound) friend mid st) (\<lambda>st.
     bindR (execPrepared sq s st) (\<lambda>st.
     if sq_changes sq (s_log st) \<noteq> 1 then Inl Aborted else Inr st)))"

definition sqlDeleteData :: "sqlite \<Rightarrow> u32 \<Rightarrow> u32 \<Rightarrow> u64 \<Rightarrow> stmts \<Rightarrow> stmts result" where
  "sqlDeleteData sq outbound friend mid st =
     bindR (prepare sq StmtDeleteFragmentedData st) (\<lambda>(s, st).
     bindR (bind_Int_Int_Int64 sq s outbound friend mid st) (execPrepared sq s))"

text \<open>
  \<open>dbInsertInboundFragment\<close>.  Whether the first byte of the blob was zero, \<open>fresh\<close>, is read through
  the blob interface, see theory \<open>Database\<close>.
\<close>

definition sqlInsertInbound :: "sqlite \<Rightarrow> u32 \<Rightarrow> u32 \<Rightarrow> u64 \<Rightarrow> u32 \<Rightarrow> u32 \<Rightarrow> u64 \<Rightarrow> stmts \<Rightarrow> stmts result" where
  "sqlInsertInbound sq friend type mid parts sz tm st =
     bindR (prepare sq StmtInsertFragmentedDataInbound st) (\<lambda>(s, st).
     bindR (bind_Int_Int64_Int64_Int_Int64 sq s friend mid (ucast sz) friend mid st) (\<lambda>st.
     bindR (execPrepared sq s st) (\<lambda>st.
     bindR (prepare sq StmtInsertFragmentedMetaInbound st) (\<lambda>(s, st).
     bindR (bind_Int_Int_Int64_Int64_Int64_Int_Int_Int64 sq s friend type mid tm tm parts friend mid st)
       (execPrepared sq s)))))"

definition sqlInboundDone :: "sqlite \<Rightarrow> u32 \<Rightarrow> u64 \<Rightarrow> stmts \<Rightarrow> stmts result" where
  "sqlInboundDone sq friend mid st =
     bindR (prepare sq StmtSelectFragmentedInboundDone st) (\<lambda>(s, st).
     bindR (bind_Int_Int64 sq s friend mid st) (\<lambda>st.
     bindR (execPreparedRowOrNot sq s st) (\<lambda>(row, st).
     if row then
       let st = fold (\<lambda>i. issue (Column s i)) [0, 1, 2, 3, 4] st
       in sqlDeleteData sq 0 friend mid (resetStmt s st)
     else Inr (resetStmt s st))))"

definition sqlInboundFragment :: "sqlite \<Rightarrow> bool \<Rightarrow> u32 \<Rightarrow> u32 \<Rightarrow> u64 \<Rightarrow> u32 \<Rightarrow> u32 \<Rightarrow> u64 \<Rightarrow> stmts \<Rightarrow> stmts result" where
  "sqlInboundFragment sq fresh friend type mid parts sz tm st =
     bindR (sqlInsertInbound sq friend type mid parts sz tm st) (\<lambda>st.
     bindR (sqlDataRowid sq 0 friend mid st) (\<lambda>(rowid, st).
     if rowid = 0 then Inr st
     else if \<not> fresh then Inr st
     else bindR (sqlMetaDone sq 0 tm friend mid st) (sqlInboundDone sq friend mid)))"

definition sqlInsertOutbound :: "sqlite \<Rightarrow> u32 \<Rightarrow> u32 \<Rightarrow> u64 \<Rightarrow> u64 \<Rightarrow> u32 \<Rightarrow> byte list \<Rightarrow> u32 \<Rightarrow> stmts \<Rightarrow> stmts result" where
  "sqlInsertOutbound sq friend type mid tm parts bytes receipt st =
     bindR (prepare sq StmtInsertFragmentedMetaOutbound st) (\<lambda>(s, st).
     bindR (bind_Int_Int_Int64_Int64_Int64_Int sq s friend type mid tm tm parts st) (\<lambda>st.
     bindR (execPrepared sq s st) (\<lambda>st.
     bindR (prepare sq StmtInsertFragmentedDataOutbound st) (\<lambda>(s, st).
     bindR (bind_Int_Int64_Blob_Int_Int sq s friend mid bytes parts receipt st) (execPrepared sq s)))))"

definition sqlPartConfirmed :: "sqlite \<Rightarrow> u32 \<Rightarrow> u64 \<Rightarrow> u64 \<Rightarrow> stmts \<Rightarrow> stmts result" where
  "sqlPartConfirmed sq friend mid tm st =
     bindR (sqlDataRowid sq 1 friend mid st) (\<lambda>(rowid, st).
     if rowid = 0 then Inl Aborted else sqlMetaDone sq 1 tm friend mid st)"

text \<open>
  \<open>dbLoadPendingSentMessages\<close>: the rows are fetched while the callback runs, which deletes the row of
  a message that it discards; \<open>discard\<close> says which one, if any.  \<open>fuel\<close> bounds the number of rows.
\<close>

fun sqlPendingLoop :: "nat \<Rightarrow> sqlite \<Rightarrow> (sqcall list \<Rightarrow> (u32 \<times> u64) option) \<Rightarrow> stmt \<Rightarrow> stmts \<Rightarrow> stmts result" where
  "sqlPendingLoop 0 sq discard s st = Inl Diverges"
| "sqlPendingLoop (Suc fuel) sq discard s st =
     bindR (execPreparedRowOrNot sq s st) (\<lambda>(row, st).
     if row then
       let st = fold (\<lambda>i. issue (Column s i)) [0..<12] st
       in bindR (case discard (s_log st) of None \<Rightarrow> Inr st | Some (friend, mid) \<Rightarrow> sqlDeleteData sq 1 friend mid st)
            (sqlPendingLoop fuel sq discard s)
     else Inr st)"

definition sqlLoadPending :: "nat \<Rightarrow> sqlite \<Rightarrow> (sqcall list \<Rightarrow> (u32 \<times> u64) option) \<Rightarrow> stmts \<Rightarrow> stmts result" where
  "sqlLoadPending fuel sq discard st =
     bindR (prepare sq StmtSelectFragmentedOutboundPending st) (\<lambda>(s, st).
     bindR (sqlPendingLoop fuel sq discard s st) (\<lambda>st. Inr (resetStmt s st)))"

text \<open>The operations of \<open>database.c\<close> between initialisation and shutdown.\<close>

datatype sqlop =
    InboundFragment bool u32 u32 u64 u32 u32 u64
  | InsertOutbound u32 u32 u64 u64 u32 "byte list" u32
  | PartConfirmed u32 u64 u64
  | LoadPending nat "sqcall list \<Rightarrow> (u32 \<times> u64) option"
  | ClearPending u32 u64

fun runOp :: "sqlite \<Rightarrow> sqlop \<Rightarrow> stmts \<Rightarrow> stmts result" where
  "runOp sq (InboundFragment fresh friend type mid parts sz tm) st = sqlInboundFragment sq fresh friend type mid parts sz tm st"
| "runOp sq (InsertOutbound friend type mid tm parts bytes receipt) st = sqlInsertOutbound sq friend type mid tm parts bytes receipt st"
| "runOp sq (PartConfirmed friend mid tm) st = sqlPartConfirmed sq friend mid tm st"
| "runOp sq (LoadPending fuel discard) st = sqlLoadPending fuel sq discard st"
| "runOp sq (ClearPending friend mid) st = sqlDeleteData sq 1 friend mid st"

fun runOps :: "sqlite \<Rightarrow> sqlop list \<Rightarrow> stmts \<Rightarrow> stmts result" where
  "runOps sq [] st = Inr st"
| "runOps sq (op # ops) st = bindR (runOp sq op st) (runOps sq ops)"

subsection \<open>The contract of SQLite\<close>

definition paramCount :: "string \<Rightarrow> nat" where
  "paramCount sql = length (filter (\<lambda>c. c = CHR ''?'') sql)"

record sobj =
  o_sql :: string
  o_bound :: "nat set"
  o_active :: bool

text \<open>
  How the calls act on the statements that exist: a statement is bound, within its parameters, while
  it is not being executed, and executed with all parameters bound.
\<close>

inductive api :: "(stmt \<Rightarrow> sobj option) \<Rightarrow> sqcall \<Rightarrow> (stmt \<Rightarrow> sobj option) \<Rightarrow> bool" where
  api_prepare: "h s = None \<Longrightarrow> api h (Prepare sql s) (h(s \<mapsto> \<lparr>o_sql = sql, o_bound = {}, o_active = False\<rparr>))"
| api_bind: "h s = Some x \<Longrightarrow> \<not> o_active x \<Longrightarrow> n \<in> {1..paramCount (o_sql x)} \<Longrightarrow>
     api h (Bind s n v) (h(s \<mapsto> x\<lparr>o_bound := insert n (o_bound x)\<rparr>))"
| api_step: "h s = Some x \<Longrightarrow> {1..paramCount (o_sql x)} \<subseteq> o_bound x \<Longrightarrow> api h (Step s) (h(s \<mapsto> x\<lparr>o_active := True\<rparr>))"
| api_reset: "h s = Some x \<Longrightarrow> api h (Reset s) (h(s \<mapsto> x\<lparr>o_active := False\<rparr>))"
| api_column: "h s = Some x \<Longrightarrow> o_active x \<Longrightarrow> api h (Column s i) h"
| api_finalize: "h s = Some x \<Longrightarrow> api h (Finalize s) (h(s := None))"
| api_exec: "api h (Exec sql) h"

inductive_cases api_stepE: "api h (Step s) h'"

inductive apis :: "sqcall list \<Rightarrow> (stmt \<Rightarrow> sobj option) \<Rightarrow> bool" where
  apis_Nil: "apis [] Map.empty"
| apis_snoc: "apis log h \<Longrightarrow> api h c h' \<Longrightarrow> apis (log @ [c]) h'"

inductive_cases apis_snocE: "apis (log @ [c]) h'"

definition lawful :: "sqcall list \<Rightarrow> bool" where
  "lawful log \<longleftrightarrow> (\<exists>h. apis log h)"

lemma paramCount_sqlOf [simp]:
  "paramCount (sqlOf StmtInsertFragmentedDataInbound) = 5"
  "paramCount (sqlOf StmtInsertFragmentedMetaInbound) = 8"
  "paramCount (sqlOf StmtSelectRowidFromFragmentedMeta) = 3"
  "paramCount (sqlOf StmtInsertFragmentedMetaOutbound) = 6"
  "paramCount (sqlOf StmtInsertFragmentedDataOutbound) = 5"
  "paramCount (sqlOf StmtUpdateFragmentedMeta) = 4"
  "paramCount (sqlOf StmtSelectFragmentedInboundDone) = 2"
  "paramCount (sqlOf StmtSelectFragmentedOutboundPending) = 0"
  "paramCount (sqlOf StmtDeleteFragmentedData) = 3"
  "paramCount (sqlOf StmtReadDbName) = 0"
  by (simp_all add: paramCount_def)

declare sqlOf.simps [simp del]

subsection \<open>The invariant\<close>

text \<open>
  The statements in use are exactly those of the static variables, \<open>readDbName\<close>'s excepted, each with
  its own text.  At least the parameters \<open>B v\<close> are bound, and only those of \<open>A\<close> are being executed.
\<close>

definition obj_ok :: "stmtVar set \<Rightarrow> (stmtVar \<Rightarrow> nat set) \<Rightarrow> (stmt \<Rightarrow> sobj option) \<Rightarrow> stmts \<Rightarrow> bool" where
  "obj_ok A B h st \<longleftrightarrow>
     (\<forall>v s. v \<noteq> StmtReadDbName \<longrightarrow> s_vars st v = Some s \<longrightarrow>
        (\<exists>x. h s = Some x \<and> o_sql x = sqlOf v \<and> B v \<subseteq> o_bound x \<and> (o_active x \<longrightarrow> v \<in> A))) \<and>
     (\<forall>v. s_vars st v = None \<longrightarrow> B v = {}) \<and>
     (\<forall>s x. h s = Some x \<longrightarrow> s < s_brk st \<and> (\<exists>v. v \<noteq> StmtReadDbName \<and> s_vars st v = Some s)) \<and>
     (\<forall>v v' s. v \<noteq> StmtReadDbName \<longrightarrow> v' \<noteq> StmtReadDbName \<longrightarrow> s_vars st v = Some s \<longrightarrow> s_vars st v' = Some s \<longrightarrow> v = v')"

definition stmts_ok :: "stmtVar set \<Rightarrow> (stmtVar \<Rightarrow> nat set) \<Rightarrow> stmts \<Rightarrow> bool" where
  "stmts_ok A B st \<longleftrightarrow> (\<exists>h. apis (s_log st) h \<and> obj_ok A B h st)"

abbreviation idle :: "stmts \<Rightarrow> bool" where
  "idle \<equiv> stmts_ok {} (\<lambda>_. {})"

text \<open>The object of a variable, and what a change of it does to the invariant.\<close>

lemma obj_ok_var:
  assumes "obj_ok A B h st" "v \<noteq> StmtReadDbName" "s_vars st v = Some s"
  obtains x where "h s = Some x" "o_sql x = sqlOf v" "B v \<subseteq> o_bound x" "o_active x \<longrightarrow> v \<in> A"
  using assms unfolding obj_ok_def by blast

lemma obj_ok_weaken:
  assumes "obj_ok A B h st" "A \<subseteq> A'" "\<And>v. B' v \<subseteq> B v"
  shows "obj_ok A' B' h st"
proof -
  have "\<exists>x. h s = Some x \<and> o_sql x = sqlOf v \<and> B' v \<subseteq> o_bound x \<and> (o_active x \<longrightarrow> v \<in> A')"
    if "v \<noteq> StmtReadDbName" "s_vars st v = Some s" for v s
    using obj_ok_var [OF assms(1) that] assms(2) assms(3) [of v] by (metis order_trans subset_iff)
  moreover have "B' v = {}" if "s_vars st v = None" for v using assms(1) that assms(3) [of v] by (simp add: obj_ok_def)
  ultimately show ?thesis using assms(1) by (simp add: obj_ok_def)
qed

lemma stmts_ok_weaken: "stmts_ok A B st \<Longrightarrow> A \<subseteq> A' \<Longrightarrow> (\<And>v. B' v \<subseteq> B v) \<Longrightarrow> stmts_ok A' B' st"
  unfolding stmts_ok_def using obj_ok_weaken by metis

lemma issue_simps [simp]: "s_vars (issue c st) = s_vars st" "s_brk (issue c st) = s_brk st"
  "s_log (issue c st) = s_log st @ [c]"
  by (simp_all add: issue_def)

lemma obj_ok_change:
  assumes "obj_ok A B h st" "v \<noteq> StmtReadDbName" "s_vars st v = Some s" "o_sql x = sqlOf v" "B' \<subseteq> o_bound x"
    "o_active x \<longrightarrow> v \<in> A'" "A - {v} \<subseteq> A'" "s_vars st' = s_vars st" "s_brk st' = s_brk st"
  shows "obj_ok A' (B(v := B')) (h(s \<mapsto> x)) st'"
proof -
  have inj: "v' = v" if "v' \<noteq> StmtReadDbName" "s_vars st v' = Some s" for v'
    using assms(1-3) that by (auto simp: obj_ok_def)
  have "\<exists>y. (h(s \<mapsto> x)) t = Some y \<and> o_sql y = sqlOf u \<and> (B(v := B')) u \<subseteq> o_bound y \<and> (o_active y \<longrightarrow> u \<in> A')"
    if u: "u \<noteq> StmtReadDbName" "s_vars st u = Some t" for u t
  proof (cases "u = v")
    case True
    then show ?thesis using assms(3-6) u(2) by simp
  next
    case False
    moreover have "t \<noteq> s" using False inj u by blast
    ultimately show ?thesis using obj_ok_var [OF assms(1) u] assms(7) by (metis Diff_iff fun_upd_other singletonD subset_iff)
  qed
  moreover have "(B(v := B')) u = {}" if "s_vars st u = None" for u
    using assms(1,3) that by (auto simp: obj_ok_def)
  moreover have "t < s_brk st \<and> (\<exists>u. u \<noteq> StmtReadDbName \<and> s_vars st u = Some t)" if "(h(s \<mapsto> x)) t = Some y" for t y
    using assms(1-3) that unfolding obj_ok_def by (cases "t = s") (metis fun_upd_other)+
  moreover have "\<forall>u u' t. u \<noteq> StmtReadDbName \<longrightarrow> u' \<noteq> StmtReadDbName \<longrightarrow> s_vars st u = Some t \<longrightarrow> s_vars st u' = Some t \<longrightarrow> u = u'"
    using assms(1) by (simp add: obj_ok_def)
  ultimately show ?thesis unfolding obj_ok_def assms(8,9) by blast
qed

subsection \<open>The functions keep the invariant\<close>

lemma stmts_okI: "apis (s_log st) h \<Longrightarrow> obj_ok A B h st \<Longrightarrow> stmts_ok A B st"
  by (auto simp: stmts_ok_def)

lemma issue_apis: "apis (s_log st) h \<Longrightarrow> api h c h' \<Longrightarrow> apis (s_log (issue c st)) h'"
  by (simp add: apis_snoc)

lemma mustOk_eq: "mustOk sq c st = Inr st' \<longleftrightarrow> sq_rc sq (s_log st) c = SQLITE_OK \<and> st' = issue c st"
  by (auto simp: mustOk_def)

text \<open>A variable and its statement.\<close>

lemma stmts_okE:
  assumes "stmts_ok A B st" "v \<noteq> StmtReadDbName" "s_vars st v = Some s"
  obtains h x where "apis (s_log st) h" "obj_ok A B h st" "h s = Some x" "o_sql x = sqlOf v" "B v \<subseteq> o_bound x"
    "o_active x \<longrightarrow> v \<in> A"
  using assms obj_ok_var unfolding stmts_ok_def by metis

lemma prepare_ok:
  assumes "stmts_ok A B st" "v \<noteq> StmtReadDbName" "prepare sq v st = Inr (s, st')"
  shows "stmts_ok A B st' \<and> s_vars st' v = Some s"
proof (cases "s_vars st v")
  case (Some t)
  with assms show ?thesis by (simp add: prepare_def)
next
  case None
  then have s: "s = s_brk st" and st': "st' = (issue (Prepare (sqlOf v) s) st)\<lparr>s_brk := s + 1, s_vars := (s_vars st)(v \<mapsto> s)\<rparr>"
    using assms(3) by (auto simp: prepare_def prepareStatement_def bindR_eq_Inr mustOk_eq)
  obtain h where h: "apis (s_log st) h" "obj_ok A B h st" using assms(1) by (auto simp: stmts_ok_def)
  let ?x = "\<lparr>o_sql = sqlOf v, o_bound = {}, o_active = False\<rparr>"
  have "h s \<noteq> Some y" for y using h(2) s unfolding obj_ok_def by blast
  then have fresh: "h s = None" by (cases "h s") blast+
  have old: "t \<noteq> s" if u: "u \<noteq> StmtReadDbName" "s_vars st u = Some t" for u t
  proof -
    obtain x where "h t = Some x" by (rule obj_ok_var [OF h(2) u])
    then show ?thesis using fresh by auto
  qed
  have vars': "s_vars st' u = Some t \<longleftrightarrow> (if u = v then t = s else s_vars st u = Some t)" for u t
    by (auto simp: st')
  have "\<exists>x. (h(s \<mapsto> ?x)) t = Some x \<and> o_sql x = sqlOf u \<and> B u \<subseteq> o_bound x \<and> (o_active x \<longrightarrow> u \<in> A)"
    if u: "u \<noteq> StmtReadDbName" "s_vars st' u = Some t" for u t
  proof (cases "u = v")
    case True
    then show ?thesis using u(2) h(2) None by (simp add: vars' obj_ok_def)
  next
    case False
    with u have ut: "s_vars st u = Some t" by (simp add: vars')
    with old [OF u(1)] show ?thesis using obj_ok_var [OF h(2) u(1) ut] by (metis fun_upd_other)
  qed
  moreover have "B u = {}" if "s_vars st' u = None" for u
    using h(2) that by (simp add: st' obj_ok_def split: if_splits)
  moreover have "t < s_brk st' \<and> (\<exists>u. u \<noteq> StmtReadDbName \<and> s_vars st' u = Some t)" if "(h(s \<mapsto> ?x)) t = Some y" for t y
  proof (cases "t = s")
    case True
    then show ?thesis using assms(2) by (auto simp: st')
  next
    case False
    with that h(2) s obtain u where "t < s" "u \<noteq> StmtReadDbName" "s_vars st u = Some t" unfolding obj_ok_def by auto
    moreover from this None have "u \<noteq> v" by auto
    ultimately show ?thesis by (auto simp: st')
  qed
  moreover have "u = u'" if "u \<noteq> StmtReadDbName" "u' \<noteq> StmtReadDbName" "s_vars st' u = Some t" "s_vars st' u' = Some t" for u u' t
    using that h(2) old unfolding vars' obj_ok_def by (auto split: if_splits)
  ultimately have "obj_ok A B (h(s \<mapsto> ?x)) st'" unfolding obj_ok_def by blast
  moreover have "apis (s_log st') (h(s \<mapsto> ?x))"
    using apis_snoc [OF h(1) api_prepare [where h = h and s = s, OF fresh]] by (simp add: st')
  ultimately show ?thesis by (auto simp: st' intro: stmts_okI)
qed

lemma bind_ok:
  assumes "stmts_ok A B st" "v \<noteq> StmtReadDbName" "s_vars st v = Some s" "v \<notin> A" "n \<in> {1..paramCount (sqlOf v)}"
  shows "stmts_ok A (B(v := insert n (B v))) (issue (Bind s n val) st)"
proof -
  obtain h x where x: "apis (s_log st) h" "obj_ok A B h st" "h s = Some x" "o_sql x = sqlOf v" "B v \<subseteq> o_bound x"
    "o_active x \<longrightarrow> v \<in> A"
    by (rule stmts_okE [OF assms(1-3)])
  have "api h (Bind s n val) (h(s \<mapsto> x\<lparr>o_bound := insert n (o_bound x)\<rparr>))" using x assms(4,5) by (intro api_bind) simp_all
  moreover have "obj_ok A (B(v := insert n (B v))) (h(s \<mapsto> x\<lparr>o_bound := insert n (o_bound x)\<rparr>)) (issue (Bind s n val) st)"
    using x by (intro obj_ok_change [OF x(2) assms(2,3)]) auto
  ultimately show ?thesis using issue_apis [OF x(1)] stmts_okI by blast
qed

lemma step_ok:
  assumes "stmts_ok A B st" "v \<noteq> StmtReadDbName" "s_vars st v = Some s" "{1..paramCount (sqlOf v)} \<subseteq> B v"
  shows "stmts_ok (insert v A) B (issue (Step s) st)"
proof -
  obtain h x where x: "apis (s_log st) h" "obj_ok A B h st" "h s = Some x" "o_sql x = sqlOf v" "B v \<subseteq> o_bound x"
    "o_active x \<longrightarrow> v \<in> A"
    by (rule stmts_okE [OF assms(1-3)])
  have "api h (Step s) (h(s \<mapsto> x\<lparr>o_active := True\<rparr>))" using x assms(4) by (intro api_step) auto
  moreover have "obj_ok (insert v A) (B(v := B v)) (h(s \<mapsto> x\<lparr>o_active := True\<rparr>)) (issue (Step s) st)"
    using x by (intro obj_ok_change [OF x(2) assms(2,3)]) auto
  ultimately show ?thesis using issue_apis [OF x(1)] stmts_okI by (metis fun_upd_triv)
qed

lemma reset_ok:
  assumes "stmts_ok (insert v A) B st" "v \<noteq> StmtReadDbName" "s_vars st v = Some s"
  shows "stmts_ok (A - {v}) B (resetStmt s st)"
proof -
  obtain h x where x: "apis (s_log st) h" "obj_ok (insert v A) B h st" "h s = Some x" "o_sql x = sqlOf v" "B v \<subseteq> o_bound x"
    by (rule stmts_okE [OF assms(1-3)])
  have "api h (Reset s) (h(s \<mapsto> x\<lparr>o_active := False\<rparr>))" using x(3) by (rule api_reset)
  moreover have "obj_ok (A - {v}) (B(v := B v)) (h(s \<mapsto> x\<lparr>o_active := False\<rparr>)) (issue (Reset s) st)"
    using x by (intro obj_ok_change [OF x(2) assms(2,3)]) auto
  ultimately show ?thesis using issue_apis [OF x(1)] stmts_okI unfolding resetStmt_def by (metis fun_upd_triv)
qed

text \<open>The executed statement stays active until it is reset.\<close>

definition stepped :: "stmtVar \<Rightarrow> stmt \<Rightarrow> stmtVar set \<Rightarrow> (stmtVar \<Rightarrow> nat set) \<Rightarrow> stmts \<Rightarrow> bool" where
  "stepped v s A B st \<longleftrightarrow> (\<exists>h x. apis (s_log st) h \<and> obj_ok (insert v A) B h st \<and> h s = Some x \<and> o_active x) \<and>
     v \<noteq> StmtReadDbName \<and> s_vars st v = Some s"

lemma stepped_ok: "stepped v s A B st \<Longrightarrow> stmts_ok (insert v A) B st \<and> v \<noteq> StmtReadDbName \<and> s_vars st v = Some s"
  by (auto simp: stepped_def stmts_ok_def)

lemma step_stepped:
  assumes "stmts_ok A B st" "v \<noteq> StmtReadDbName" "s_vars st v = Some s" "{1..paramCount (sqlOf v)} \<subseteq> B v"
  shows "stepped v s A B (issue (Step s) st)"
proof -
  obtain h where h: "apis (s_log st @ [Step s]) h" "obj_ok (insert v A) B h (issue (Step s) st)"
    using step_ok [OF assms] by (auto simp: stmts_ok_def)
  from h(1) obtain h0 where "api h0 (Step s) h" by (auto elim: apis_snocE)
  then obtain x where "h s = Some x" "o_active x" by (auto elim: api_stepE)
  with h assms(2,3) show ?thesis by (auto simp: stepped_def)
qed

lemma column_stepped:
  assumes "stepped v s A B st" shows "stepped v s A B (issue (Column s i) st)"
proof -
  obtain h x where h: "apis (s_log st) h" "obj_ok (insert v A) B h st" "h s = Some x" "o_active x"
    using assms by (auto simp: stepped_def)
  have "obj_ok (insert v A) B h (issue (Column s i) st)" using h(2) by (simp add: obj_ok_def)
  moreover have "api h (Column s i) h" using h(3,4) by (rule api_column)
  ultimately show ?thesis using issue_apis [OF h(1)] h(3,4) assms by (auto simp: stepped_def)
qed

lemma columns_stepped: "stepped v s A B st \<Longrightarrow> stepped v s A B (fold (\<lambda>i. issue (Column s i)) is st)"
  by (induction "is" arbitrary: st) (simp_all add: column_stepped)

lemma reset_stepped: "stepped v s A B st \<Longrightarrow> v \<notin> A \<Longrightarrow> stmts_ok A B (resetStmt s st)"
  using reset_ok [of v A B st s] stepped_ok [of v s A B st] by simp

text \<open>Binding all parameters in their order.\<close>

fun bindAll :: "sqlite \<Rightarrow> stmt \<Rightarrow> nat \<Rightarrow> boundval list \<Rightarrow> stmts \<Rightarrow> stmts result" where
  "bindAll sq s n [] st = Inr st"
| "bindAll sq s n (val # vals) st = bindR (mustOk sq (Bind s n val) st) (bindAll sq s (n + 1) vals)"

lemmas bind_defs = bindInt_def bindInt64_def bindBlob_def

lemma bind_eqs:
  "bind_Int_Int64 sq s i1 j2 st = bindAll sq s 1 [VInt (sint i1), VInt64 (sint j2)] st"
  "bind_Int_Int_Int64 sq s i1 i2 j3 st = bindAll sq s 1 [VInt (sint i1), VInt (sint i2), VInt64 (sint j3)] st"
  "bind_Int_Int64_Int_Int64 sq s i1 j2 i3 j4 st =
     bindAll sq s 1 [VInt (sint i1), VInt64 (sint j2), VInt (sint i3), VInt64 (sint j4)] st"
  "bind_Int_Int64_Blob_Int_Int sq s i1 j2 bs i4 i5 st =
     bindAll sq s 1 [VInt (sint i1), VInt64 (sint j2), VBlob bs, VInt (sint i4), VInt (sint i5)] st"
  "bind_Int_Int64_Int64_Int_Int64 sq s i1 j2 j3 i4 j5 st =
     bindAll sq s 1 [VInt (sint i1), VInt64 (sint j2), VInt64 (sint j3), VInt64 (sint (scast i4 :: u64)), VInt64 (sint j5)] st"
  "bind_Int_Int_Int64_Int64_Int64_Int sq s i1 i2 j3 j4 j5 i6 st =
     bindAll sq s 1 [VInt (sint i1), VInt (sint i2), VInt64 (sint j3), VInt64 (sint j4), VInt64 (sint j5), VInt (sint i6)] st"
  "bind_Int_Int_Int64_Int64_Int64_Int_Int_Int64 sq s i1 i2 j3 j4 j5 i6 i7 j8 st =
     bindAll sq s 1 [VInt (sint i1), VInt (sint i2), VInt64 (sint j3), VInt64 (sint j4), VInt64 (sint j5), VInt (sint i6),
       VInt (sint i7), VInt64 (sint j8)] st"
  by (simp_all add: bind_Int_Int64_def bind_Int_Int_Int64_def bind_Int_Int64_Int_Int64_def bind_Int_Int64_Blob_Int_Int_def
      bind_Int_Int64_Int64_Int_Int64_def bind_Int_Int_Int64_Int64_Int64_Int_def
      bind_Int_Int_Int64_Int64_Int64_Int_Int_Int64_def bind_defs bindR_def numeral_eq_Suc split: sum.split)

lemma bindAll_ok:
  assumes "v \<noteq> StmtReadDbName" "v \<notin> A"
  shows "stmts_ok A B st \<Longrightarrow> s_vars st v = Some s \<Longrightarrow> 1 \<le> n \<Longrightarrow> n + length vals \<le> paramCount (sqlOf v) + 1 \<Longrightarrow>
    bindAll sq s n vals st = Inr st' \<Longrightarrow> stmts_ok A (B(v := B v \<union> {n..<n + length vals})) st' \<and> s_vars st' = s_vars st"
proof (induction vals arbitrary: n B st)
  case Nil
  then show ?case by simp
next
  case (Cons val vals)
  then have rest: "bindAll sq s (n + 1) vals (issue (Bind s n val) st) = Inr st'"
    by (auto simp: bindR_eq_Inr mustOk_eq)
  have "stmts_ok A (B(v := insert n (B v))) (issue (Bind s n val) st)"
    using Cons.prems by (intro bind_ok [OF _ assms(1) _ assms(2)]) simp_all
  note ih = Cons.IH [OF this _ _ _ rest]
  have "insert n (B v) \<union> {n + 1..<n + 1 + length vals} = B v \<union> {n..<n + length (val # vals)}" by auto
  with ih Cons.prems show ?case by (simp only: fun_upd_upd fun_upd_same) simp
qed

text \<open>Preparing a statement and binding all its parameters; what the other parameters were does not matter.\<close>

lemma prepare_bindAll:
  assumes "stmts_ok A B st" "v \<noteq> StmtReadDbName" "v \<notin> A" "prepare sq v st = Inr (s, st1)"
    "bindAll sq s 1 vals st1 = Inr st2" "length vals = paramCount (sqlOf v)"
  shows "stmts_ok A (B(v := B v \<union> {1..paramCount (sqlOf v)})) st2 \<and> s_vars st2 v = Some s"
proof -
  have p: "stmts_ok A B st1" "s_vars st1 v = Some s" using prepare_ok [OF assms(1,2,4)] by simp_all
  have "{1..<1 + length vals} = {1..paramCount (sqlOf v)}" using assms(6) by auto
  then show ?thesis using bindAll_ok [OF assms(2,3) p _ _ assms(5)] assms(6) p(2) by simp
qed

lemma forget_bound: "stmts_ok A (B(v := B v \<union> N)) st \<Longrightarrow> stmts_ok A B st"
  by (rule stmts_ok_weaken) auto

lemma stepped_forget:
  assumes "stepped v s A (B(v := B v \<union> N)) st" shows "stepped v s A B st"
proof -
  have "obj_ok (insert v A) B h st" if "obj_ok (insert v A) (B(v := B v \<union> N)) h st" for h
    using that by (rule obj_ok_weaken) auto
  with assms show ?thesis unfolding stepped_def by blast
qed

text \<open>A statement that is prepared, bound and executed.\<close>

lemma run_stepped:
  assumes "stmts_ok A B st" "v \<noteq> StmtReadDbName" "v \<notin> A" "prepare sq v st = Inr (s, st1)"
    "bindAll sq s 1 vals st1 = Inr st2" "length vals = paramCount (sqlOf v)"
  shows "stepped v s A B (issue (Step s) st2)"
proof -
  have "stmts_ok A (B(v := B v \<union> {1..paramCount (sqlOf v)})) st2" "s_vars st2 v = Some s"
    using prepare_bindAll [OF assms] by simp_all
  then have "stepped v s A (B(v := B v \<union> {1..paramCount (sqlOf v)})) (issue (Step s) st2)"
    by (intro step_stepped) (use assms(2) in auto)
  then show ?thesis by (rule stepped_forget)
qed

text \<open>The ways to execute a statement.\<close>

lemma execPrepared_eq: "execPrepared sq s st = Inr st' \<longleftrightarrow>
    sq_rc sq (s_log st) (Step s) = SQLITE_DONE \<and> st' = resetStmt s (issue (Step s) st)"
  by (auto simp: execPrepared_def)

lemma run_execPrepared:
  assumes "stmts_ok A B st" "v \<noteq> StmtReadDbName" "v \<notin> A" "length vals = paramCount (sqlOf v)"
    "bindR (prepare sq v st) (\<lambda>(s, st). bindR (bindAll sq s 1 vals st) (execPrepared sq s)) = Inr st'"
  shows "stmts_ok A B st'"
proof -
  obtain s st1 st2 where st: "prepare sq v st = Inr (s, st1)" "bindAll sq s 1 vals st1 = Inr st2"
    "st' = resetStmt s (issue (Step s) st2)"
    using assms(5) by (auto simp: bindR_eq_Inr execPrepared_eq)
  have "stepped v s A B (issue (Step s) st2)" by (rule run_stepped [OF assms(1-3) st(1,2) assms(4)])
  then show ?thesis unfolding st(3) using assms(3) by (rule reset_stepped)
qed

lemma sqlMetaDone_ok:
  assumes "stmts_ok A B st" "StmtUpdateFragmentedMeta \<notin> A" "sqlMetaDone sq outbound tm friend mid st = Inr st'"
  shows "stmts_ok A B st'"
proof -
  from assms(3) have "bindR (prepare sq StmtUpdateFragmentedMeta st) (\<lambda>(s, st).
      bindR (bindAll sq s 1 [VInt (sint (ucast tm :: u32)), VInt64 (sint (scast outbound :: u64)), VInt (sint friend),
        VInt64 (sint mid)] st) (execPrepared sq s)) = Inr st'"
    by (auto simp: sqlMetaDone_def bind_eqs bindR_eq_Inr split: if_splits)
  then show ?thesis by (rule run_execPrepared [OF assms(1) _ assms(2), rotated 2]) simp_all
qed

lemma sqlDeleteData_ok:
  assumes "stmts_ok A B st" "StmtDeleteFragmentedData \<notin> A" "sqlDeleteData sq outbound friend mid st = Inr st'"
  shows "stmts_ok A B st'"
  using assms(3) unfolding sqlDeleteData_def bind_eqs
  by (rule run_execPrepared [OF assms(1) _ assms(2), rotated 2]) simp_all

lemma sqlDataRowid_ok:
  assumes "stmts_ok A B st" "StmtSelectRowidFromFragmentedMeta \<notin> A" "sqlDataRowid sq outbound friend mid st = Inr (rowid, st')"
  shows "stmts_ok A B st'"
proof -
  let ?v = StmtSelectRowidFromFragmentedMeta
  obtain s st1 st2 r where st: "prepare sq ?v st = Inr (s, st1)"
    "bindAll sq s 1 [VInt (sint outbound), VInt (sint friend), VInt64 (sint mid)] st1 = Inr st2"
    "execPreparedInt64 sq s 0 st2 = Inr (r, st')"
    using assms(3) by (auto simp: sqlDataRowid_def bind_eqs bindR_eq_Inr)
  have run: "stepped ?v s A B (issue (Step s) st2)"
    by (rule run_stepped [OF assms(1) _ assms(2) st(1,2)]) simp_all
  from st(3) have "st' = resetStmt s (issue (Column s 0) (issue (Step s) st2)) \<or> st' = resetStmt s (issue (Step s) st2)"
    by (auto simp: execPreparedInt64_def Let_def split: if_splits)
  then show ?thesis using run column_stepped [OF run, of 0] reset_stepped [OF _ assms(2)] by auto
qed

lemma sqlInsertInbound_ok:
  assumes "stmts_ok A B st" "StmtInsertFragmentedDataInbound \<notin> A" "StmtInsertFragmentedMetaInbound \<notin> A"
    "sqlInsertInbound sq friend type mid parts sz tm st = Inr st'"
  shows "stmts_ok A B st'"
proof -
  let ?v1 = StmtInsertFragmentedDataInbound and ?v2 = StmtInsertFragmentedMetaInbound
  obtain st1 where st1: "bindR (prepare sq ?v1 st) (\<lambda>(s, st).
      bindR (bind_Int_Int64_Int64_Int_Int64 sq s friend mid (ucast sz) friend mid st) (execPrepared sq s)) = Inr st1"
    "bindR (prepare sq ?v2 st1) (\<lambda>(s, st).
      bindR (bind_Int_Int_Int64_Int64_Int64_Int_Int_Int64 sq s friend type mid tm tm parts friend mid st) (execPrepared sq s)) = Inr st'"
    using assms(4) by (auto simp: sqlInsertInbound_def bindR_eq_Inr)
  have ok1: "stmts_ok A B st1"
    using st1(1) unfolding bind_eqs by (rule run_execPrepared [OF assms(1) _ assms(2), rotated 2]) simp_all
  show ?thesis
    using st1(2) unfolding bind_eqs by (rule run_execPrepared [OF ok1 _ assms(3), rotated 2]) simp_all
qed

lemma sqlInsertOutbound_ok:
  assumes "stmts_ok A B st" "StmtInsertFragmentedMetaOutbound \<notin> A" "StmtInsertFragmentedDataOutbound \<notin> A"
    "sqlInsertOutbound sq friend type mid tm parts bytes receipt st = Inr st'"
  shows "stmts_ok A B st'"
proof -
  let ?v1 = StmtInsertFragmentedMetaOutbound and ?v2 = StmtInsertFragmentedDataOutbound
  obtain st1 where st1: "bindR (prepare sq ?v1 st) (\<lambda>(s, st).
      bindR (bind_Int_Int_Int64_Int64_Int64_Int sq s friend type mid tm tm parts st) (execPrepared sq s)) = Inr st1"
    "bindR (prepare sq ?v2 st1) (\<lambda>(s, st).
      bindR (bind_Int_Int64_Blob_Int_Int sq s friend mid bytes parts receipt st) (execPrepared sq s)) = Inr st'"
    using assms(4) by (auto simp: sqlInsertOutbound_def bindR_eq_Inr)
  have ok1: "stmts_ok A B st1"
    using st1(1) unfolding bind_eqs by (rule run_execPrepared [OF assms(1) _ assms(2), rotated 2]) simp_all
  show ?thesis
    using st1(2) unfolding bind_eqs by (rule run_execPrepared [OF ok1 _ assms(3), rotated 2]) simp_all
qed

lemma sqlInboundDone_ok:
  assumes "stmts_ok {} B st" "sqlInboundDone sq friend mid st = Inr st'"
  shows "stmts_ok {} B st'"
proof -
  let ?v = StmtSelectFragmentedInboundDone
  obtain s st1 st2 where st: "prepare sq ?v st = Inr (s, st1)"
    "bindAll sq s 1 [VInt (sint friend), VInt64 (sint mid)] st1 = Inr st2"
    "(sqlDeleteData sq 0 friend mid (resetStmt s (fold (\<lambda>i. issue (Column s i)) [0, 1, 2, 3, 4] (issue (Step s) st2))) = Inr st')
     \<or> st' = resetStmt s (issue (Step s) st2)"
    using assms(2) by (auto simp: sqlInboundDone_def bind_eqs bindR_eq_Inr execPreparedRowOrNot_def Let_def split: if_splits)
  have run: "stepped ?v s {} B (issue (Step s) st2)"
    by (rule run_stepped [OF assms(1) _ _ st(1,2)]) simp_all
  from st(3) show ?thesis
  proof
    assume del: "sqlDeleteData sq 0 friend mid
      (resetStmt s (fold (\<lambda>i. issue (Column s i)) [0, 1, 2, 3, 4] (issue (Step s) st2))) = Inr st'"
    show ?thesis by (rule sqlDeleteData_ok [OF reset_stepped [OF columns_stepped [OF run]] _ del]) simp_all
  next
    assume "st' = resetStmt s (issue (Step s) st2)"
    with reset_stepped [OF run] show ?thesis by simp
  qed
qed

lemma sqlInboundFragment_ok:
  assumes "idle st" "sqlInboundFragment sq fresh friend type mid parts sz tm st = Inr st'"
  shows "idle st'"
proof -
  obtain st1 st2 rowid where st: "sqlInsertInbound sq friend type mid parts sz tm st = Inr st1"
    "sqlDataRowid sq 0 friend mid st1 = Inr (rowid, st2)"
    "st' = st2 \<or> (\<exists>st3. sqlMetaDone sq 0 tm friend mid st2 = Inr st3 \<and> sqlInboundDone sq friend mid st3 = Inr st')"
    using assms(2) by (auto simp: sqlInboundFragment_def bindR_eq_Inr split: if_splits)
  have st2: "idle st2"
    using sqlDataRowid_ok [OF sqlInsertInbound_ok [OF assms(1) _ _ st(1)] _ st(2)] by simp
  from st(3) show ?thesis
  proof
    assume "\<exists>st3. sqlMetaDone sq 0 tm friend mid st2 = Inr st3 \<and> sqlInboundDone sq friend mid st3 = Inr st'"
    then show ?thesis using sqlMetaDone_ok [OF st2] sqlInboundDone_ok by blast
  qed (use st2 in simp)
qed

text \<open>Nothing but \<open>destroyPreparedStatement\<close> clears a variable.\<close>

lemma prepare_vars: "prepare sq u st = Inr (t, st') \<Longrightarrow> s_vars st v = Some s \<Longrightarrow> s_vars st' v = Some s"
  by (auto simp: prepare_def prepareStatement_def bindR_eq_Inr mustOk_eq split: option.splits)

lemma bindAll_vars: "bindAll sq t n vals st = Inr st' \<Longrightarrow> s_vars st' = s_vars st"
  by (induction vals arbitrary: n st) (auto simp: bindR_eq_Inr mustOk_eq)

lemma sqlDeleteData_vars:
  assumes "sqlDeleteData sq outbound friend mid st = Inr st'" "s_vars st v = Some s"
  shows "s_vars st' v = Some s"
proof -
  obtain t st1 st2 where "prepare sq StmtDeleteFragmentedData st = Inr (t, st1)"
    "bindAll sq t 1 [VInt (sint outbound), VInt (sint friend), VInt64 (sint mid)] st1 = Inr st2"
    "st' = resetStmt t (issue (Step t) st2)"
    using assms(1) by (auto simp: sqlDeleteData_def bind_eqs bindR_eq_Inr execPrepared_eq)
  then show ?thesis using prepare_vars [OF _ assms(2)] bindAll_vars by (fastforce simp: resetStmt_def)
qed

lemma sqlPendingLoop_ok:
  assumes "v = StmtSelectFragmentedOutboundPending"
  shows "stmts_ok {v} B st \<Longrightarrow> s_vars st v = Some s \<Longrightarrow> sqlPendingLoop fuel sq discard s st = Inr st' \<Longrightarrow>
    stmts_ok {v} B st' \<and> s_vars st' v = Some s"
proof (induction fuel arbitrary: st)
  case (Suc fuel)
  let ?st1 = "issue (Step s) st"
  let ?st2 = "fold (\<lambda>i. issue (Column s i)) [0..<12] ?st1"
  have "stepped v s {v} B ?st1"
    using Suc.prems(1,2) assms by (intro step_stepped) simp_all
  then have st12: "stepped v s {v} B ?st1" "stepped v s {v} B ?st2" by (simp_all add: columns_stepped del: upt_rec_numeral)
  have ok: "stmts_ok {v} B ?st1" "s_vars ?st1 v = Some s" "stmts_ok {v} B ?st2" "s_vars ?st2 v = Some s"
    using st12 [THEN stepped_ok] by simp_all
  obtain row where row: "execPreparedRowOrNot sq s st = Inr (row, ?st1)"
    using Suc.prems(3) by (auto simp: execPreparedRowOrNot_def Let_def split: if_splits)
  show ?case
  proof (cases row)
    case False
    with row Suc.prems(3) ok show ?thesis by simp
  next
    case True
    show ?thesis
    proof (cases "discard (s_log ?st2)")
      case None
      then show ?thesis using Suc.IH [OF ok(3,4)] Suc.prems(3) row True by (simp add: Let_def del: upt_rec_numeral)
    next
      case (Some fm)
      obtain friend mid where fm: "fm = (friend, mid)" by (cases fm)
      obtain st3 where st3: "sqlDeleteData sq 1 friend mid ?st2 = Inr st3" "sqlPendingLoop fuel sq discard s st3 = Inr st'"
        using Suc.prems(3) row True Some fm by (auto simp: Let_def bindR_eq_Inr simp del: upt_rec_numeral)
      have "stmts_ok {v} B st3" by (rule sqlDeleteData_ok [OF ok(3) _ st3(1)]) (simp add: assms)
      moreover have "s_vars st3 v = Some s" by (rule sqlDeleteData_vars [OF st3(1) ok(4)])
      ultimately show ?thesis using Suc.IH st3(2) by blast
    qed
  qed
qed simp

lemma sqlLoadPending_ok:
  assumes "idle st" "sqlLoadPending fuel sq discard st = Inr st'"
  shows "idle st'"
proof -
  let ?v = StmtSelectFragmentedOutboundPending
  obtain s st1 st2 where st: "prepare sq ?v st = Inr (s, st1)" "sqlPendingLoop fuel sq discard s st1 = Inr st2"
    "st' = resetStmt s st2"
    using assms(2) by (auto simp: sqlLoadPending_def bindR_eq_Inr)
  have st1: "idle st1" "s_vars st1 ?v = Some s" using prepare_ok [OF assms(1) _ st(1)] by simp_all
  have "stmts_ok {?v} (\<lambda>_. {}) st1" by (rule stmts_ok_weaken [OF st1(1)]) simp_all
  from sqlPendingLoop_ok [OF refl this st1(2) st(2)]
  have "stmts_ok {?v} (\<lambda>_. {}) st2" "s_vars st2 ?v = Some s" by simp_all
  from reset_ok [OF this(1) _ this(2)] show ?thesis using st(3) by simp
qed

lemma runOps_ok: "idle st \<Longrightarrow> runOps sq ops st = Inr st' \<Longrightarrow> idle st'"
proof (induction ops arbitrary: st)
  case (Cons op ops)
  then obtain st1 where st1: "runOp sq op st = Inr st1" "runOps sq ops st1 = Inr st'" by (auto simp: bindR_eq_Inr)
  have "idle st1"
  proof (cases op)
    case (InboundFragment fresh friend type mid parts sz tm)
    with st1(1) show ?thesis using sqlInboundFragment_ok [OF Cons.prems(1)] by simp
  next
    case (InsertOutbound friend type mid tm parts bytes receipt)
    with st1(1) show ?thesis using sqlInsertOutbound_ok [OF Cons.prems(1)] by simp
  next
    case (PartConfirmed friend mid tm)
    with st1(1) obtain rowid st2 where "sqlDataRowid sq 1 friend mid st = Inr (rowid, st2)" "sqlMetaDone sq 1 tm friend mid st2 = Inr st1"
      by (auto simp: sqlPartConfirmed_def bindR_eq_Inr split: if_splits)
    then show ?thesis using sqlDataRowid_ok [OF Cons.prems(1)] sqlMetaDone_ok by blast
  next
    case (LoadPending fuel discard)
    with st1(1) show ?thesis using sqlLoadPending_ok [OF Cons.prems(1)] by simp
  next
    case (ClearPending friend mid)
    with st1(1) show ?thesis using sqlDeleteData_ok [OF Cons.prems(1)] by simp
  qed
  then show ?case by (rule Cons.IH [OF _ st1(2)])
qed simp

text \<open>The start: \<open>readDbName\<close> keeps the contract once, and leaves a pointer to its finalized statement.\<close>

lemma apis_append1: "apis log h \<Longrightarrow> api h c h' \<Longrightarrow> log' = log @ [c] \<Longrightarrow> apis log' h'"
  by (simp add: apis_snoc)

lemma readDbName_log:
  assumes "sqlReadDbName sq stmts0 = Inr st"
  shows "s_vars st = (\<lambda>_. None)(StmtReadDbName \<mapsto> 1)" "s_brk st = 2"
    "s_log st = [Prepare (sqlOf StmtReadDbName) 1, Step 1, Reset 1, Finalize 1] \<or>
     s_log st = [Prepare (sqlOf StmtReadDbName) 1, Step 1, Column 1 1, Reset 1, Finalize 1]"
  using assms by (auto simp: sqlReadDbName_def prepare_def prepareStatement_def stmts0_def mustOk_eq bindR_eq_Inr
      execPreparedText_def Let_def resetStmt_def issue_def split: if_splits)

lemma readDbName_idle:
  assumes "sqlReadDbName sq stmts0 = Inr st"
  shows "idle st"
proof -
  let ?x = "\<lparr>o_sql = sqlOf StmtReadDbName, o_bound = {}, o_active = False\<rparr>"
  have 1: "apis [Prepare (sqlOf StmtReadDbName) 1] [1 \<mapsto> ?x]"
    by (rule apis_append1 [OF apis_Nil api_prepare]) simp_all
  have "api [1 \<mapsto> ?x] (Step 1) ([1 \<mapsto> ?x](1 \<mapsto> ?x\<lparr>o_active := True\<rparr>))" by (rule api_step) simp_all
  from apis_append1 [OF 1 this refl]
  have 2: "apis [Prepare (sqlOf StmtReadDbName) 1, Step 1] [1 \<mapsto> ?x\<lparr>o_active := True\<rparr>]" by simp
  have c: "api [1 \<mapsto> ?x\<lparr>o_active := True\<rparr>] (Column 1 1) [1 \<mapsto> ?x\<lparr>o_active := True\<rparr>]"
    by (rule api_column [where x = "?x\<lparr>o_active := True\<rparr>"]) simp_all
  have "api [1 \<mapsto> ?x\<lparr>o_active := True\<rparr>] (Reset 1) ([1 \<mapsto> ?x\<lparr>o_active := True\<rparr>](1 \<mapsto> ?x\<lparr>o_active := True\<rparr>\<lparr>o_active := False\<rparr>))"
    by (rule api_reset) simp
  then have r: "api [1 \<mapsto> ?x\<lparr>o_active := True\<rparr>] (Reset 1) [1 \<mapsto> ?x]" by simp
  have "api [1 \<mapsto> ?x] (Finalize 1) ([1 \<mapsto> ?x](1 := None))" by (rule api_finalize [where x = ?x]) simp
  then have f: "api [1 \<mapsto> ?x] (Finalize 1) Map.empty" by simp
  have "apis (s_log st) Map.empty"
    using apis_snoc [OF apis_snoc [OF 2 r] f] apis_snoc [OF apis_snoc [OF apis_snoc [OF 2 c] r] f] readDbName_log(3) [OF assms]
    by auto
  moreover have "obj_ok {} (\<lambda>_. {}) Map.empty st" by (simp add: obj_ok_def readDbName_log [OF assms])
  ultimately show ?thesis by (rule stmts_okI)
qed

text \<open>Destroying the statements.\<close>

lemma destroy_idle:
  assumes "idle st" "v \<noteq> StmtReadDbName"
  shows "idle (destroyPreparedStatement v st)"
proof (cases "s_vars st v")
  case None
  with assms show ?thesis by (simp add: destroyPreparedStatement_def)
next
  case (Some s)
  let ?st = "destroyPreparedStatement v st"
  obtain h x where h: "apis (s_log st) h" "obj_ok {} (\<lambda>_. {}) h st" "h s = Some x"
    by (rule stmts_okE [OF assms Some])
  have st: "s_vars ?st = (s_vars st)(v := None)" "s_brk ?st = s_brk st" "s_log ?st = s_log st @ [Finalize s]"
    by (simp_all add: destroyPreparedStatement_def Some)
  have other: "t \<noteq> s" if "u \<noteq> StmtReadDbName" "s_vars st u = Some t" "u \<noteq> v" for u t
    using h(2) that assms(2) Some by (auto simp: obj_ok_def)
  have "apis (s_log ?st) (h(s := None))"
    unfolding st(3) using h(1) by (rule apis_snoc) (rule api_finalize [where h = h, OF h(3)])
  moreover have "obj_ok {} (\<lambda>_. {}) (h(s := None)) ?st"
  proof -
    have "\<exists>y. (h(s := None)) t = Some y \<and> o_sql y = sqlOf u \<and> \<not> o_active y"
      if "u \<noteq> StmtReadDbName" "s_vars ?st u = Some t" for u t
    proof -
      have u: "u \<noteq> v" "s_vars st u = Some t" using that(2) by (auto simp: st split: if_splits)
      then have "t \<noteq> s" using other that(1) by blast
      with h(2) that(1) u(2) show ?thesis by (simp add: obj_ok_def)
    qed
    moreover have "t < s_brk st \<and> (\<exists>u. u \<noteq> StmtReadDbName \<and> s_vars ?st u = Some t)" if "(h(s := None)) t = Some y" for t y
    proof -
      have t: "t \<noteq> s" "h t = Some y" using that by (auto split: if_splits)
      then obtain u where "t < s_brk st" "u \<noteq> StmtReadDbName" "s_vars st u = Some t" using h(2) unfolding obj_ok_def by blast
      moreover have "u \<noteq> v" using \<open>s_vars st u = Some t\<close> Some t(1) by auto
      ultimately show ?thesis by (auto simp: st)
    qed
    moreover have "u = u'" if "u \<noteq> StmtReadDbName" "u' \<noteq> StmtReadDbName" "s_vars ?st u = Some t" "s_vars ?st u' = Some t" for u u' t
      using that h(2) by (auto simp: st obj_ok_def split: if_splits)
    ultimately show ?thesis unfolding obj_ok_def st(2) by simp
  qed
  ultimately show ?thesis by (rule stmts_okI)
qed

lemma destroy_vars: "s_vars (destroyPreparedStatement v st) u = (if u = v then None else s_vars st u)"
  by (auto simp: destroyPreparedStatement_def split: option.split)

lemma destroyPreparedStatements_none:
  assumes "idle st"
  shows "apis (s_log (destroyPreparedStatements st)) Map.empty"
proof -
  let ?st = "destroyPreparedStatements st"
  have "idle ?st" using assms unfolding destroyPreparedStatements_def by (simp add: destroy_idle)
  then obtain h where h: "apis (s_log ?st) h" "obj_ok {} (\<lambda>_. {}) h ?st" by (auto simp: stmts_ok_def)
  have "s_vars ?st v = None" if "v \<noteq> StmtReadDbName" for v
    using that by (cases v) (simp_all add: destroyPreparedStatements_def destroy_vars)
  then have "h s = None" for s using h(2) unfolding obj_ok_def by (metis not_Some_eq)
  then have "h = Map.empty" by (rule ext)
  with h(1) show ?thesis by simp
qed

text \<open>C8. The statement layer keeps the contract of SQLite: after \<open>readDbName\<close> has run once, any sequence of operations, with whatever result codes and rows, binds statements only while they are idle and within their parameters, executes them only with all parameters bound, and uses no finalized one; and when the static statements are destroyed, none is left.\<close>

theorem statements_keep_contract:
  assumes "sqlReadDbName sq stmts0 = Inr st" "runOps sq ops st = Inr st'"
  shows "lawful (s_log st') \<and> apis (s_log (destroyPreparedStatements st')) Map.empty"
proof -
  have ok: "idle st'" by (rule runOps_ok [OF readDbName_idle [OF assms(1)] assms(2)])
  then have "lawful (s_log st')" by (auto simp: stmts_ok_def lawful_def)
  with destroyPreparedStatements_none [OF ok] show ?thesis by blast
qed

text \<open>An engine that finds no row.\<close>

definition sqlite_default :: sqlite where
  "sqlite_default = \<lparr>sq_rc = (\<lambda>log c. case c of Step s \<Rightarrow> SQLITE_DONE | _ \<Rightarrow> SQLITE_OK), sq_column = (\<lambda>_ _ _. 0),
     sq_changes = (\<lambda>_. 1)\<rparr>"

theorem statements_keep_contract_witness:
  "\<exists>st st'. sqlReadDbName sqlite_default stmts0 = Inr st \<and>
    runOps sqlite_default [ClearPending 7 1500000000000, ClearPending 7 1500000000001] st = Inr st' \<and>
    s_log st' \<noteq> [] \<and> lawful (s_log st') \<and> apis (s_log (destroyPreparedStatements st')) Map.empty"
proof -
  note sq = sqlite_default_def mustOk_def Let_def
  obtain st where st: "sqlReadDbName sqlite_default stmts0 = Inr st"
    by (simp add: sqlReadDbName_def prepare_def prepareStatement_def stmts0_def execPreparedText_def sq)
  obtain st' where st': "runOps sqlite_default [ClearPending 7 1500000000000, ClearPending 7 1500000000001] st = Inr st'"
    "s_log st' \<noteq> []"
    by (simp add: sqlDeleteData_def prepare_def prepareStatement_def bind_Int_Int_Int64_def bind_defs execPrepared_def
        resetStmt_def readDbName_log(1) [OF st] sq)
  show ?thesis using st st' statements_keep_contract [OF st st'(1)] by blast
qed

lemma lawful_prefix: "lawful (log @ log') \<Longrightarrow> lawful log"
proof (induction log' rule: rev_induct)
  case (snoc c log')
  then obtain h where "apis ((log @ log') @ [c]) h" by (auto simp: lawful_def)
  then have "lawful (log @ log')" unfolding lawful_def by (rule apis_snocE) blast
  then show ?case by (rule snoc.IH)
qed simp

inductive_cases api_finalizeE: "api h (Finalize s) h'"

lemma finalized_not_stepped: "\<not> lawful (log @ [Finalize s, Step s])"
proof
  assume "lawful (log @ [Finalize s, Step s])"
  then obtain h where "apis ((log @ [Finalize s]) @ [Step s]) h" by (auto simp: lawful_def)
  then obtain h1 where h1: "apis (log @ [Finalize s]) h1" "api h1 (Step s) h" by (rule apis_snocE)
  from h1(1) obtain h0 where "api h0 (Finalize s) h1" by (rule apis_snocE)
  then have "h1 s = None" by (auto elim: api_finalizeE)
  with h1(2) show False by (auto elim: api_stepE)
qed

text \<open>\<open>readDbName\<close> run a second time, as a second initialisation of the database does, executes the statement that it finalized the first time.\<close>

theorem readDbName_twice:
  assumes "sqlReadDbName sq stmts0 = Inr st" "sqlReadDbName sq st = Inr st'"
  shows "\<not> lawful (s_log st')"
proof
  assume law: "lawful (s_log st')"
  obtain l where l: "s_log st = l @ [Finalize 1]" using readDbName_log(3) [OF assms(1)] by auto
  have "prepare sq StmtReadDbName st = Inr (1, st)" by (simp add: prepare_def readDbName_log(1) [OF assms(1)])
  then obtain l' where "s_log st' = s_log st @ Step 1 # l'"
    using assms(2) by (auto simp: sqlReadDbName_def bindR_eq_Inr execPreparedText_def Let_def resetStmt_def split: if_splits)
  then have "s_log st' = (l @ [Finalize 1, Step 1]) @ l'" by (simp add: l)
  with law lawful_prefix have "lawful (l @ [Finalize 1, Step 1])" by metis
  then show False using finalized_not_stepped by blast
qed

theorem readDbName_twice_witness:
  "\<exists>st st'. sqlReadDbName sqlite_default stmts0 = Inr st \<and> sqlReadDbName sqlite_default st = Inr st' \<and> \<not> lawful (s_log st')"
proof -
  note sq = sqlite_default_def mustOk_def Let_def
  obtain st where st: "sqlReadDbName sqlite_default stmts0 = Inr st"
    by (simp add: sqlReadDbName_def prepare_def prepareStatement_def stmts0_def execPreparedText_def sq)
  obtain st' where st': "sqlReadDbName sqlite_default st = Inr st'"
    by (simp add: sqlReadDbName_def prepare_def execPreparedText_def readDbName_log(1) [OF st] sq)
  show ?thesis using st st' readDbName_twice [OF st st'] by blast
qed

end
