(* ===== verification/Reassembly.thy ===== *)
theory Reassembly
  imports Database
begin

section \<open>Reassembly of inbound messages\<close>

text \<open>
  What \<open>dbInsertInboundFragment\<close> promises as a whole.  The interface \<open>assembler\<close> says what one
  arrival does to the sets of parts received; its lemma, proved once, is that any interleaving of
  the parts of any number of messages, in any order and with any duplicates, delivers each message
  whose parts have all arrived exactly once and the others never.  The interpretation proves the
  contract for the database of the code.
\<close>

subsection \<open>The interface\<close>

text \<open>
  A run of arrivals: message \<open>c\<close>, part number \<open>i\<close> and whatever else comes with the arrival.  The
  result is the final state and the deliveries, in order.
\<close>

fun runArrivals :: "('s \<Rightarrow> 'c \<Rightarrow> nat \<Rightarrow> 'a \<Rightarrow> ('s \<times> 'm option) result) \<Rightarrow> 's \<Rightarrow> ('c \<times> nat \<times> 'a) list \<Rightarrow>
    ('s \<times> ('c \<times> 'm) list) result" where
  "runArrivals put s [] = Inr (s, [])"
| "runArrivals put s ((c, i, a) # es) =
     bindR (put s c i a) (\<lambda>(s, out).
     bindR (runArrivals put s es) (\<lambda>(s, ds).
     Inr (s, (case out of None \<Rightarrow> ds | Some m \<Rightarrow> (c, m) # ds))))"

definition arrived :: "('c \<times> nat \<times> 'a) list \<Rightarrow> 'c \<Rightarrow> nat set" where
  "arrived es c = {i. \<exists>a. (c, i, a) \<in> set es}"

lemma arrived_simps [simp]:
  "arrived [] c = {}"
  "arrived ((c', i, a) # es) c = (if c' = c then insert i (arrived es c) else arrived es c)"
  by (auto simp: arrived_def)

locale assembler =
  fixes put :: "'s \<Rightarrow> 'c \<Rightarrow> nat \<Rightarrow> 'a \<Rightarrow> ('s \<times> 'm option) result"
    and total :: "'c \<Rightarrow> nat"
    and matches :: "'c \<Rightarrow> 'm \<Rightarrow> bool"
    and rel :: "('c \<Rightarrow> nat set) \<Rightarrow> 's \<Rightarrow> bool"
    and known :: "'s \<Rightarrow> 'c set"
  assumes put_ok: "rel got s \<Longrightarrow> c \<in> known s \<Longrightarrow> i < total c \<Longrightarrow>
      \<exists>s' out. put s c i a = Inr (s', out) \<and> rel (got(c := insert i (got c))) s' \<and> known s' = known s \<and>
        (if got c \<noteq> {..<total c} \<and> insert i (got c) = {..<total c} then \<exists>m. out = Some m \<and> matches c m
         else out = None)"
begin

lemma once:
  "rel got s \<Longrightarrow> \<forall>(c, i, a)\<in>set es. c \<in> known s \<and> i < total c \<Longrightarrow>
     \<exists>s' ds. runArrivals put s es = Inr (s', ds) \<and> rel (\<lambda>c. got c \<union> arrived es c) s' \<and>
       (\<forall>(c, m)\<in>set ds. matches c m) \<and> distinct (map fst ds) \<and>
       fst ` set ds = {c. got c \<noteq> {..<total c} \<and> got c \<union> arrived es c = {..<total c}}"
proof (induction es arbitrary: got s)
  case Nil
  then show ?case by auto
next
  case (Cons e es)
  obtain c i a where e: "e = (c, i, a)" by (cases e)
  from Cons.prems e have "c \<in> known s" "i < total c" by auto
  from put_ok [OF Cons.prems(1) this, of a] obtain s1 out where p: "put s c i a = Inr (s1, out)"
    "rel (got(c := insert i (got c))) s1" "known s1 = known s"
    "if got c \<noteq> {..<total c} \<and> insert i (got c) = {..<total c} then \<exists>m. out = Some m \<and> matches c m
         else out = None" by blast
  let ?g = "got(c := insert i (got c))"
  have "\<forall>(c, i, a)\<in>set es. c \<in> known s1 \<and> i < total c" using Cons.prems(2) p(3) by auto
  from Cons.IH [OF p(2) this] obtain s' ds where r: "runArrivals put s1 es = Inr (s', ds)"
    "rel (\<lambda>c. ?g c \<union> arrived es c) s'" "\<forall>(c, m)\<in>set ds. matches c m" "distinct (map fst ds)"
    "fst ` set ds = {c. ?g c \<noteq> {..<total c} \<and> ?g c \<union> arrived es c = {..<total c}}" by blast
  have "(\<lambda>c. ?g c \<union> arrived es c) = (\<lambda>c. got c \<union> arrived (e # es) c)"
    by (auto simp: e fun_eq_iff)
  then have rel: "rel (\<lambda>c. got c \<union> arrived (e # es) c) s'" using r(2) by (simp only:)
  show ?case
  proof (cases "got c \<noteq> {..<total c} \<and> insert i (got c) = {..<total c}")
    case True
    then obtain m where m: "out = Some m" "matches c m" using p(4) by auto
    have "c \<notin> fst ` set ds" unfolding r(5) using True by simp
    moreover have "{c. got c \<noteq> {..<total c} \<and> got c \<union> arrived (e # es) c = {..<total c}}
        = insert c (fst ` set ds)"
    proof -
      have "arrived es c \<subseteq> {..<total c}" using Cons.prems(2) by (auto simp: arrived_def)
      then have "insert i (got c) \<union> arrived es c = {..<total c}"
        using True by (simp only: Un_absorb2)
      moreover have "got c \<union> arrived (e # es) c = insert i (got c) \<union> arrived es c"
        by (simp add: e)
      ultimately have all: "got c \<union> arrived (e # es) c = {..<total c}" by (simp only:)
      show ?thesis
      proof (rule set_eqI)
        fix x
        show "x \<in> {c. got c \<noteq> {..<total c} \<and> got c \<union> arrived (e # es) c = {..<total c}} \<longleftrightarrow>
            x \<in> insert c (fst ` set ds)"
          using True all unfolding r(5) by (cases "x = c") (simp_all add: e)
      qed
    qed
    moreover have "runArrivals put s (e # es) = Inr (s', (c, m) # ds)"
      using p(1) r(1) m by (simp add: e)
    moreover have "\<forall>(c, m)\<in>set ((c, m) # ds). matches c m" using r(3) m(2) by simp
    ultimately show ?thesis
      using rel r(4) by (intro exI [of _ s'] exI [of _ "(c, m) # ds"] conjI) simp_all
  next
    case False
    then have "out = None" using p(4) by metis
    moreover have "{c. got c \<noteq> {..<total c} \<and> got c \<union> arrived (e # es) c = {..<total c}} = fst ` set ds"
      unfolding r(5)
    proof (rule Collect_cong)
      fix x
      have i: "i \<in> {..<total c}" using \<open>i < total c\<close> by simp
      show "got x \<noteq> {..<total x} \<and> got x \<union> arrived (e # es) x = {..<total x} \<longleftrightarrow>
          ?g x \<noteq> {..<total x} \<and> ?g x \<union> arrived es x = {..<total x}"
      proof (cases "x = c")
        case True
        have "got c \<noteq> {..<total c} \<longleftrightarrow> insert i (got c) \<noteq> {..<total c}"
          using False i by (metis insert_absorb)
        then show ?thesis using True by (simp add: e)
      qed (simp add: e)
    qed
    moreover from calculation(1) have "runArrivals put s (e # es) = Inr (s', ds)"
      using p(1) r(1) by (simp add: e)
    ultimately show ?thesis
      using rel r(3,4) by (intro exI [of _ s'] exI [of _ ds] conjI) simp_all
  qed
qed

end

subsection \<open>The database as an assembler\<close>

text \<open>A message on its way: who sends it, its id, its bytes and the size of a piece.\<close>

record inmsg =
  im_friend :: u32
  im_id :: u64
  im_body :: "byte list"
  im_piece :: nat

definition im_total :: "inmsg \<Rightarrow> nat" where
  "im_total c = pieceCount (length (im_body c)) (im_piece c)"

definition im_key :: "inmsg \<Rightarrow> key" where
  "im_key c = key_of 0 (im_friend c) (im_id c)"

text \<open>The condition on the first bytes of the pieces is what the duplicate check of the code relies on.\<close>

definition im_ok :: "engine \<Rightarrow> inmsg \<Rightarrow> bool" where
  "im_ok e c \<longleftrightarrow> im_body c \<noteq> [] \<and> 0 < im_piece c \<and> length (im_body c) \<le> maxBlob e \<and>
     (\<forall>i<im_total c. im_body c ! (i * im_piece c) \<noteq> 0)"

text \<open>Part \<open>i\<close> of the message arrives, with the type and at the time given by \<open>a\<close>.\<close>

definition putPart :: "engine \<Rightarrow> database \<Rightarrow> inmsg \<Rightarrow> nat \<Rightarrow> int \<times> u64 \<Rightarrow> (database \<times> ready option) result" where
  "putPart e db c i a =
     dbInsertInboundFragment e (im_friend c) (fst a) (im_id c) (of_nat (i + 1)) (of_nat (im_total c))
       (of_nat (i * im_piece c)) (of_nat (length (im_body c))) (piece (im_piece c) (im_body c) i) (snd a) db"

text \<open>The blob when the parts in \<open>S\<close> have arrived.\<close>

definition partial :: "inmsg \<Rightarrow> nat set \<Rightarrow> byte list" where
  "partial c S = map (\<lambda>j. if j div im_piece c \<in> S then im_body c ! j else 0) [0..<length (im_body c)]"

lemma length_partial [simp]: "length (partial c S) = length (im_body c)"
  by (simp add: partial_def)

lemma nth_partial:
  "j < length (im_body c) \<Longrightarrow> partial c S ! j = (if j div im_piece c \<in> S then im_body c ! j else 0)"
  by (simp add: partial_def)

lemma partial_none: "partial c {} = replicate (length (im_body c)) 0"
  by (simp add: partial_def map_replicate_const)

lemma part_index: "0 < im_piece c \<Longrightarrow> j < length (im_body c) \<Longrightarrow> j div im_piece c < im_total c"
  by (simp add: im_total_def less_pieceCount) (metis div_times_less_eq_dividend le_less_trans)

lemma partial_all: "0 < im_piece c \<Longrightarrow> partial c {..<im_total c} = im_body c"
  by (rule nth_equalityI) (simp_all add: nth_partial part_index)

lemma partial_insert:
  assumes "0 < im_piece c" "i < im_total c"
  shows "patch (partial c S) (piece (im_piece c) (im_body c) i) (i * im_piece c) = partial c (insert i S)"
proof (rule nth_equalityI)
  let ?p = "im_piece c" and ?n = "length (im_body c)"
  have i: "i * ?p < ?n" using assms by (simp add: im_total_def less_pieceCount)
  have len: "i * ?p + length (piece ?p (im_body c) i) = min ((i + 1) * ?p) ?n"
    using i by (simp add: piece_def)
  then have le: "i * ?p + length (piece ?p (im_body c) i) \<le> length (partial c S)" by simp
  show "length (patch (partial c S) (piece ?p (im_body c) i) (i * ?p)) = length (partial c (insert i S))"
    using length_patch [OF le] by simp
  fix j
  assume "j < length (patch (partial c S) (piece ?p (im_body c) i) (i * ?p))"
  then have j: "j < ?n" using length_patch [OF le] by simp
  have div: "j div ?p = i \<longleftrightarrow> i * ?p \<le> j \<and> j < (i + 1) * ?p"
    using assms(1) by (metis Suc_eq_plus1 div_nat_eqI dividend_less_div_times div_times_less_eq_dividend
        mult.commute mult_Suc)
  show "patch (partial c S) (piece ?p (im_body c) i) (i * ?p) ! j = partial c (insert i S) ! j"
  proof (cases "i * ?p \<le> j \<and> j < (i + 1) * ?p")
    case True
    then have "j - i * ?p < ?p" "i * ?p + (j - i * ?p) = j" by auto
    then have "piece ?p (im_body c) i ! (j - i * ?p) = im_body c ! j"
      using i by (simp only: piece_def nth_take nth_drop)
    then show ?thesis using True j nth_patch [OF le, of j] len div by (simp add: nth_partial)
  next
    case False
    then have "\<not> (i * ?p \<le> j \<and> j < i * ?p + length (piece ?p (im_body c) i))" using j len by auto
    then have "patch (partial c S) (piece ?p (im_body c) i) (i * ?p) ! j = partial c S ! j"
      by (simp only: nth_patch [OF le] length_partial j if_False)
    moreover have "j div ?p \<noteq> i" using False div by blast
    ultimately show ?thesis using j by (simp add: nth_partial)
  qed
qed

text \<open>The state of one message in the tables when the parts in \<open>S\<close> have arrived.\<close>

definition asm :: "inmsg \<Rightarrow> nat set \<Rightarrow> database \<Rightarrow> bool" where
  "asm c S db \<longleftrightarrow> S \<subseteq> {..<im_total c} \<and>
     (if S = {} then selMeta db (im_key c) = None
      else if S = {..<im_total c} then selMeta db (im_key c) \<noteq> None \<and> selData db (im_key c) = None
      else \<exists>m d. selMeta db (im_key c) = Some m \<and> selData db (im_key c) = Some d \<and>
        frags_done m = int (card S) \<and> frags_num m = int (im_total c) \<and> dt_message d = Some (partial c S))"

lemma asm_cong:
  "selMeta db (im_key c) = selMeta db' (im_key c) \<Longrightarrow> selData db (im_key c) = selData db' (im_key c) \<Longrightarrow>
     asm c S db = asm c S db'"
  by (simp add: asm_def)

lemma im_bounds:
  assumes "engine_ok e" "im_ok e c"
  shows "length (im_body c) < 2 ^ 31" "0 < im_total c" "im_total c < 2 ^ 31" "0 < im_piece c"
    "\<And>i. i < im_total c \<Longrightarrow> i * im_piece c < length (im_body c)"
    "unat (of_nat (length (im_body c)) :: u32) = length (im_body c)"
proof -
  show len: "length (im_body c) < 2 ^ 31" and p: "0 < im_piece c"
    using assms by (auto simp: engine_ok_def im_ok_def)
  show "0 < im_total c" using assms(2) p by (auto simp: im_ok_def im_total_def intro: pieceCount_pos)
  show "im_total c < 2 ^ 31" using pieceCount_le [OF p, of "length (im_body c)"] len by (simp add: im_total_def)
  show "\<And>i. i < im_total c \<Longrightarrow> i * im_piece c < length (im_body c)"
    using p by (simp add: im_total_def less_pieceCount)
  show "unat (of_nat (length (im_body c)) :: u32) = length (im_body c)"
    using len by (intro unat_of_nat_u32) simp
qed

lemma card_full:
  assumes "S \<subseteq> {..<n}" "i < n" "i \<notin> S"
  shows "insert i S = {..<n} \<longleftrightarrow> int (card S) + 1 = int n"
proof
  have fin: "finite S" using assms(1) finite_subset by auto
  then have c: "card (insert i S) = card S + 1" using assms(3) by simp
  show "insert i S = {..<n} \<Longrightarrow> int (card S) + 1 = int n" using c by simp
  assume "int (card S) + 1 = int n"
  then have "card (insert i S) = card {..<n}" using c by simp
  then show "insert i S = {..<n}" using assms by (intro card_subset_eq) auto
qed

text \<open>The row of a message that is not complete, when a new part arrives.\<close>

lemma store_new_part:
  assumes e: "engine_ok e" "im_ok e c" and i: "i < im_total c" "i \<notin> S" and S: "S \<subseteq> {..<im_total c}"
    and inv: "db_inv db" and m: "selMeta db (im_key c) = Some m" "frags_done m = int (card S)" "frags_num m = int (im_total c)"
    and d: "selData db (im_key c) = Some d" "dt_message d = Some (partial c S)"
  obtains db' out where "storeFragment (im_friend c) type (im_id c) (of_nat (i * im_piece c))
      (piece (im_piece c) (im_body c) i) tm (dt_rowid d) db = Inr (db', out)"
    "db_inv db'" "asm c (insert i S) db'"
    "\<And>k. k \<noteq> im_key c \<Longrightarrow> selMeta db' k = selMeta db k \<and> selData db' k = selData db k"
    "if insert i S = {..<im_total c} then \<exists>r. out = Some r \<and> rd_message r = im_body c \<and> rd_friend r = im_friend c
     else out = None"
    "db_lockCb db' = db_lockCb db" "db_held db' = db_held db - (if db_lockCb db then 1 else 0)"
proof -
  let ?p = "im_piece c" and ?off = "of_nat (i * im_piece c) :: u32"
  note b = im_bounds [OF e]
  have o: "i * ?p < length (im_body c)" using b(5) [OF i(1)] .
  have uoff: "unat ?off = i * ?p" using o b(1) by (intro unat_of_nat_u32) simp
  have "im_total c = pieceCount (length (im_body c)) ?p" by (simp add: im_total_def)
  have len: "i * ?p + length (piece ?p (im_body c) i) \<le> length (im_body c)"
    using o by (simp add: piece_def)
  have key: "mt_friend_id m = sint (im_friend c)"
    using m(1) by (auto dest!: lookupBy_SomeD simp: selMeta_def im_key_def meta_key_def key_of_def)
  have pat: "patch (partial c S) (piece ?p (im_body c) i) (unat ?off) = partial c (insert i S)"
    unfolding uoff using b(4) i(1) by (rule partial_insert)
  have off: "unat ?off < 2 ^ 31" "unat ?off < length (partial c S)" "partial c S ! unat ?off = 0"
    "length (piece ?p (im_body c) i) < 2 ^ 31" "unat ?off + length (piece ?p (im_body c) i) \<le> length (partial c S)"
    unfolding uoff using o len b(1,4) i(2) by (simp_all add: nth_partial)
  note stored = storeFragment_effect [OF inv m(1) [unfolded im_key_def] d(1) [unfolded im_key_def] d(2) off,
    unfolded pat im_key_def [symmetric]]
  obtain db' where eff: "storeFragment (im_friend c) type (im_id c) ?off
      (piece ?p (im_body c) i) tm (dt_rowid d) db = Inr (db',
        if frags_done m + 1 = frags_num m then Some (readyOf (metaDone tm m) type (partial c (insert i S))) else None)"
    "db_inv db'" "selMeta db' = (selMeta db)(im_key c \<mapsto> metaDone tm m)"
    "selData db' = (selData db)(im_key c :=
        if frags_done m + 1 = frags_num m then None else Some (d\<lparr>dt_message := Some (partial c (insert i S))\<rparr>))"
    "db_lockCb db' = db_lockCb db" "db_held db' = db_held db - (if db_lockCb db then 1 else 0)"
    by (rule stored)
  have full: "insert i S = {..<im_total c} \<longleftrightarrow> frags_done m + 1 = frags_num m"
    using card_full [OF S i] m(2,3) by simp
  have card: "card (insert i S) = card S + 1" using S i(2) finite_subset by fastforce
  have "asm c (insert i S) db'"
  proof (cases "insert i S = {..<im_total c}")
    case True
    moreover have "insert i S \<noteq> {}" by simp
    ultimately show ?thesis
      using full unfolding asm_def eff(3,4) by (simp only: if_False if_True fun_upd_same order_refl) simp
  next
    case False
    then show ?thesis using full S i(1) m card by (simp add: asm_def eff(3,4) metaDone_def)
  qed
  then show ?thesis
    using eff full partial_all [OF b(4)] key
    by (intro that) (auto simp: readyOf_def metaDone_def)
qed

text \<open>What the arrival of one part does, whatever has arrived before.\<close>

lemma putPart_effect:
  assumes e: "engine_ok e" "im_ok e c" and i: "i < im_total c" and inv: "db_inv db" and S: "asm c S db"
  obtains db' out where "putPart e db c i a = Inr (db', out)" "db_inv db'" "asm c (insert i S) db'"
    "\<And>k. k \<noteq> im_key c \<Longrightarrow> selMeta db' k = selMeta db k \<and> selData db' k = selData db k"
    "if S \<noteq> {..<im_total c} \<and> insert i S = {..<im_total c}
     then \<exists>r. out = Some r \<and> rd_message r = im_body c \<and> rd_friend r = im_friend c else out = None"
proof -
  let ?full = "{..<im_total c}"
  note b = im_bounds [OF e]
  have sub: "S \<subseteq> ?full" using S by (simp add: asm_def)
  have "?full \<noteq> {}" using b(2) by auto
  then consider (fresh) "S = {}" | (complete) "S = ?full" "S \<noteq> {}" | (again) "S \<noteq> {}" "S \<noteq> ?full" "i \<in> S"
    | (new) "S \<noteq> {}" "S \<noteq> ?full" "i \<notin> S" by blast
  then show ?thesis
  proof cases
    case fresh
    have un: "unat (of_nat (length (im_body c)) :: u32) \<le> maxBlob e" "selMeta db (im_key c) = None"
      using e(2) b(6) S fresh by (simp_all add: im_ok_def asm_def)
    obtain d db1 where f: "putPart e db c i a = storeFragment (im_friend c) (fst a) (im_id c)
        (of_nat (i * im_piece c)) (piece (im_piece c) (im_body c) i) (snd a) (dt_rowid d) db1"
      "db_inv db1" "selMeta db1 = (selMeta db)(im_key c \<mapsto> freshMeta (im_friend c) (fst a) (im_id c) (snd a) (of_nat (im_total c)))"
      "selData db1 = (selData db)(im_key c \<mapsto> d)" "dt_message d = Some (replicate (unat (of_nat (length (im_body c)) :: u32)) 0)"
      unfolding putPart_def im_key_def
      by (rule insert_fresh [OF e(1) inv un(2) [unfolded im_key_def] un(1)])
    have num: "frags_num (freshMeta (im_friend c) (fst a) (im_id c) (snd a) (of_nat (im_total c))) = int (im_total c)"
      using sint_of_nat_u32 [OF b(3)] by (simp add: freshMeta_def)
    have done0: "frags_done (freshMeta (im_friend c) (fst a) (im_id c) (snd a) (of_nat (im_total c))) = int (card {})"
      by (simp add: freshMeta_def)
    have msg: "dt_message d = Some (partial c {})" using f(5) by (simp add: b(6) partial_none)
    obtain db' out where g: "putPart e db c i a = Inr (db', out)" "db_inv db'" "asm c (insert i {}) db'"
      "\<And>k. k \<noteq> im_key c \<Longrightarrow> selMeta db' k = selMeta db1 k \<and> selData db' k = selData db1 k"
      "if insert i {} = ?full then \<exists>r. out = Some r \<and> rd_message r = im_body c \<and> rd_friend r = im_friend c
       else out = None"
      unfolding f(1)
      by (rule store_new_part [OF e i _ _ f(2) _ done0 num _ msg, of "fst a" "snd a"]) (simp_all add: f(3,4))
    show ?thesis
      by (rule that [OF g(1,2)]) (use g(3-5) fresh \<open>?full \<noteq> {}\<close> in \<open>auto simp: f(3,4)\<close>)
  next
    case complete
    then have "putPart e db c i a = Inr (db, None)"
      unfolding putPart_def using S inv by (intro insert_finished) (auto simp: asm_def im_key_def)
    moreover have "insert i S = S" using complete i by auto
    ultimately show ?thesis using that [of db None] inv S complete by simp
  next
    case again
    then obtain m d where r: "selMeta db (im_key c) = Some m" "selData db (im_key c) = Some d"
      "dt_message d = Some (partial c S)" using S by (auto simp: asm_def)
    have o: "i * im_piece c < length (im_body c)" using b(5) [OF i] .
    have uoff: "unat (of_nat (i * im_piece c) :: u32) = i * im_piece c"
      using o b(1) by (intro unat_of_nat_u32) simp
    have "lookupBy dt_rowid (fragmented_data (dbLock db)) (dt_rowid d) = Some d"
      using db_inv_data(3) [OF inv r(2)] by simp
    then have "openBlob (dbLock db) dt_message (dt_rowid d) = Inr (partial c S)"
      using r(3) by (simp add: openBlob_def)
    moreover obtain first where "readBlob (partial c S) 1 (of_nat (i * im_piece c)) = Inr first"
      "hd first = im_body c ! (i * im_piece c)"
      using readBlob_first [of "of_nat (i * im_piece c)" "partial c S"] o b(1,4) again(3)
      unfolding uoff by (auto simp: nth_partial)
    moreover have "im_body c ! (i * im_piece c) \<noteq> 0" using e(2) i by (simp add: im_ok_def)
    moreover have "piece (im_piece c) (im_body c) i \<noteq> []" using o b(4) by (simp add: piece_def)
    ultimately have "putPart e db c i a = Inr (dbLock db, None)"
      unfolding putPart_def insert_active [OF inv r(1,2) [unfolded im_key_def]] storeFragment_def by simp
    moreover have "insert i S = S" using again(3) by auto
    ultimately show ?thesis
      using that [of "dbLock db" None] inv S asm_cong [of "dbLock db" c db S] by simp
  next
    case new
    then obtain m d where r: "selMeta db (im_key c) = Some m" "selData db (im_key c) = Some d"
      "frags_done m = int (card S)" "frags_num m = int (im_total c)" "dt_message d = Some (partial c S)"
      using S by (auto simp: asm_def)
    have L: "db_inv (dbLock db)" "selMeta (dbLock db) (im_key c) = Some m" "selData (dbLock db) (im_key c) = Some d"
      using inv r by simp_all
    have p: "putPart e db c i a = storeFragment (im_friend c) (fst a) (im_id c)
        (of_nat (i * im_piece c)) (piece (im_piece c) (im_body c) i) (snd a) (dt_rowid d) (dbLock db)"
      unfolding putPart_def using insert_active [OF inv r(1,2) [unfolded im_key_def]] by simp
    have "\<exists>db' out. putPart e db c i a = Inr (db', out) \<and> db_inv db' \<and> asm c (insert i S) db' \<and>
      (\<forall>k. k \<noteq> im_key c \<longrightarrow> selMeta db' k = selMeta db k \<and> selData db' k = selData db k) \<and>
      (if insert i S = ?full then \<exists>r. out = Some r \<and> rd_message r = im_body c \<and> rd_friend r = im_friend c
       else out = None)"
      unfolding p
      by (rule store_new_part [OF e i new(3) sub L(1,2) r(3,4) L(3) r(5), of "fst a" "snd a"],
          intro exI conjI allI impI) (assumption | simp)+
    then show ?thesis using that new(2) by metis
  qed
qed

text \<open>
  The state of the assembler: SQLite, the messages on their way, which must have different keys, and
  the database.
\<close>

definition putMsg :: "engine \<times> inmsg set \<times> database \<Rightarrow> inmsg \<Rightarrow> nat \<Rightarrow> int \<times> u64 \<Rightarrow>
    ((engine \<times> inmsg set \<times> database) \<times> ready option) result" where
  "putMsg s c i a = (case s of (e, C, db) \<Rightarrow>
     bindR (putPart e db c i a) (\<lambda>(db, out). Inr ((e, C, db), out)))"

definition asm_rel :: "(inmsg \<Rightarrow> nat set) \<Rightarrow> engine \<times> inmsg set \<times> database \<Rightarrow> bool" where
  "asm_rel got s = (case s of (e, C, db) \<Rightarrow>
     engine_ok e \<and> db_inv db \<and> inj_on im_key C \<and> (\<forall>c\<in>C. im_ok e c \<and> asm c (got c) db))"

definition im_matches :: "inmsg \<Rightarrow> ready \<Rightarrow> bool" where
  "im_matches c r \<longleftrightarrow> rd_message r = im_body c \<and> rd_friend r = im_friend c"

interpretation db_asm: assembler putMsg im_total im_matches asm_rel "\<lambda>(e, C, db). C"
proof unfold_locales
  fix got and s :: "engine \<times> inmsg set \<times> database" and c i a
  obtain e C db where s: "s = (e, C, db)" by (cases s)
  assume "asm_rel got s" "c \<in> (case s of (e, C, db) \<Rightarrow> C)" and i: "i < im_total c"
  then have e: "engine_ok e" "db_inv db" "inj_on im_key C" "c \<in> C" "im_ok e c" "asm c (got c) db"
    and all: "\<forall>c\<in>C. im_ok e c \<and> asm c (got c) db"
    by (auto simp: s asm_rel_def)
  obtain db' out where p: "putPart e db c i a = Inr (db', out)" "db_inv db'" "asm c (insert i (got c)) db'"
    "\<And>k. k \<noteq> im_key c \<Longrightarrow> selMeta db' k = selMeta db k \<and> selData db' k = selData db k"
    "if got c \<noteq> {..<im_total c} \<and> insert i (got c) = {..<im_total c}
     then \<exists>r. out = Some r \<and> rd_message r = im_body c \<and> rd_friend r = im_friend c else out = None"
    by (rule putPart_effect [OF e(1,5) i e(2,6), of a]) (rule that, assumption, assumption, assumption, blast, assumption)
  have "asm c' ((got(c := insert i (got c))) c') db'" if "c' \<in> C" for c'
  proof (cases "c' = c")
    case False
    then have "im_key c' \<noteq> im_key c" using e(3,4) that by (auto dest: inj_onD)
    then show ?thesis
      using False all that p(4) [of "im_key c'"] asm_cong [of db' c' db "got c'"] by simp
  qed (use p(3) in simp)
  then have "asm_rel (got(c := insert i (got c))) (e, C, db')"
    using e(1,3) p(2) all by (simp add: asm_rel_def)
  then show "\<exists>s' out. putMsg s c i a = Inr (s', out) \<and> asm_rel (got(c := insert i (got c))) s' \<and>
      (case s' of (e, C, db) \<Rightarrow> C) = (case s of (e, C, db) \<Rightarrow> C) \<and>
      (if got c \<noteq> {..<im_total c} \<and> insert i (got c) = {..<im_total c} then \<exists>m. out = Some m \<and> im_matches c m
       else out = None)"
    using p(1,5) by (intro exI [of _ "(e, C, db')"] exI [of _ out]) (simp add: s putMsg_def im_matches_def)
qed

lemma runArrivals_putMsg:
  "runArrivals putMsg (e, C, db) es =
     bindR (runArrivals (putPart e) db es) (\<lambda>(db, ds). Inr ((e, C, db), ds))"
proof (induction es arbitrary: db)
  case (Cons x es)
  then show ?case
    by (cases x) (auto simp: putMsg_def bindR_def split: sum.split prod.split)
qed simp

lemma completed_in:
  assumes "engine_ok e" "\<forall>c\<in>C. im_ok e c \<and> selMeta db (im_key c) = None"
    "\<forall>(c, i, a)\<in>set es. c \<in> C \<and> i < im_total c"
  shows "{c. {} \<noteq> {..<im_total c} \<and> arrived es c = {..<im_total c}} = {c \<in> C. arrived es c = {..<im_total c}}"
proof (intro Collect_cong iffI)
  fix c
  assume "{} \<noteq> {..<im_total c} \<and> arrived es c = {..<im_total c}"
  then obtain i where "i \<in> arrived es c" by auto
  then have "c \<in> C" using assms(3) by (auto simp: arrived_def)
  then show "c \<in> C \<and> arrived es c = {..<im_total c}"
    using \<open>{} \<noteq> {..<im_total c} \<and> arrived es c = {..<im_total c}\<close> by simp
next
  fix c
  assume c: "c \<in> C \<and> arrived es c = {..<im_total c}"
  then have "0 < im_total c" using assms(1,2) im_bounds(2) by blast
  then show "{} \<noteq> {..<im_total c} \<and> arrived es c = {..<im_total c}" using c by auto
qed

subsection \<open>Properties\<close>

text \<open>C5. Exactly-once delivery.  Take any set of messages with different keys (friend and id), none of
  them known to the database, whose pieces do not start with a zero byte, and let their fragments arrive in
  any interleaving, in any order and with any duplicates, of any type and at any time: no arrival
  faults, each message of which every fragment arrived is handed over exactly once, with exactly
  its bytes and its sender, and no other message is handed over.\<close>

theorem reassembly_exactly_once:
  assumes "engine_ok e" "db_inv db" "inj_on im_key C"
    "\<forall>c\<in>C. im_ok e c \<and> selMeta db (im_key c) = None"
    "\<forall>(c, i, a)\<in>set es. c \<in> C \<and> i < im_total c"
  shows "\<exists>db' ds. runArrivals (putPart e) db es = Inr (db', ds) \<and> db_inv db' \<and> distinct (map fst ds) \<and>
    fst ` set ds = {c \<in> C. arrived es c = {..<im_total c}} \<and>
    (\<forall>(c, r)\<in>set ds. rd_message r = im_body c \<and> rd_friend r = im_friend c)"
proof -
  have "asm_rel (\<lambda>c. {}) (e, C, db)"
    using assms(1-4) by (simp add: asm_rel_def asm_def)
  from db_asm.once [OF this, of es] assms(5) obtain s ds where
    r: "runArrivals putMsg (e, C, db) es = Inr (s, ds)" "asm_rel (arrived es) s"
      "\<forall>(c, m)\<in>set ds. im_matches c m" "distinct (map fst ds)"
      "fst ` set ds = {c. {} \<noteq> {..<im_total c} \<and> arrived es c = {..<im_total c}}"
    by auto
  then obtain db' where db': "runArrivals (putPart e) db es = Inr (db', ds)" "s = (e, C, db')"
    by (auto simp: runArrivals_putMsg bindR_eq_Inr)
  have "{c. {} \<noteq> {..<im_total c} \<and> arrived es c = {..<im_total c}} = {c \<in> C. arrived es c = {..<im_total c}}"
    using assms(1,4,5) by (rule completed_in)
  with r db' show ?thesis by (auto simp: asm_rel_def im_matches_def)
qed

lemma all_less_two: "(\<forall>i<2. P i) \<longleftrightarrow> P 0 \<and> P (1 :: nat)"
  by (auto simp: less_2_cases_iff)

theorem reassembly_exactly_once_witness:
  "\<exists>A B db' ds. A \<noteq> B \<and> runArrivals (putPart engine_default) db0
      [(B, 1, (0, 1)), (A, 1, (0, 2)), (A, 0, (1, 3)), (A, 1, (0, 4)), (B, 1, (0, 5))] = Inr (db', ds) \<and>
    fst ` set ds = {A} \<and> (\<forall>(c, r)\<in>set ds. rd_message r = [97, 98, 99])"
proof -
  let ?A = "\<lparr>im_friend = 7, im_id = 1500000000000, im_body = [97, 98, 99], im_piece = 2\<rparr> :: inmsg"
  let ?B = "\<lparr>im_friend = 8, im_id = 1500000000000, im_body = [100, 101], im_piece = 1\<rparr> :: inmsg"
  let ?es = "[(?B, 1, (0, 1)), (?A, 1, (0, 2)), (?A, 0, (1, 3)), (?A, 1, (0, 4)), (?B, 1, (0, 5))]
    :: (inmsg \<times> nat \<times> int \<times> u64) list"
  have total: "im_total ?A = 2" "im_total ?B = 2" by (simp_all add: im_total_def pieceCount_def)
  have ok: "im_ok engine_default ?A" "im_ok engine_default ?B"
    unfolding im_ok_def total all_less_two by (simp_all add: engine_default_def)
  have ne: "?A \<noteq> ?B" by simp
  have inj: "inj_on im_key {?A, ?B}" by (simp add: im_key_def key_of_def)
  have arr: "arrived ?es ?A = {..<im_total ?A}" "arrived ?es ?B \<noteq> {..<im_total ?B}"
    using total by (auto simp: lessThan_nat_numeral)
  have h1: "\<forall>c\<in>{?A, ?B}. im_ok engine_default c \<and> selMeta db0 (im_key c) = None"
    using ok db0_inv(2) by simp
  have h2: "\<forall>(c, i, a)\<in>set ?es. c \<in> {?A, ?B} \<and> i < im_total c" using total by simp
  obtain db' ds where r: "runArrivals (putPart engine_default) db0 ?es = Inr (db', ds)"
    "fst ` set ds = {c \<in> {?A, ?B}. arrived ?es c = {..<im_total c}}"
    "\<forall>(c, r)\<in>set ds. rd_message r = im_body c \<and> rd_friend r = im_friend c"
    using reassembly_exactly_once [OF engine_default_ok db0_inv(1) inj h1 h2] by (elim exE conjE)
  have only: "fst ` set ds = {?A}" unfolding r(2) using arr by blast
  moreover have "\<forall>(c, r)\<in>set ds. rd_message r = [97, 98, 99]"
  proof (clarify)
    fix c r
    assume d: "(c, r) \<in> set ds"
    then have "c \<in> fst ` set ds" by (rule rev_image_eqI) simp
    then have "c = ?A" unfolding only by (rule singletonD)
    moreover have "rd_message r = im_body c" using bspec [OF r(3) d] by simp
    ultimately show "rd_message r = [97, 98, 99]" by simp
  qed
  ultimately show ?thesis using r(1) ne by (intro exI [of _ ?A] exI [of _ ?B] exI [of _ db'] exI [of _ ds] conjI)
qed

text \<open>Storing the first of two fragments when its first byte is zero: it is counted whether or not it is there.\<close>

lemma store_zero:
  assumes "engine_ok e" "0 < im_piece c" "im_body c \<noteq> []" "length (im_body c) \<le> maxBlob e" "im_total c = 2" "im_body c ! 0 = 0"
    and db: "db_inv db" "selMeta db (im_key c) = Some m" "selData db (im_key c) = Some d" "dt_message d = Some (partial c S)" "S \<subseteq> {0}"
  obtains db' where "storeFragment (im_friend c) ty (im_id c) 0 (piece (im_piece c) (im_body c) 0) now (dt_rowid d) db = Inr (db',
      if frags_done m + 1 = frags_num m then Some (readyOf (metaDone now m) ty (partial c {0})) else None)"
    "db_inv db'" "selMeta db' = (selMeta db)(im_key c \<mapsto> metaDone now m)"
    "selData db' = (selData db)(im_key c :=
       if frags_done m + 1 = frags_num m then None else Some (d\<lparr>dt_message := Some (partial c {0})\<rparr>))"
proof -
  let ?p = "piece (im_piece c) (im_body c) 0" and ?n = "length (im_body c)"
  have n: "?n < 2 ^ 31" using assms(1,4) by (auto simp: engine_ok_def)
  have len: "length ?p < 2 ^ 31" "length ?p \<le> ?n" "0 < ?n" using n assms(3) by (simp_all add: piece_def)
  have S: "insert 0 S = {0}" using db(5) by auto
  have "patch (partial c S) ?p (unat (0 :: u32)) = partial c (insert 0 S)"
    using partial_insert [OF assms(2), of 0 S] assms(5) by simp
  then have pat: "patch (partial c S) ?p (unat (0 :: u32)) = partial c {0}" unfolding S .
  have z: "partial c S ! unat (0 :: u32) = 0" using assms(3,6) by (simp add: nth_partial)
  have off: "unat (0 :: u32) < 2 ^ 31" "unat (0 :: u32) < length (partial c S)"
    "unat (0 :: u32) + length ?p \<le> length (partial c S)" using len by simp_all
  show thesis
    using storeFragment_effect [OF db(1) db(2,3) [unfolded im_key_def] db(4) off(1,2) z len(1) off(3), of ty now, unfolded pat]
      that unfolding im_key_def by blast
qed

text \<open>C34. Why the condition on first bytes is needed: the duplicate check takes a zero byte in the blob for
  the sign that the fragment is missing, so a fragment that starts with a zero byte counts each time
  it arrives.  Of a message of two fragments whose first byte is zero, the first fragment alone,
  received twice, completes the message: it is handed over with the second half zeroed, and the
  true second half is ignored from then on.\<close>

theorem zero_first_byte_completes_early:
  assumes "engine_ok e" "db_inv db" "selMeta db (im_key c) = None" "0 < im_piece c" "im_body c \<noteq> []"
    "length (im_body c) \<le> maxBlob e" "im_total c = 2" "im_body c ! 0 = 0"
  shows "\<exists>db' r. runArrivals (putPart e) db [(c, 0, a1), (c, 0, a2), (c, 1, a3)] = Inr (db', [(c, r)]) \<and>
    rd_message r = partial c {0}"
proof -
  let ?p = "piece (im_piece c) (im_body c) 0" and ?n = "length (im_body c)"
  note zero = store_zero [OF assms(1,4-8)]
  have n: "unat (of_nat ?n :: u32) = ?n" using assms(1,6) by (auto simp: engine_ok_def intro!: unat_of_nat_u32)
  have put: "putPart e db c 0 a = dbInsertInboundFragment e (im_friend c) (fst a) (im_id c) 1 2 0 (of_nat ?n) ?p (snd a) db"
    for db a by (simp add: putPart_def assms(7))
  have un: "unat (of_nat ?n :: u32) \<le> maxBlob e" using assms(6) n by simp
  let ?m = "freshMeta (im_friend c) (fst a1) (im_id c) (snd a1) 2" and ?m2 = "metaDone (snd a1) (freshMeta (im_friend c) (fst a1) (im_id c) (snd a1) 2)"
  obtain d db1 where f: "putPart e db c 0 a1 = storeFragment (im_friend c) (fst a1) (im_id c) 0 ?p (snd a1) (dt_rowid d) db1"
    "db_inv db1" "selMeta db1 = (selMeta db)(im_key c \<mapsto> ?m)" "selData db1 = (selData db)(im_key c \<mapsto> d)"
    "dt_message d = Some (replicate (unat (of_nat ?n :: u32)) 0)"
    unfolding put im_key_def by (rule insert_fresh [OF assms(1,2) assms(3) [unfolded im_key_def] un])
  have msg: "dt_message d = Some (partial c {})" using f(5) n by (simp add: partial_none)
  have num: "frags_done ?m = 0" "frags_num ?m = 2" "frags_done ?m2 = 1" "frags_num ?m2 = 2"
    by (simp_all add: freshMeta_def metaDone_def sint_small)
  obtain db2 where g: "putPart e db c 0 a1 = Inr (db2, None)" "db_inv db2" "selMeta db2 (im_key c) = Some ?m2"
    "selData db2 (im_key c) = Some (d\<lparr>dt_message := Some (partial c {0})\<rparr>)"
    using f(3,4) num by (auto simp: f(1) intro: zero [OF f(2) _ _ msg, of ?m "fst a1" "snd a1"])
  let ?d2 = "d\<lparr>dt_message := Some (partial c {0})\<rparr>"
  have L: "db_inv (dbLock db2)" "selMeta (dbLock db2) (im_key c) = Some ?m2" "selData (dbLock db2) (im_key c) = Some ?d2"
    "dt_message ?d2 = Some (partial c {0})" using g by simp_all
  have act: "putPart e db2 c 0 a2 = storeFragment (im_friend c) (fst a2) (im_id c) 0 ?p (snd a2) (dt_rowid ?d2) (dbLock db2)"
    unfolding put by (rule insert_active [OF g(2-4) [unfolded im_key_def]])
  obtain db3 where h: "putPart e db2 c 0 a2 = Inr (db3, Some (readyOf (metaDone (snd a2) ?m2) (fst a2) (partial c {0})))"
    "db_inv db3" "selMeta db3 (im_key c) \<noteq> None" "selData db3 (im_key c) = None"
    by (rule zero [OF L subset_refl, of "fst a2" "snd a2"]) (simp add: act num)
  have "putPart e db3 c 1 a3 = Inr (db3, None)"
    unfolding putPart_def by (rule insert_finished [OF h(2-4) [unfolded im_key_def]])
  then show ?thesis using g(1) h(1) by (auto simp: readyOf_def)
qed

theorem zero_first_byte_completes_early_witness:
  "\<exists>c db' r. im_body c = [0, 98, 99] \<and>
    runArrivals (putPart engine_default) db0 [(c, 0, (0, 1)), (c, 0, (0, 2)), (c, 1, (0, 3))] = Inr (db', [(c, r)]) \<and>
    rd_message r = [0, 98, 0]"
proof -
  let ?c = "\<lparr>im_friend = 7, im_id = 1500000000000, im_body = [0, 98, 99], im_piece = 2\<rparr> :: inmsg"
  have total: "im_total ?c = 2" by (simp add: im_total_def pieceCount_def)
  have "partial ?c {0} = [0, 98, 0]" by (simp add: partial_def upt_rec)
  moreover obtain db' r where
    "runArrivals (putPart engine_default) db0 [(?c, 0, (0, 1)), (?c, 0, (0, 2)), (?c, 1, (0, 3))] = Inr (db', [(?c, r)])"
    "rd_message r = partial ?c {0}"
    using zero_first_byte_completes_early [OF engine_default_ok db0_inv(1) db0_inv(2), of ?c "(0, 1)" "(0, 2)" "(0, 3)"]
      total by (auto simp: engine_default_def)
  ultimately show ?thesis by (intro exI [of _ ?c]) auto
qed

end
