(* ===== verification/Inbound.thy ===== *)
theory Inbound
  imports Reassembly
begin

section \<open>Incoming messages\<close>

text \<open>
  The receiving side of \<open>tox-defragmenter.c\<close>: \<open>isFragment\<close>, the callback \<open>friend_message_cb\<close>,
  \<open>processInFragment\<close> and \<open>messageReady\<close>.  What the client is told is a list of events.  The clock is
  an argument.  The lemmas connect the three layers, \<open>splitMessage\<close> on the sender, \<open>markerParse\<close> and the
  reassembly in the database: the fragments of any messages, over a network that reorders and
  duplicates, reach the receiving client as the original messages, each exactly once.
\<close>

datatype client_event =
    ClientMessage u32 int "byte list"   \<comment> \<open>\<open>client_friend_message_cb\<close>\<close>
  | ClientReceipt u32 u32               \<comment> \<open>\<open>client_friend_read_receipt_cb\<close>\<close>

definition isFragment :: "byte list \<Rightarrow> bool result" where
  "isFragment message = markerExists message"

definition messageReady :: "ready \<Rightarrow> client_event list" where
  "messageReady r = [ClientMessage (rd_friend r) (rd_type r) (rd_message r)]"

text \<open>
  When \<open>markerParse\<close> returns 0 the out-parameters stay uninitialised and are used; that is a fault.
\<close>

definition processInFragment :: "engine \<Rightarrow> u32 \<Rightarrow> int \<Rightarrow> byte list \<Rightarrow> u64 \<Rightarrow> database \<Rightarrow>
    (database \<times> client_event list) result" where
  "processInFragment e friend type message now db =
     bindR (markerParse message) (\<lambda>parsed.
     case parsed of
       None \<Rightarrow> Inl Uninitialised
     | Some mi \<Rightarrow>
         bindR (dbInsertInboundFragment e friend type (mi_id mi) (mi_partNo mi) (mi_numParts mi)
                  (mi_off mi) (mi_sz mi) (drop (unat (mi_size mi)) message) now db) (\<lambda>(db, out).
         Inr (db, case out of None \<Rightarrow> [] | Some r \<Rightarrow> messageReady r)))"

definition friend_message_cb :: "engine \<Rightarrow> u32 \<Rightarrow> int \<Rightarrow> byte list \<Rightarrow> u64 \<Rightarrow> database \<Rightarrow>
    (database \<times> client_event list) result" where
  "friend_message_cb e friend type message now db =
     bindR (isFragment message) (\<lambda>frag.
       if frag then processInFragment e friend type message now db
       else Inr (db, [ClientMessage friend type message]))"

text \<open>A sequence of incoming messages: friend, type, bytes and time.\<close>

fun runInbound :: "engine \<Rightarrow> database \<Rightarrow> (u32 \<times> int \<times> byte list \<times> u64) list \<Rightarrow>
    (database \<times> client_event list) result" where
  "runInbound e db [] = Inr (db, [])"
| "runInbound e db ((friend, type, message, now) # ms) =
     bindR (friend_message_cb e friend type message now db) (\<lambda>(db, evs).
     bindR (runInbound e db ms) (\<lambda>(db, evs').
     Inr (db, evs @ evs')))"

lemma processInFragment_parsed:
  "markerParse message = Inr (Some mi) \<Longrightarrow> friend_message_cb e friend type message now db =
     bindR (dbInsertInboundFragment e friend type (mi_id mi) (mi_partNo mi) (mi_numParts mi)
       (mi_off mi) (mi_sz mi) (drop (unat (mi_size mi)) message) now db) (\<lambda>(db, out).
     Inr (db, case out of None \<Rightarrow> [] | Some r \<Rightarrow> messageReady r))"
  by (simp add: friend_message_cb_def isFragment_def markerParse_exists processInFragment_def)

subsection \<open>From splitMessage to the client of the receiver\<close>

text \<open>The bytes of fragment \<open>i\<close> of a message that \<open>splitMessage\<close> cuts for the maximal length \<open>L\<close>.\<close>

definition wire :: "u32 \<Rightarrow> inmsg \<Rightarrow> nat \<Rightarrow> byte list" where
  "wire L c i =
     (case splitMessage markerMaxSizeEverValue (im_body c) (ucast L) (im_id c) of
        Inl _ \<Rightarrow> []
      | Inr m \<Rightarrow> (case f_data (fragments m ! i) of None \<Rightarrow> [] | Some d \<Rightarrow> d))"

definition wire_ok :: "engine \<Rightarrow> u32 \<Rightarrow> inmsg \<Rightarrow> bool" where
  "wire_ok e L c \<longleftrightarrow> im_ok e c \<and> im_piece c = pieceSize 63 (unat L) (length (im_body c)) \<and>
     10 ^ 12 \<le> unat (im_id c) \<and> unat (im_id c) < 10 ^ 13"

lemma wire_eq:
  assumes "engine_ok e" "63 < unat L" "wire_ok e L c" "i < im_total c"
  shows "wire L c i = wireFragment (im_id c) (im_piece c) (im_body c) i"
proof -
  have "length (im_body c) < 2 ^ 32"
    using assms(1,3) im_bounds(1) [of e c] by (simp add: wire_ok_def)
  then have "splitMessage 63 (im_body c) (ucast L) (im_id c) = Inr (newMsgOutbound (im_id c)
      (of_nat (im_total c)) (splitFragments (im_id c) (im_piece c) (im_body c)))"
    unfolding im_total_def using assms(2,3) by (intro splitMessage_eq) (simp_all add: wire_ok_def)
  then show ?thesis
    using assms(4)
    by (simp add: wire_def markerMaxSizeEverValue_eq newMsgOutbound_def splitFragments_def newFragment_def im_total_def)
qed

text \<open>What \<open>wireFragment_parse\<close> says, in the form used here.\<close>

lemma parse_wireFragment:
  assumes "10 ^ 12 \<le> unat mid" "unat mid < 10 ^ 13" "0 < sz" "i < pieceCount (length message) sz"
  obtains mi where "markerParse (wireFragment mid sz message i) = Inr (Some mi)"
    "drop (unat (mi_size mi)) (wireFragment mid sz message i) = piece sz message i"
    "mi_id mi = mid" "mi_partNo mi = of_nat (i + 1)" "mi_numParts mi = of_nat (pieceCount (length message) sz)"
    "mi_off mi = of_nat (i * sz)" "mi_sz mi = of_nat (length message)"
proof -
  have "piece sz message i \<noteq> []" using assms(3,4) by (rule piece_ne)
  note rt = marker_roundtrip_facts [OF assms(1,2) this, of "of_nat (i + 1)"
      "of_nat (pieceCount (length message) sz)" "of_nat (i * sz)" "of_nat (length message)"]
  show ?thesis
    using rt that by (simp add: wireFragment_def del: of_nat_Suc of_nat_add of_nat_mult)
qed

lemma friend_message_cb_wire:
  assumes "engine_ok e" "63 < unat L" "wire_ok e L c" "i < im_total c"
  shows "friend_message_cb e (im_friend c) type (wire L c i) now db =
    bindR (putPart e db c i (type, now)) (\<lambda>(db, out).
      Inr (db, case out of None \<Rightarrow> [] | Some r \<Rightarrow> messageReady r))"
proof -
  have p: "0 < im_piece c" "i < pieceCount (length (im_body c)) (im_piece c)"
    "10 ^ 12 \<le> unat (im_id c)" "unat (im_id c) < 10 ^ 13"
    using assms(3,4) by (simp_all add: wire_ok_def im_ok_def im_total_def)
  obtain mi where mi: "markerParse (wire L c i) = Inr (Some mi)"
    "drop (unat (mi_size mi)) (wire L c i) = piece (im_piece c) (im_body c) i"
    "mi_id mi = im_id c" "mi_partNo mi = of_nat (i + 1)" "mi_numParts mi = of_nat (im_total c)"
    "mi_off mi = of_nat (i * im_piece c)" "mi_sz mi = of_nat (length (im_body c))"
    unfolding wire_eq [OF assms] im_total_def by (rule parse_wireFragment [OF p(3,4,1,2)])
  show ?thesis
    unfolding processInFragment_parsed [OF mi(1)] mi(2-7) putPart_def by simp
qed

lemma runInbound_wire:
  assumes "engine_ok e" "63 < unat L"
  shows "\<forall>(c, i, a)\<in>set es. wire_ok e L c \<and> i < im_total c \<Longrightarrow>
    runInbound e db (map (\<lambda>(c, i, type, now). (im_friend c, type, wire L c i, now)) es) =
    bindR (runArrivals (putPart e) db es) (\<lambda>(db, ds). Inr (db, concat (map (\<lambda>(c, r). messageReady r) ds)))"
proof (induction es arbitrary: db)
  case Nil
  then show ?case by simp
next
  case (Cons x es)
  obtain c i type now where x: "x = (c, i, type, now)" by (cases x)
  have ok: "wire_ok e L c" "i < im_total c" using Cons.prems by (auto simp: x)
  have rest: "\<forall>(c, i, a)\<in>set es. wire_ok e L c \<and> i < im_total c" using Cons.prems by simp
  show ?case
    using Cons.IH [OF rest]
    by (auto simp: x friend_message_cb_wire [OF assms ok] bindR_assoc bindR_def split: sum.split prod.split option.split)
qed

lemma inbound_delivers:
  assumes "engine_ok e" "db_inv db" "63 < unat L" "inj_on im_key C"
    "\<forall>c\<in>C. wire_ok e L c \<and> selMeta db (im_key c) = None"
    "\<forall>(c, i, a)\<in>set es. c \<in> C \<and> i < im_total c"
  shows "\<exists>db' ds. runInbound e db (map (\<lambda>(c, i, type, now). (im_friend c, type, wire L c i, now)) es) =
      Inr (db', map (\<lambda>(c, type). ClientMessage (im_friend c) type (im_body c)) ds) \<and>
    distinct (map fst ds) \<and> fst ` set ds = {c \<in> C. arrived es c = {..<im_total c}}"
proof -
  have ok: "\<forall>c\<in>C. im_ok e c \<and> selMeta db (im_key c) = None" using assms(5) by (simp add: wire_ok_def)
  have "asm_rel (\<lambda>c. {}) (e, C, db)"
    using assms(1,2,4) ok by (simp add: asm_rel_def asm_def)
  from db_asm.once [OF this, of es] assms(6) obtain s ds where
    r: "runArrivals putMsg (e, C, db) es = Inr (s, ds)" "\<forall>(c, m)\<in>set ds. im_matches c m" "distinct (map fst ds)"
      "fst ` set ds = {c. {} \<noteq> {..<im_total c} \<and> arrived es c = {..<im_total c}}"
    by auto
  then obtain db' where db': "runArrivals (putPart e) db es = Inr (db', ds)"
    by (auto simp: runArrivals_putMsg bindR_eq_Inr)
  have set: "fst ` set ds = {c \<in> C. arrived es c = {..<im_total c}}"
    unfolding r(4) by (rule completed_in [OF assms(1) ok assms(6)])
  let ?ds = "map (\<lambda>(c, r). (c, rd_type r)) ds"
  have "\<forall>(c, i, a)\<in>set es. wire_ok e L c \<and> i < im_total c" using assms(5,6) by auto
  from runInbound_wire [OF assms(1,3) this] db'
  have "runInbound e db (map (\<lambda>(c, i, type, now). (im_friend c, type, wire L c i, now)) es) =
    Inr (db', concat (map (\<lambda>(c, r). messageReady r) ds))" by simp
  also have "concat (map (\<lambda>(c, r). messageReady r) ds) = map (\<lambda>(c, type). ClientMessage (im_friend c) type (im_body c)) ?ds"
    using r(2) by (induction ds) (auto simp: messageReady_def im_matches_def)
  finally have run: "runInbound e db (map (\<lambda>(c, i, type, now). (im_friend c, type, wire L c i, now)) es) =
    Inr (db', map (\<lambda>(c, type). ClientMessage (im_friend c) type (im_body c)) ?ds)" .
  have fst_ds: "map fst ?ds = map fst ds" by (auto simp: comp_def split_beta)
  then have "fst ` set ?ds = fst ` set ds" by (metis list.set_map)
  then show ?thesis
    using run r(3) set fst_ds by (intro exI [of _ db'] exI [of _ ?ds] conjI) (simp_all only:)
qed

subsection \<open>Properties\<close>

text \<open>An incoming message without a marker is passed to the client unchanged, and nothing is stored; one with
  a marker is never passed on as it is, it goes to the database.\<close>

theorem friend_message_cb_passthrough:
  "(isFragment message = Inr False \<longrightarrow>
      friend_message_cb e friend type message now db = Inr (db, [ClientMessage friend type message])) \<and>
   (isFragment message = Inr True \<longrightarrow>
      friend_message_cb e friend type message now db = processInFragment e friend type message now db)"
  by (simp add: friend_message_cb_def)

theorem friend_message_cb_passthrough_witness:
  "friend_message_cb engine_default 7 0 [104, 105] 5 db0 = Inr (db0, [ClientMessage 7 0 [104, 105]])"
proof -
  have "isFragment [104, 105] = Inr False"
    by (simp add: isFragment_def markerExists_def markerParseFields_short)
  then show ?thesis
    using friend_message_cb_passthrough [of "[104, 105]" engine_default 7 0 5 db0] by blast
qed

text \<open>C4. End to end.  Let a sender split any set of messages for a maximal length above 63, with different
  13-digit ids or to different friends, none of whose pieces starts with a zero byte, and let
  the network deliver the fragments in any interleaving, in any order and with any duplicates: the
  receiver never faults, and its client gets each message of which all fragments were delivered
  exactly once, byte for byte, and nothing else.\<close>

theorem end_to_end:
  assumes "engine_ok e" "db_inv db" "63 < unat L" "inj_on im_key C"
    "\<forall>c\<in>C. wire_ok e L c \<and> selMeta db (im_key c) = None"
    "\<forall>(c, i, a)\<in>set es. c \<in> C \<and> i < im_total c"
  shows "\<exists>db' ds. runInbound e db (map (\<lambda>(c, i, type, now). (im_friend c, type, wire L c i, now)) es) =
      Inr (db', map (\<lambda>(c, type). ClientMessage (im_friend c) type (im_body c)) ds) \<and>
    distinct (map fst ds) \<and> fst ` set ds = {c \<in> C. arrived es c = {..<im_total c}}"
  using assms by (rule inbound_delivers)

theorem end_to_end_witness:
  "\<exists>c db' t. im_body c = replicate 200 0x61 \<and>
    runInbound engine_default db0 (map (\<lambda>(c, i, type, now). (im_friend c, type, wire 75 c i, now))
      (map (\<lambda>i. (c, i, 0, 5)) (rev [0..<im_total c] @ [0..<im_total c]))) =
    Inr (db', [ClientMessage 7 t (replicate 200 0x61)])"
proof -
  let ?c = "\<lparr>im_friend = 7, im_id = 1500000000000, im_body = replicate 200 0x61, im_piece = pieceSize 63 75 200\<rparr> :: inmsg"
  let ?es = "map (\<lambda>i. (?c, i, 0, 5)) (rev [0..<im_total ?c] @ [0..<im_total ?c]) :: (inmsg \<times> nat \<times> int \<times> u64) list"
  have p: "0 < im_piece ?c" using pieceSize_bounds(1) [of 75 63 200] by simp
  then have "i * im_piece ?c < 200" if "i < im_total ?c" for i
    using that by (simp add: im_total_def less_pieceCount)
  then have ok: "wire_ok engine_default 75 ?c"
    using p by (simp add: wire_ok_def im_ok_def engine_default_def)
  have C: "\<forall>c\<in>{?c}. wire_ok engine_default 75 c \<and> selMeta db0 (im_key c) = None"
    using ok db0_inv(2) by (simp only: ball_simps)
  have es: "\<forall>(c, i, a)\<in>set ?es. c \<in> {?c} \<and> i < im_total c" by auto
  have arr: "arrived ?es ?c = {..<im_total ?c}" by (auto simp: arrived_def image_iff)
  have L: "63 < unat (75 :: u32)" by simp
  obtain db' ds where r: "runInbound engine_default db0 (map (\<lambda>(c, i, type, now). (im_friend c, type, wire 75 c i, now)) ?es) =
      Inr (db', map (\<lambda>(c, type). ClientMessage (im_friend c) type (im_body c)) ds)"
    "distinct (map fst ds)" "fst ` set ds = {c \<in> {?c}. arrived ?es c = {..<im_total c}}"
    using end_to_end [OF engine_default_ok db0_inv(1) L _ C es] by auto
  have one: "fst ` set ds = {?c}" unfolding r(3) using arr by blast
  then have "set (map fst ds) = {?c}" by (simp only: set_map)
  with r(2) have "length (map fst ds) = 1" by (metis card_1_singleton_iff distinct_card is_singletonI is_singleton_altdef)
  then obtain x where ds: "ds = [x]" by (cases ds) auto
  with one have "fst x = ?c" by simp
  then have "map (\<lambda>(c, type). ClientMessage (im_friend c) type (im_body c)) ds
      = [ClientMessage 7 (snd x) (replicate 200 0x61)]" by (simp add: ds split_beta)
  then have "runInbound engine_default db0 (map (\<lambda>(c, i, type, now). (im_friend c, type, wire 75 c i, now)) ?es) =
      Inr (db', [ClientMessage 7 (snd x) (replicate 200 0x61)])" using r(1) by (simp only:)
  then show ?thesis by (intro exI [of _ ?c] exI [of _ db'] exI [of _ "snd x"] conjI) simp_all
qed

end
