(* ===== verification/Outbound.thy ===== *)
theory Outbound
  imports Ids Receipts Inbound
begin

section \<open>The sender\<close>

text \<open>
  The sending side of \<open>tox-defragmenter.c\<close>: \<open>friend_send_message\<close> and \<open>friend_send_message_long\<close>,
  \<open>msgSendPart\<close>, \<open>msgSendNextParts\<close>, \<open>msgIsComplete\<close>, the receipts (\<open>friend_read_receipt_cb\<close>,
  \<open>tryProcessReceipt\<close>), the periodic work (\<open>resendExpiredReceipts\<close>, \<open>sendMore\<close>, \<open>doPeriodic\<close>), the
  loading of pending messages and the entry points that initialise and shut down.

  The static variables are the record \<open>world\<close>.  The tox library, the clock and SQLite are the
  parameter \<open>env\<close>: what they answer may depend on everything that has happened before, which is the
  trace of events \<open>w_trace\<close>.  Messages live at addresses, see theory \<open>Ring\<close>; \<open>w_brk\<close> is the next
  address that \<open>calloc\<close> returns.  A handler is a function from the world to a fault or the new world
  with its return value.  The client callbacks are recorded in the trace; they are assumed not to
  call back into the library.
\<close>

datatype event =
    ToxSend u32 int "byte list option" u32   \<comment> \<open>\<open>tox_friend_send_message\<close>: friend, type, data, the receipt it returns\<close>
  | ToxStatus u32 bool                       \<comment> \<open>\<open>tox_friend_get_connection_status\<close>: friend, is it online\<close>
  | Clock u64                                \<comment> \<open>\<open>getCurrTimeMs\<close>\<close>
  | Client client_event

record env =
  tx_send :: "event list \<Rightarrow> u32 \<Rightarrow> int \<Rightarrow> byte list option \<Rightarrow> u32"
  tx_online :: "event list \<Rightarrow> u32 \<Rightarrow> bool"
  clock :: "event list \<Rightarrow> u64"
  db_engine :: engine

record world =
  w_params :: params
  markerMaxSizeEver :: u32
  lastMsgId :: u64
  lastReceipt :: u32
  w_q :: outq
  w_rt :: rtable
  w_db :: database
  w_brk :: addr
  initializedApi :: bool
  initializedDb :: bool
  toxInstance :: "addr option"
  w_trace :: "event list"

definition emit :: "event \<Rightarrow> world \<Rightarrow> world" where
  "emit ev w = w\<lparr>w_trace := w_trace w @ [ev]\<rparr>"

definition getCurrTimeMs :: "env \<Rightarrow> world \<Rightarrow> u64 \<times> world" where
  "getCurrTimeMs env w = (let t = clock env (w_trace w) in (t, emit (Clock t) w))"

definition isFriendOnline :: "env \<Rightarrow> world \<Rightarrow> u32 \<Rightarrow> bool \<times> world" where
  "isFriendOnline env w friend =
     (let on = tx_online env (w_trace w) friend in (on, emit (ToxStatus friend on) w))"

definition toxSend :: "env \<Rightarrow> world \<Rightarrow> u32 \<Rightarrow> int \<Rightarrow> byte list option \<Rightarrow> u32 \<times> world" where
  "toxSend env w friend type bytes =
     (let r = tx_send env (w_trace w) friend type bytes in (r, emit (ToxSend friend type bytes r) w))"

definition derefW :: "world \<Rightarrow> addr option \<Rightarrow> msg_outbound result" where
  "derefW w p = deref (w_q w) p"

definition updMsgW :: "world \<Rightarrow> addr option \<Rightarrow> (msg_outbound \<Rightarrow> msg_outbound) \<Rightarrow> world result" where
  "updMsgW w p f = bindR (updMsg (w_q w) p f) (\<lambda>q. Inr (w\<lparr>w_q := q\<rparr>))"

text \<open>\<open>NEW(msg_outbound)\<close>, filled with the message that \<open>splitMessage\<close> built.\<close>

definition allocMsg :: "world \<Rightarrow> msg_outbound \<Rightarrow> addr option \<times> world" where
  "allocMsg w m =
     (Some (w_brk w), w\<lparr>w_q := (w_q w)\<lparr>q_heap := (q_heap (w_q w))(w_brk w \<mapsto> m)\<rparr>, w_brk := w_brk w + 1\<rparr>)"

definition updFragment :: "nat \<Rightarrow> (fragment \<Rightarrow> fragment) \<Rightarrow> msg_outbound \<Rightarrow> msg_outbound" where
  "updFragment i f m = m\<lparr>fragments := (fragments m)[i := f (fragments m ! i)]\<rparr>"

subsection \<open>Sending parts\<close>

definition msgSendPart :: "env \<Rightarrow> world \<Rightarrow> addr option \<Rightarrow> nat \<Rightarrow> (bool \<times> world) result" where
  "msgSendPart env w msg i =
     bindR (derefW w msg) (\<lambda>m.
     bindR (readAt (fragments m) i) (\<lambda>f.
     let (receipt, w) = toxSend env w (friend_number m) (m_type m) (f_data f)
     in if receipt = 0 then Inr (False, w)
        else
          bindR (updMsgW w msg (updFragment i (\<lambda>f. f\<lparr>f_receipt := receipt, f_timesSent := f_timesSent f + 1\<rparr>))) (\<lambda>w.
          let (now, w) = getCurrTimeMs env w
          in bindR (addReceipt (w_rt w) \<lparr>r_receipt = receipt, r_msg = msg, r_partNo = of_nat (i + 1),
                      r_timestamp = now\<rparr>) (\<lambda>rt.
             bindR (updMsgW (w\<lparr>w_rt := rt\<rparr>) msg (\<lambda>m. m\<lparr>numTransit := numTransit m + 1\<rparr>)) (\<lambda>w.
             Inr (True, w))))))"

text \<open>
  The loop of the first pass, in \<open>friend_send_message_long\<close> and in \<open>msgSendNextParts\<close>: over the
  part numbers given, until the window is full.
\<close>

fun sendPass :: "env \<Rightarrow> world \<Rightarrow> addr option \<Rightarrow> nat list \<Rightarrow> world result" where
  "sendPass env w msg [] = Inr w"
| "sendPass env w msg (i # is) =
     bindR (derefW w msg) (\<lambda>m.
       if numTransit m < fragmentsAtATime (w_params w) then
         bindR (msgSendPart env w msg i) (\<lambda>(ok, w).
         bindR (if ok then updMsgW w msg (\<lambda>m. m\<lparr>lastSent := of_nat i\<rparr>) else Inr w) (\<lambda>w.
         sendPass env w msg is))
       else Inr w)"

text \<open>The second pass of \<open>msgSendNextParts\<close>, over the fragments that failed before.\<close>

fun retryPass :: "env \<Rightarrow> world \<Rightarrow> addr option \<Rightarrow> nat list \<Rightarrow> world result" where
  "retryPass env w msg [] = Inr w"
| "retryPass env w msg (i # is) =
     bindR (derefW w msg) (\<lambda>m.
       if numTransit m < fragmentsAtATime (w_params w) \<and> numTransit m + numConfirmed m < numParts m then
         bindR (readAt (fragments m) i) (\<lambda>f.
         bindR (if f_receipt f = 0 \<and> f_confirmed f = 0 then
                  bindR (msgSendPart env w msg i) (\<lambda>(ok, w). Inr w)
                else Inr w) (\<lambda>w.
         retryPass env w msg is))
       else Inr w)"

definition msgSendNextParts :: "env \<Rightarrow> world \<Rightarrow> addr option \<Rightarrow> world result" where
  "msgSendNextParts env w msg =
     bindR (derefW w msg) (\<lambda>m.
     bindR (sendPass env w msg [unat (lastSent m + 1)..<unat (numParts m)]) (\<lambda>w.
     bindR (derefW w msg) (\<lambda>m.
     retryPass env w msg [0..<unat (numParts m)])))"

subsection \<open>New messages\<close>

text \<open>
  The branch \<open>if (msg->numTransit > 0)\<close>: the message becomes pending.  \<open>fuel\<close> is for the search of
  \<open>generateReceiptNo\<close>.
\<close>

definition acceptMessage :: "nat \<Rightarrow> env \<Rightarrow> world \<Rightarrow> addr option \<Rightarrow> u32 \<Rightarrow> int \<Rightarrow> byte list \<Rightarrow> (u32 \<times> world) result" where
  "acceptMessage fuel env w msg friend type message =
     bindR (updMsgW w msg (\<lambda>m. m\<lparr>m_type := type\<rparr>)) (\<lambda>w.
     bindR (generateReceiptNo fuel (w_params w) (w_q w) (lastReceipt w)) (\<lambda>receipt.
     bindR (updMsgW (w\<lparr>lastReceipt := receipt\<rparr>) msg (\<lambda>m. m\<lparr>m_receipt := receipt\<rparr>)) (\<lambda>w.
     bindR (msgsOutboundLink (w_q w) msg) (\<lambda>q.
     bindR (deref q msg) (\<lambda>m.
     bindR (dbInsertOutboundMessage (db_engine env) friend type (m_id m) (m_id m) (numParts m) message (m_receipt m) (w_db w)) (\<lambda>db.
     Inr (m_receipt m, w\<lparr>w_q := q, w_db := db\<rparr>)))))))"

definition friend_send_message_long :: "nat \<Rightarrow> env \<Rightarrow> world \<Rightarrow> u32 \<Rightarrow> int \<Rightarrow> byte list \<Rightarrow> (u32 \<times> world) result" where
  "friend_send_message_long fuel env w friend type message =
     (let (now, w) = getCurrTimeMs env w
      in bindR (generateMsgId now (lastMsgId w)) (\<lambda>(mid, lastId).
         let w = w\<lparr>lastMsgId := lastId\<rparr>
         in bindR (splitMessage (markerMaxSizeEver w) message (ucast (maxMessageLength (w_params w))) mid) (\<lambda>m.
            let (msg, w) = allocMsg w (m\<lparr>friend_number := friend\<rparr>)
            in bindR (sendPass env w msg [0..<unat (numParts m)]) (\<lambda>w.
               bindR (derefW w msg) (\<lambda>m.
               if numTransit m > 0 then acceptMessage fuel env w msg friend type message
               else
                 bindR (msgOutboundDelete (w_q w) msg) (\<lambda>q. Inr (0, w\<lparr>w_q := q\<rparr>)))))))"

definition friend_send_message :: "nat \<Rightarrow> env \<Rightarrow> world \<Rightarrow> u32 \<Rightarrow> int \<Rightarrow> byte list \<Rightarrow> (u32 \<times> world) result" where
  "friend_send_message fuel env w friend type message =
     bindR (markerExists message) (\<lambda>marker.
       if marker then Inr (0, w)
       else if length message \<le> unat (maxMessageLength (w_params w))
       then Inr (toxSend env w friend type (Some message))
       else friend_send_message_long fuel env w friend type message)"

subsection \<open>Receipts\<close>

definition msgIsComplete :: "world \<Rightarrow> addr option \<Rightarrow> world result" where
  "msgIsComplete w msg =
     bindR (derefW w msg) (\<lambda>m.
     let w = emit (Client (ClientReceipt (friend_number m) (m_receipt m))) w;
         w = w\<lparr>w_db := dbClearOutboundPending (friend_number m) (m_id m) (w_db w)\<rparr>
     in bindR (msgsOutboundUnlink (w_q w) msg) (\<lambda>q.
        bindR (msgOutboundDelete q msg) (\<lambda>q. Inr (w\<lparr>w_q := q\<rparr>))))"

text \<open>\<open>in_range\<close> is the test of the code for a duplicate receipt.\<close>

definition tryProcessReceipt :: "env \<Rightarrow> world \<Rightarrow> u32 \<Rightarrow> (bool \<times> world) result" where
  "tryProcessReceipt env w receipt =
     bindR (lookupReceipt (w_rt w) receipt) (\<lambda>found.
     case found of
       None \<Rightarrow> Inr (in_range (w_params w) receipt, w)
     | Some recIdx \<Rightarrow>
         bindR (readAt (rt_receipts (w_rt w)) recIdx) (\<lambda>r.
         let msg = r_msg r; i = unat (r_partNo r - 1)
         in bindR (derefW w msg) (\<lambda>m.
            bindR (readAt (fragments m) i) (\<lambda>_.
            bindR (updMsgW w msg (\<lambda>m. (updFragment i (\<lambda>f. f\<lparr>f_receipt := 0, f_confirmed := 1, f_data := None\<rparr>) m)
                     \<lparr>numConfirmed := numConfirmed m + 1, numTransit := numTransit m - 1\<rparr>)) (\<lambda>w.
            let (now, w) = getCurrTimeMs env w
            in bindR (dbOutboundPartConfirmed (friend_number m) (m_id m) (r_partNo r) now (w_db w)) (\<lambda>db.
               let w = w\<lparr>w_db := db\<rparr>
               in bindR (derefW w msg) (\<lambda>m.
                  bindR (if numConfirmed m < numParts m then
                           let (on, w) = isFriendOnline env w (friend_number m)
                           in if on then msgSendNextParts env w msg else Inr w
                         else msgIsComplete w msg) (\<lambda>w.
                  bindR (clearReceipt (w_rt w) recIdx) (\<lambda>rt.
                  Inr (True, w\<lparr>w_rt := rt\<rparr>))))))))))"

definition friend_read_receipt_cb :: "env \<Rightarrow> world \<Rightarrow> u32 \<Rightarrow> u32 \<Rightarrow> world result" where
  "friend_read_receipt_cb env w friend message_id =
     bindR (tryProcessReceipt env w message_id) (\<lambda>(done, w).
       Inr (if done then w else emit (Client (ClientReceipt friend message_id)) w))"

subsection \<open>Incoming messages\<close>

text \<open>\<open>friend_message_cb\<close> of theory \<open>Inbound\<close> on the world; only a fragment is given the time.\<close>

definition libMessage :: "env \<Rightarrow> u32 \<Rightarrow> int \<Rightarrow> byte list \<Rightarrow> world \<Rightarrow> (unit \<times> world) result" where
  "libMessage env friend type message w =
     bindR (isFragment message) (\<lambda>frag.
     let (now, w) = (if frag then getCurrTimeMs env w else (0, w))
     in bindR (friend_message_cb (db_engine env) friend type message now (w_db w)) (\<lambda>(db, evs).
        Inr ((), w\<lparr>w_db := db, w_trace := w_trace w @ map Client evs\<rparr>)))"

subsection \<open>Periodic work\<close>

text \<open>The loop of \<open>resendExpiredReceipts\<close>; \<open>receiptsHi\<close> can move while it runs.\<close>

fun resendLoop :: "nat \<Rightarrow> env \<Rightarrow> u64 \<Rightarrow> nat \<Rightarrow> world \<Rightarrow> world result" where
  "resendLoop 0 env now i w = Inl Diverges"
| "resendLoop (Suc fuel) env now i w =
     (if i < receiptsHi (w_rt w) then
        bindR (readAt (rt_receipts (w_rt w)) i) (\<lambda>r.
        if r_receipt r \<noteq> 0 \<and> r_timestamp r + ucast (receiptExpirationTimeMs (w_params w)) < now then
          let w = w\<lparr>w_rt := (w_rt w)\<lparr>rt_receipts := (rt_receipts (w_rt w))[i := r\<lparr>r_receipt := 0\<rparr>],
                                     receiptsNum := receiptsNum (w_rt w) - 1\<rparr>\<rparr>
          in bindR (updMsgW w (r_msg r) (\<lambda>m. m\<lparr>numTransit := numTransit m - 1, numLoss := numLoss m + 1\<rparr>)) (\<lambda>w.
             bindR (msgSendPart env w (r_msg r) (unat (r_partNo r - 1))) (\<lambda>(ok, w).
             resendLoop fuel env now (i + 1) w))
        else resendLoop fuel env now (i + 1) w)
      else Inr w)"

definition resendExpiredReceipts :: "nat \<Rightarrow> env \<Rightarrow> world \<Rightarrow> world result" where
  "resendExpiredReceipts fuel env w =
     (if receiptsNum (w_rt w) = 0 then Inr w
      else let (now, w) = getCurrTimeMs env w in resendLoop fuel env now (receiptsLo (w_rt w)) w)"

text \<open>The loop \<open>do \<dots> while (msg != msgsOutbound)\<close>.\<close>

fun sendMoreLoop :: "nat \<Rightarrow> env \<Rightarrow> addr option \<Rightarrow> world \<Rightarrow> world result" where
  "sendMoreLoop 0 env msg w = Inl Diverges"
| "sendMoreLoop (Suc fuel) env msg w =
     bindR (derefW w msg) (\<lambda>m.
     let (on, w) = isFriendOnline env w (friend_number m)
     in bindR (if on then msgSendNextParts env w msg else Inr w) (\<lambda>w.
        bindR (derefW w msg) (\<lambda>m.
        if m_next m \<noteq> msgsOutbound (w_q w) then sendMoreLoop fuel env (m_next m) w else Inr w)))"

definition sendMore :: "nat \<Rightarrow> env \<Rightarrow> world \<Rightarrow> world result" where
  "sendMore fuel env w =
     (if msgsOutbound (w_q w) = None then Inr w else sendMoreLoop fuel env (msgsOutbound (w_q w)) w)"

definition doPeriodic :: "nat \<Rightarrow> env \<Rightarrow> world \<Rightarrow> world result" where
  "doPeriodic fuel env w =
     (if \<not> initializedApi w \<or> \<not> initializedDb w then Inr w
      else bindR (resendExpiredReceipts fuel env w) (\<lambda>w. sendMore fuel env w))"

subsection \<open>Pending messages from the database\<close>

text \<open>The loop that copies the confirmations: \<open>confirmed[i]\<close> for each fragment.\<close>

definition markConfirmed :: "byte list \<Rightarrow> fragment list \<Rightarrow> fragment list" where
  "markConfirmed confirmed fs =
     map (\<lambda>(f, b). if b \<noteq> 0 then f\<lparr>f_confirmed := uint b, f_data := None\<rparr> else f\<lparr>f_confirmed := uint b\<rparr>)
       (zip fs confirmed)"

definition discardPending :: "pending \<Rightarrow> addr option \<Rightarrow> world \<Rightarrow> world result" where
  "discardPending p msg w =
     bindR (msgOutboundDelete (w_q w) msg) (\<lambda>q.
     Inr (w\<lparr>w_q := q, w_db := dbClearOutboundPending (pd_friend p) (pd_id p) (w_db w)\<rparr>))"

definition loadPendingSentMessage :: "pending \<Rightarrow> world \<Rightarrow> world result" where
  "loadPendingSentMessage p w =
     bindR (splitMessage (markerMaxSizeEver w) (pd_message p) (ucast (maxMessageLength (w_params w))) (pd_id p)) (\<lambda>m.
     let (msg, w) = allocMsg w m
     in if numParts m \<noteq> pd_numParts p \<or> unat (numParts m) \<noteq> length (pd_confirmed p) then discardPending p msg w
        else
          let n = of_nat (length (filter (\<lambda>b. b \<noteq> 0) (pd_confirmed p))) :: u32
          in bindR (updMsgW w msg (\<lambda>m. m\<lparr>fragments := markConfirmed (pd_confirmed p) (fragments m),
                                        numConfirmed := numConfirmed m + n\<rparr>)) (\<lambda>w.
             if pd_numConfirmed p \<noteq> n \<or> pd_numParts p < pd_numConfirmed p then discardPending p msg w
             else if n < pd_numParts p then
               bindR (updMsgW w msg (\<lambda>m. m\<lparr>friend_number := pd_friend p, fromDb := 1\<rparr>)) (\<lambda>w.
               bindR (msgsOutboundLink (w_q w) msg) (\<lambda>q. Inr (w\<lparr>w_q := q\<rparr>)))
             else discardPending p msg w))"

fun loadPendingLoop :: "pending list \<Rightarrow> world \<Rightarrow> world result" where
  "loadPendingLoop [] w = Inr w"
| "loadPendingLoop (p # ps) w = bindR (loadPendingSentMessage p w) (loadPendingLoop ps)"

text \<open>
  \<open>dbLoadPendingSentMessages\<close> calls back for each row of the \<open>SELECT\<close>, with the lock held; the rows are
  those at its start (the callback deletes at most the row it is called for).
\<close>

definition loadPendingSentMessages :: "world \<Rightarrow> world result" where
  "loadPendingSentMessages w =
     bindR (loadPendingLoop (selectPending (w_db w)) (w\<lparr>w_db := dbLock (w_db w)\<rparr>)) (\<lambda>w.
     Inr (w\<lparr>w_db := dbUnlock (w_db w)\<rparr>))"

subsection \<open>Entry points\<close>

definition initialize :: "world \<Rightarrow> world result" where
  "initialize w =
     bindR (loadPendingSentMessages (w\<lparr>w_rt := receiptsInitialize, lastReceipt := receiptRangeLo (w_params w)\<rparr>)) (\<lambda>w.
     Inr (w\<lparr>markerMaxSizeEver := markerMaxSizeEverValue\<rparr>))"

definition initializeWhenReady :: "world \<Rightarrow> world result" where
  "initializeWhenReady w = (if initializedApi w \<and> initializedDb w then initialize w else Inr w)"

definition initialize_api :: "world \<Rightarrow> world result" where
  "initialize_api w = initializeWhenReady (w\<lparr>initializedApi := True\<rparr>)"

definition initialize_db :: "meta_row list \<Rightarrow> data_row list \<Rightarrow> bool \<Rightarrow> world \<Rightarrow> world result" where
  "initialize_db metaRows dataRows lockCb w =
     bindR (dbInitialize metaRows dataRows lockCb (w_db w)) (\<lambda>db.
     initializeWhenReady (w\<lparr>w_db := db, initializedDb := True\<rparr>))"

definition initialize_db_inmemory :: "world \<Rightarrow> world result" where
  "initialize_db_inmemory w =
     bindR (dbInitializeInMemory (w_db w)) (\<lambda>db.
     initializeWhenReady (w\<lparr>w_db := db, initializedDb := True\<rparr>))"

text \<open>\<open>receiptsUninitialize\<close> frees the array and leaves the counters.\<close>

definition receiptsUninitialize :: "rtable \<Rightarrow> rtable" where
  "receiptsUninitialize t = t\<lparr>rt_receipts := []\<rparr>"

text \<open>The static function \<open>uninitialize\<close>, and \<open>tox_defragmenter_uninitialize\<close>.\<close>

definition uninitializeMain :: "nat \<Rightarrow> world \<Rightarrow> world result" where
  "uninitializeMain fuel w =
     bindR (msgsOutboundDeleteAll fuel (w_q w)) (\<lambda>q. Inr (w\<lparr>w_q := q, w_rt := receiptsUninitialize (w_rt w)\<rparr>))"

definition uninitialize :: "nat \<Rightarrow> world \<Rightarrow> world result" where
  "uninitialize fuel w =
     bindR (uninitializeMain fuel w) (\<lambda>w.
     Inr (w\<lparr>w_db := dbUninitialize (w_db w), initializedApi := False, initializedDb := False\<rparr>))"

definition set_parameters :: "params \<Rightarrow> world \<Rightarrow> world" where
  "set_parameters p w = w\<lparr>w_params := p\<rparr>"

text \<open>
  \<open>MY(new)\<close> and \<open>MY(kill)\<close> call \<open>MY(new)\<close> and \<open>MY(kill)\<close>, that is, themselves, where \<open>TOX(new)\<close> and
  \<open>TOX(kill)\<close> are meant.
\<close>

fun tox_new :: "nat \<Rightarrow> world \<Rightarrow> (addr option \<times> world) result" where
  "tox_new 0 w = Inl Diverges"
| "tox_new (Suc fuel) w =
     (if toxInstance w \<noteq> None then Inl Aborted
      else bindR (tox_new fuel w) (\<lambda>(tox, w). Inr (tox, w\<lparr>toxInstance := tox\<rparr>)))"

fun tox_kill :: "nat \<Rightarrow> addr option \<Rightarrow> world \<Rightarrow> world result" where
  "tox_kill 0 tox w = Inl Diverges"
| "tox_kill (Suc fuel) tox w =
     (if toxInstance w \<noteq> tox then Inl Aborted
      else bindR (tox_kill fuel tox w) (\<lambda>w. Inr (w\<lparr>toxInstance := None\<rparr>)))"

text \<open>
  One round of the background thread, \<open>threadRoutine\<close>, after its \<open>sleep(2)\<close>.  It is taken to run
  between two calls of the client; the code has no lock that would prevent it from running during one.
\<close>

definition threadRound :: "nat \<Rightarrow> env \<Rightarrow> world \<Rightarrow> world result" where
  "threadRound fuel env w = (if toxInstance w \<noteq> None then doPeriodic fuel env w else Inr w)"

text \<open>The static variables at the start of the process.\<close>

definition world0 :: world where
  "world0 = \<lparr>w_params = params_default, markerMaxSizeEver = 0, lastMsgId = 0, lastReceipt = 0,
     w_q = \<lparr>q_heap = (\<lambda>_. None), msgsOutbound = None\<rparr>,
     w_rt = \<lparr>rt_receipts = [], receiptsLo = 0, receiptsHi = 0, receiptsNum = 0, receiptsAlloc = 0\<rparr>,
     w_db = db0, w_brk = 1, initializedApi = False, initializedDb = False, toxInstance = None, w_trace = []\<rparr>"

end
