(* ===== verification/Sending.thy ===== *)
theory Sending
  imports Outbound
begin

section \<open>What the sender does\<close>

text \<open>
  The lemmas on the sending side.  \<open>sent_parts\<close> is the contract of the two passes over the
  fragments: what may change in the world while parts of one message are sent.  It is proved for
  \<open>msgSendPart\<close>, is reflexive and transitive, and so holds of the passes and of
  \<open>msgSendNextParts\<close>.  From it follow the properties of \<open>friend_send_message\<close>: what is
  refused, what is passed through, when a long message is accepted and what is then known of it.
  The assumption on tox is \<open>tox_receipts_ok\<close>, what its documentation says of message numbers.
\<close>

subsection \<open>Tox\<close>

text \<open>What was sent, and a trace in which tox answered as it does.\<close>

fun sentOf :: "event list \<Rightarrow> (u32 \<times> int \<times> byte list option) list" where
  "sentOf [] = []"
| "sentOf (ToxSend friend type d r # tr) = (friend, type, d) # sentOf tr"
| "sentOf (ev # tr) = sentOf tr"

lemma sentOf_append [simp]: "sentOf (tr @ tr') = sentOf tr @ sentOf tr'"
  by (induction tr rule: sentOf.induct) simp_all

definition genuine :: "env \<Rightarrow> event list \<Rightarrow> bool" where
  "genuine env tr \<longleftrightarrow> (\<forall>i friend type d r. i < length tr \<longrightarrow> tr ! i = ToxSend friend type d r \<longrightarrow>
     r = tx_send env (take i tr) friend type d)"

lemma genuine_Nil [simp]: "genuine env []"
  by (simp add: genuine_def)

lemma genuine_snoc:
  "genuine env (tr @ [ev]) \<longleftrightarrow> genuine env tr \<and>
     (\<forall>friend type d r. ev = ToxSend friend type d r \<longrightarrow> r = tx_send env tr friend type d)"
  unfolding genuine_def by (auto simp: nth_append less_Suc_eq)

lemma genuine_other [simp]:
  "genuine env (tr @ [Clock t]) \<longleftrightarrow> genuine env tr" "genuine env (tr @ [ToxStatus friend on]) \<longleftrightarrow> genuine env tr"
  "genuine env (tr @ [Client ev]) \<longleftrightarrow> genuine env tr"
  by (simp_all add: genuine_snoc)

abbreviation sentNum :: "world \<Rightarrow> nat" where
  "sentNum w \<equiv> length (sentOf (w_trace w))"

lemma genuine_send:
  "genuine env (tr @ [ToxSend friend type d r, Clock t]) \<longleftrightarrow> genuine env tr \<and> r = tx_send env tr friend type d"
  using genuine_other(1) [of env "tr @ [ToxSend friend type d r]" t] by (simp add: genuine_snoc)

text \<open>
  Among the first \<open>n\<close> messages those to one friend are numbered in ascending order; 0 stands for a message
  that is not sent.  Nothing is said of the numbers that different friends get: toxcore counts for
  each friend, from 1 to the greatest number, after which it starts again.  So \<open>n\<close> is less than \<open>2 ^ 32\<close>.
\<close>

definition tox_receipts_ok :: "env \<Rightarrow> nat \<Rightarrow> bool" where
  "tox_receipts_ok env n \<longleftrightarrow>
     (\<forall>tr friend type d type' d' r'. genuine env tr \<longrightarrow> length (sentOf tr) < n \<longrightarrow> ToxSend friend type' d' r' \<in> set tr \<longrightarrow>
        tx_send env tr friend type d \<noteq> 0 \<longrightarrow> r' < tx_send env tr friend type d)"

text \<open>
  The receipt table looks receipts up by their number alone, whoever sends them.  So what it promises
  depends on this: it has no gaps and awaits only receipts for messages to one \<open>friend\<close>.
\<close>

definition rt_ok :: "env \<Rightarrow> u32 \<Rightarrow> world \<Rightarrow> bool" where
  "rt_ok env friend w \<longleftrightarrow> rt_dense (w_rt w) \<and> genuine env (w_trace w) \<and>
     (\<forall>x\<in>set (recs (w_rt w)). \<exists>type d. ToxSend friend type d (r_receipt x) \<in> set (w_trace w))"

subsection \<open>The contract of sending parts\<close>

text \<open>
  From \<open>w\<close> to \<open>w'\<close>, attempts were made to send parts of the message at \<open>a\<close> out of \<open>is\<close>; \<open>m\<close> and \<open>m'\<close> are the
  message before and after, \<open>new\<close> the receipt records that were added, one for each success.
\<close>

definition sent_parts :: "env \<Rightarrow> addr \<Rightarrow> nat set \<Rightarrow> msg_outbound \<Rightarrow> world \<Rightarrow> msg_outbound \<Rightarrow> world \<Rightarrow> receipt_record list \<Rightarrow> bool" where
  "sent_parts env a is m w m' w' new \<longleftrightarrow>
     q_heap (w_q w) a = Some m \<and>
     w' = w\<lparr>w_q := (w_q w)\<lparr>q_heap := (q_heap (w_q w))(a \<mapsto> m')\<rparr>, w_rt := w_rt w', w_trace := w_trace w'\<rparr> \<and>
     rt_ok env (friend_number m) w' \<and> recs (w_rt w') = recs (w_rt w) @ new \<and> receiptsNum (w_rt w') = receiptsNum (w_rt w) + length new \<and>
     (\<exists>fs ls. m' = m\<lparr>fragments := fs, lastSent := ls, numTransit := numTransit m + of_nat (length new)\<rparr>) \<and>
     map f_data (fragments m') = map f_data (fragments m) \<and>
     (\<forall>x\<in>set new. r_msg x = Some a \<and> (\<exists>i\<in>is. r_partNo x = of_nat (i + 1))) \<and>
     (\<exists>evs. w_trace w' = w_trace w @ evs \<and>
        (\<forall>friend type d r. ToxSend friend type d r \<in> set evs \<longrightarrow> friend = friend_number m \<and> type = m_type m \<and>
           (\<exists>i\<in>is. i < length (fragments m) \<and> d = f_data (fragments m ! i))) \<and>
        (new = [] \<longleftrightarrow> (\<forall>friend type d r. ToxSend friend type d r \<in> set evs \<longrightarrow> r = 0))) \<and>
     (new = [] \<longrightarrow> m' = m \<and> w_rt w' = w_rt w)"

lemma world_same [simp]: "w\<lparr>w_q := (w_q w)\<lparr>q_heap := q_heap (w_q w)\<rparr>, w_rt := w_rt w, w_trace := w_trace w\<rparr> = w"
  by simp

lemma msg_same [simp]: "\<exists>fs ls. m = m\<lparr>fragments := fs, lastSent := ls\<rparr>"
  by (intro exI [of _ "fragments m"] exI [of _ "lastSent m"]) simp

lemma heap_same: "q_heap (w_q w) a = Some m \<Longrightarrow> (q_heap (w_q w))(a \<mapsto> m) = q_heap (w_q w)"
  by (rule fun_upd_idem)

lemma sent_parts_refl: "rt_ok env (friend_number m) w \<Longrightarrow> q_heap (w_q w) a = Some m \<Longrightarrow> sent_parts env a is m w m w []"
  by (simp add: sent_parts_def heap_same)

lemma sent_parts_length: "sent_parts env a is m w m' w' new \<Longrightarrow> length (fragments m') = length (fragments m)"
  unfolding sent_parts_def by (metis length_map)

lemma sent_parts_world:
  assumes "sent_parts env a is m w m' w' new"
  shows "q_heap (w_q w') = (q_heap (w_q w))(a \<mapsto> m')" "msgsOutbound (w_q w') = msgsOutbound (w_q w)"
    "w_params w' = w_params w" "w_db w' = w_db w" "lastReceipt w' = lastReceipt w" "lastMsgId w' = lastMsgId w"
    "rt_ok env (friend_number m) w'" "numTransit m' = numTransit m + of_nat (length new)" "numParts m' = numParts m"
    "friend_number m' = friend_number m" "m_type m' = m_type m" "m_id m' = m_id m" "w_brk w' = w_brk w"
    "markerMaxSizeEver w' = markerMaxSizeEver w" "numConfirmed m' = numConfirmed m"
proof -
  have w': "w' = w\<lparr>w_q := (w_q w)\<lparr>q_heap := (q_heap (w_q w))(a \<mapsto> m')\<rparr>, w_rt := w_rt w', w_trace := w_trace w'\<rparr>"
    and ok: "rt_ok env (friend_number m) w'"
    using assms unfolding sent_parts_def by blast+
  obtain fs ls where m': "m' = m\<lparr>fragments := fs, lastSent := ls, numTransit := numTransit m + of_nat (length new)\<rparr>"
    using assms unfolding sent_parts_def by blast
  show "q_heap (w_q w') = (q_heap (w_q w))(a \<mapsto> m')" "msgsOutbound (w_q w') = msgsOutbound (w_q w)"
    "w_params w' = w_params w" "w_db w' = w_db w" "lastReceipt w' = lastReceipt w" "lastMsgId w' = lastMsgId w"
    "w_brk w' = w_brk w" "markerMaxSizeEver w' = markerMaxSizeEver w"
    by (subst w'; simp)+
  show "numTransit m' = numTransit m + of_nat (length new)" "numParts m' = numParts m"
    "friend_number m' = friend_number m" "m_type m' = m_type m" "m_id m' = m_id m" "numConfirmed m' = numConfirmed m"
    by (simp_all add: m')
  show "rt_ok env (friend_number m) w'" by (fact ok)
qed

lemma sent_parts_trans:
  assumes s1: "sent_parts env a is m w m1 w1 new1" and s2: "sent_parts env a is m1 w1 m2 w2 new2"
  shows "sent_parts env a is m w m2 w2 (new1 @ new2)"
proof -
  note f1 = s1 [unfolded sent_parts_def] and f2 = s2 [unfolded sent_parts_def]
  note g1 = sent_parts_world [OF s1] and len = sent_parts_length [OF s1]
  obtain evs1 where e1: "w_trace w1 = w_trace w @ evs1"
    "\<forall>friend type d r. ToxSend friend type d r \<in> set evs1 \<longrightarrow> friend = friend_number m \<and> type = m_type m \<and>
           (\<exists>i\<in>is. i < length (fragments m) \<and> d = f_data (fragments m ! i))"
    "new1 = [] \<longleftrightarrow> (\<forall>friend type d r. ToxSend friend type d r \<in> set evs1 \<longrightarrow> r = 0)" using f1 by blast
  obtain evs2 where e2: "w_trace w2 = w_trace w1 @ evs2"
    "\<forall>friend type d r. ToxSend friend type d r \<in> set evs2 \<longrightarrow> friend = friend_number m1 \<and> type = m_type m1 \<and>
           (\<exists>i\<in>is. i < length (fragments m1) \<and> d = f_data (fragments m1 ! i))"
    "new2 = [] \<longleftrightarrow> (\<forall>friend type d r. ToxSend friend type d r \<in> set evs2 \<longrightarrow> r = 0)" using f2 by blast
  have data: "f_data (fragments m1 ! i) = f_data (fragments m ! i)" if "i < length (fragments m)" for i
    using f1 len that by (metis nth_map)
  have w1: "w1 = w\<lparr>w_q := (w_q w)\<lparr>q_heap := (q_heap (w_q w))(a \<mapsto> m1)\<rparr>, w_rt := w_rt w1, w_trace := w_trace w1\<rparr>"
    and w2: "w2 = w1\<lparr>w_q := (w_q w1)\<lparr>q_heap := (q_heap (w_q w1))(a \<mapsto> m2)\<rparr>, w_rt := w_rt w2, w_trace := w_trace w2\<rparr>"
    using f1 f2 by blast+
  obtain fs1 ls1 where m1: "m1 = m\<lparr>fragments := fs1, lastSent := ls1, numTransit := numTransit m + of_nat (length new1)\<rparr>"
    using f1 by blast
  obtain fs2 ls2 where m2: "m2 = m1\<lparr>fragments := fs2, lastSent := ls2, numTransit := numTransit m1 + of_nat (length new2)\<rparr>"
    using f2 by blast
  show ?thesis
    unfolding sent_parts_def
  proof (intro conjI)
    show "q_heap (w_q w) a = Some m" using f1 by blast
    show "w2 = w\<lparr>w_q := (w_q w)\<lparr>q_heap := (q_heap (w_q w))(a \<mapsto> m2)\<rparr>, w_rt := w_rt w2, w_trace := w_trace w2\<rparr>"
      by (subst w2, subst (2 3) w1) (simp add: g1(1))
    show "rt_ok env (friend_number m) w2" using f2 g1(10) by simp
    show "recs (w_rt w2) = recs (w_rt w) @ new1 @ new2" using f1 f2 by simp
    show "receiptsNum (w_rt w2) = receiptsNum (w_rt w) + length (new1 @ new2)" using f1 f2 by simp
    show "\<exists>fs ls. m2 = m\<lparr>fragments := fs, lastSent := ls, numTransit := numTransit m + of_nat (length (new1 @ new2))\<rparr>"
      by (intro exI [of _ fs2] exI [of _ ls2]) (simp add: m2 m1)
    show "map f_data (fragments m2) = map f_data (fragments m)" using f1 f2 by simp
    show "\<forall>x\<in>set (new1 @ new2). r_msg x = Some a \<and> (\<exists>i\<in>is. r_partNo x = of_nat (i + 1))"
      using f1 f2 by auto
    show "\<exists>evs. w_trace w2 = w_trace w @ evs \<and>
        (\<forall>friend type d r. ToxSend friend type d r \<in> set evs \<longrightarrow> friend = friend_number m \<and> type = m_type m \<and>
           (\<exists>i\<in>is. i < length (fragments m) \<and> d = f_data (fragments m ! i))) \<and>
        (new1 @ new2 = [] \<longleftrightarrow> (\<forall>friend type d r. ToxSend friend type d r \<in> set evs \<longrightarrow> r = 0))"
    proof (intro exI [of _ "evs1 @ evs2"] conjI)
      show "w_trace w2 = w_trace w @ evs1 @ evs2" using e1(1) e2(1) by simp
      show "\<forall>friend type d r. ToxSend friend type d r \<in> set (evs1 @ evs2) \<longrightarrow> friend = friend_number m \<and> type = m_type m \<and>
           (\<exists>i\<in>is. i < length (fragments m) \<and> d = f_data (fragments m ! i))"
        using e1(2) e2(2) data len g1(10,11) by (metis Un_iff set_append)
      show "new1 @ new2 = [] \<longleftrightarrow> (\<forall>friend type d r. ToxSend friend type d r \<in> set (evs1 @ evs2) \<longrightarrow> r = 0)"
        using e1(3) e2(3) by auto
    qed
    show "new1 @ new2 = [] \<longrightarrow> m2 = m \<and> w_rt w2 = w_rt w" using f1 f2 by auto
  qed
qed

lemma derefW_at: "q_heap (w_q w) a = Some m \<Longrightarrow> derefW w (Some a) = Inr m"
  by (simp add: derefW_def deref_def)

lemma updMsgW_at:
  "q_heap (w_q w) a = Some m \<Longrightarrow>
     updMsgW w (Some a) f = Inr (w\<lparr>w_q := (w_q w)\<lparr>q_heap := (q_heap (w_q w))(a \<mapsto> f m)\<rparr>\<rparr>)"
  by (simp add: updMsgW_def updMsg_def)

lemma emit_simps [simp]:
  "w_q (emit ev w) = w_q w" "w_rt (emit ev w) = w_rt w" "w_trace (emit ev w) = w_trace w @ [ev]"
  "w_params (emit ev w) = w_params w" "w_db (emit ev w) = w_db w" "lastReceipt (emit ev w) = lastReceipt w"
  by (simp_all add: emit_def)

text \<open>What one attempt does: nothing but an event when tox refuses, and otherwise exactly this.\<close>

definition partSent :: "nat \<Rightarrow> u32 \<Rightarrow> msg_outbound \<Rightarrow> msg_outbound" where
  "partSent i r m = (updFragment i (\<lambda>f. f\<lparr>f_receipt := r, f_timesSent := f_timesSent f + 1\<rparr>) m)
     \<lparr>numTransit := numTransit m + 1\<rparr>"

lemma partSent_simps [simp]:
  "numTransit (partSent i r m) = numTransit m + 1" "numConfirmed (partSent i r m) = numConfirmed m"
  "numParts (partSent i r m) = numParts m" "friend_number (partSent i r m) = friend_number m"
  "m_id (partSent i r m) = m_id m" "m_type (partSent i r m) = m_type m" "m_receipt (partSent i r m) = m_receipt m"
  "lastSent (partSent i r m) = lastSent m" "m_next (partSent i r m) = m_next m" "m_prev (partSent i r m) = m_prev m"
  "fragments (partSent i r m) = (fragments m)[i := (fragments m ! i)\<lparr>f_receipt := r,
     f_timesSent := f_timesSent (fragments m ! i) + 1\<rparr>]"
  "m\<lparr>fragments := fragments (partSent i r m), lastSent := lastSent m, numTransit := numTransit m + 1\<rparr> = partSent i r m"
  by (simp_all add: partSent_def updFragment_def)

lemma msgSendPart_go:
  fixes env w a m i
  defines "r \<equiv> tx_send env (w_trace w) (friend_number m) (m_type m) (f_data (fragments m ! i))"
  defines "ev \<equiv> ToxSend (friend_number m) (m_type m) (f_data (fragments m ! i)) r"
  defines "now \<equiv> clock env (w_trace w @ [ev])"
  assumes m: "q_heap (w_q w) a = Some m" and i: "i < length (fragments m)"
  shows "r = 0 \<Longrightarrow> msgSendPart env w (Some a) i = Inr (False, emit ev w)"
    and "r \<noteq> 0 \<Longrightarrow>
      addReceipt (w_rt w) \<lparr>r_receipt = r, r_msg = Some a, r_partNo = of_nat (i + 1), r_timestamp = now\<rparr> = Inr rt \<Longrightarrow>
      msgSendPart env w (Some a) i = Inr (True, w\<lparr>w_q := (w_q w)\<lparr>q_heap := (q_heap (w_q w))(a \<mapsto> partSent i r m)\<rparr>,
        w_rt := rt, w_trace := w_trace w @ [ev, Clock now]\<rparr>)"
proof -
  have frag: "readAt (fragments m) i = Inr (fragments m ! i)" using i by simp
  have send: "toxSend env w (friend_number m) (m_type m) (f_data (fragments m ! i)) = (r, emit ev w)"
    by (simp add: toxSend_def r_def ev_def Let_def)
  show "msgSendPart env w (Some a) i = Inr (False, emit ev w)" if "r = 0"
    using that by (simp add: msgSendPart_def derefW_at [OF m] frag send)
  assume r: "r \<noteq> 0"
    and rt: "addReceipt (w_rt w) \<lparr>r_receipt = r, r_msg = Some a, r_partNo = of_nat (i + 1), r_timestamp = now\<rparr> = Inr rt"
  define m1 where "m1 = updFragment i (\<lambda>f. f\<lparr>f_receipt := r, f_timesSent := f_timesSent f + 1\<rparr>) m"
  define w1 where "w1 = emit ev w"
  define w2 where "w2 = w1\<lparr>w_q := (w_q w1)\<lparr>q_heap := (q_heap (w_q w1))(a \<mapsto> m1)\<rparr>\<rparr>"
  define w3 where "w3 = emit (Clock now) w2"
  define w4 where "w4 = w3\<lparr>w_rt := rt\<rparr>"
  define w' where "w' = w4\<lparr>w_q := (w_q w4)\<lparr>q_heap := (q_heap (w_q w4))(a \<mapsto> m1\<lparr>numTransit := numTransit m1 + 1\<rparr>)\<rparr>\<rparr>"
  have u1: "updMsgW w1 (Some a) (updFragment i (\<lambda>f. f\<lparr>f_receipt := r, f_timesSent := f_timesSent f + 1\<rparr>)) = Inr w2"
    using m by (subst updMsgW_at [of _ _ m]) (simp_all add: w1_def w2_def m1_def)
  have clk: "getCurrTimeMs env w2 = (now, w3)"
    by (simp add: getCurrTimeMs_def now_def w3_def w2_def w1_def Let_def)
  have u2: "updMsgW w4 (Some a) (\<lambda>m. m\<lparr>numTransit := numTransit m + 1\<rparr>) = Inr w'"
    by (subst updMsgW_at [of _ _ m1]) (simp_all add: w'_def w4_def w3_def w2_def)
  have w3: "w_rt w3 = w_rt w" by (simp add: w3_def w2_def w1_def)
  have run: "msgSendPart env w (Some a) i = Inr (True, w')"
    unfolding msgSendPart_def derefW_at [OF m] bindR_Inr frag send w1_def [symmetric] Let_def prod.case
      if_not_P [OF r] u1 clk w3 rt w4_def [symmetric] u2 by (rule refl)
  then show "msgSendPart env w (Some a) i = Inr (True, w\<lparr>w_q := (w_q w)\<lparr>q_heap := (q_heap (w_q w))(a \<mapsto> partSent i r m)\<rparr>,
      w_rt := rt, w_trace := w_trace w @ [ev, Clock now]\<rparr>)"
    by (simp add: w'_def w4_def w3_def w2_def w1_def emit_def m1_def partSent_def updFragment_def)
qed

lemma msgSendPart_run:
  fixes env w a m i
  defines "r \<equiv> tx_send env (w_trace w) (friend_number m) (m_type m) (f_data (fragments m ! i))"
  defines "ev \<equiv> ToxSend (friend_number m) (m_type m) (f_data (fragments m ! i)) r"
  assumes env: "tox_receipts_ok env n" "sentNum w < n" and ok: "rt_ok env (friend_number m) w" and m: "q_heap (w_q w) a = Some m"
    and i: "i < length (fragments m)"
  shows "r = 0 \<Longrightarrow> msgSendPart env w (Some a) i = Inr (False, emit ev w)"
    and "r \<noteq> 0 \<Longrightarrow> \<exists>now rt. msgSendPart env w (Some a) i = Inr (True,
       w\<lparr>w_q := (w_q w)\<lparr>q_heap := (q_heap (w_q w))(a \<mapsto> partSent i r m)\<rparr>, w_rt := rt,
         w_trace := w_trace w @ [ev, Clock now]\<rparr>) \<and>
       rt_dense rt \<and> recs rt = recs (w_rt w) @ [\<lparr>r_receipt = r, r_msg = Some a, r_partNo = of_nat (i + 1), r_timestamp = now\<rparr>] \<and>
       receiptsNum rt = receiptsNum (w_rt w) + 1 \<and> receiptsLo rt = receiptsLo (w_rt w)"
proof -
  note go = msgSendPart_go [OF m i, of env, folded r_def, folded ev_def]
  show "msgSendPart env w (Some a) i = Inr (False, emit ev w)" if "r = 0" using go(1) that .
  assume r: "r \<noteq> 0"
  define x where "x = \<lparr>r_receipt = r, r_msg = Some a, r_partNo = of_nat (i + 1), r_timestamp = clock env (w_trace w @ [ev])\<rparr>"
  have x: "r_receipt x = r" by (simp add: x_def)
  have above: "\<forall>y\<in>set (recs (w_rt w)). r_receipt y < r_receipt x"
    using env ok r unfolding tox_receipts_ok_def rt_ok_def r_def x by fastforce
  have "rt_dense (w_rt w)" "r_receipt x \<noteq> 0" using ok r by (simp_all add: rt_ok_def x)
  from add_append [OF this above] obtain rt where
    rt: "addReceipt (w_rt w) x = Inr rt" "rt_dense rt" "recs rt = recs (w_rt w) @ [x]"
      "receiptsNum rt = receiptsNum (w_rt w) + 1" by blast
  show "\<exists>now rt. msgSendPart env w (Some a) i = Inr (True,
       w\<lparr>w_q := (w_q w)\<lparr>q_heap := (q_heap (w_q w))(a \<mapsto> partSent i r m)\<rparr>, w_rt := rt,
         w_trace := w_trace w @ [ev, Clock now]\<rparr>) \<and>
       rt_dense rt \<and> recs rt = recs (w_rt w) @ [\<lparr>r_receipt = r, r_msg = Some a, r_partNo = of_nat (i + 1), r_timestamp = now\<rparr>] \<and>
       receiptsNum rt = receiptsNum (w_rt w) + 1 \<and> receiptsLo rt = receiptsLo (w_rt w)"
    using go(2) [OF r rt(1) [unfolded x_def]] rt(2-4) addReceipt_lo [OF rt(1)] unfolding x_def by blast
qed

text \<open>The same as a step of the contract.  With \<open>mark\<close> the first pass also notes the part in \<open>lastSent\<close>.\<close>

lemma rt_ok_step:
  assumes "rt_ok env friend w" "rt_dense (w_rt w')" "recs (w_rt w') = recs (w_rt w) @ [x]"
    "w_trace w' = w_trace w @ [ToxSend friend type d (r_receipt x), Clock t]" "r_receipt x = tx_send env (w_trace w) friend type d"
  shows "rt_ok env friend w'"
  using assms by (fastforce simp: rt_ok_def genuine_send)

lemma msgSendPart_effect:
  assumes env: "tox_receipts_ok env n" "sentNum w < n" and ok: "rt_ok env (friend_number m) w" and m: "q_heap (w_q w) a = Some m"
    and i: "i < length (fragments m)" "i \<in> is"
  obtains (sent) w' m' x where "msgSendPart env w (Some a) i = Inr (True, w')" "sent_parts env a is m w m' w' [x]"
      "updMsgW w' (Some a) (\<lambda>m. m\<lparr>lastSent := of_nat i\<rparr>) =
         Inr (w'\<lparr>w_q := (w_q w')\<lparr>q_heap := (q_heap (w_q w'))(a \<mapsto> m'\<lparr>lastSent := of_nat i\<rparr>)\<rparr>\<rparr>)"
      "sent_parts env a is m w (m'\<lparr>lastSent := of_nat i\<rparr>)
         (w'\<lparr>w_q := (w_q w')\<lparr>q_heap := (q_heap (w_q w'))(a \<mapsto> m'\<lparr>lastSent := of_nat i\<rparr>)\<rparr>\<rparr>) [x]"
      "sentNum w' = sentNum w + 1"
  | (failed) w' where "msgSendPart env w (Some a) i = Inr (False, w')" "sent_parts env a is m w m w' []"
      "sentNum w' = sentNum w + 1"
proof -
  let ?r = "tx_send env (w_trace w) (friend_number m) (m_type m) (f_data (fragments m ! i))"
  let ?ev = "ToxSend (friend_number m) (m_type m) (f_data (fragments m ! i)) ?r"
  note run = msgSendPart_run [OF env ok m i(1)]
  show thesis
  proof (cases "?r = 0")
    case True
    have "sent_parts env a is m w m (emit ?ev w) []"
      unfolding sent_parts_def
      using ok m i by (auto simp: emit_def rt_ok_def heap_same True genuine_snoc) blast
    from run(1) [OF True] this show thesis by (rule failed) simp
  next
    case False
    let ?m' = "partSent i ?r m"
    from run(2) [OF False] obtain now rt where
      go: "msgSendPart env w (Some a) i = Inr (True, w\<lparr>w_q := (w_q w)\<lparr>q_heap := (q_heap (w_q w))(a \<mapsto> ?m')\<rparr>,
        w_rt := rt, w_trace := w_trace w @ [?ev, Clock now]\<rparr>)"
      and rt: "rt_dense rt" "recs rt = recs (w_rt w) @ [\<lparr>r_receipt = ?r, r_msg = Some a, r_partNo = of_nat (i + 1), r_timestamp = now\<rparr>]"
        "receiptsNum rt = receiptsNum (w_rt w) + 1" by blast
    define x where "x = \<lparr>r_receipt = ?r, r_msg = Some a, r_partNo = of_nat (i + 1), r_timestamp = now\<rparr>"
    define w' where "w' = w\<lparr>w_q := (w_q w)\<lparr>q_heap := (q_heap (w_q w))(a \<mapsto> ?m')\<rparr>, w_rt := rt,
      w_trace := w_trace w @ [?ev, Clock now]\<rparr>"
    have x: "r_receipt x = ?r" "r_msg x = Some a" "r_partNo x = of_nat (i + 1)" by (simp_all add: x_def)
    note rt' = rt(2) [folded x_def]
    have data: "map f_data (fragments ?m') = map f_data (fragments m)"
      using i by (auto simp: list_eq_iff_nth_eq nth_list_update)
    have sp: "sent_parts env a is m w m2 (w'\<lparr>w_q := (w_q w')\<lparr>q_heap := (q_heap (w_q w'))(a \<mapsto> m2)\<rparr>\<rparr>) [x]"
      if m2: "m2 = ?m'\<lparr>lastSent := ls\<rparr>" for m2 ls
      unfolding sent_parts_def
    proof (intro conjI)
      show "map f_data (fragments m2) = map f_data (fragments m)" using data by (simp add: m2)
      show "\<exists>fs ls. m2 = m\<lparr>fragments := fs, lastSent := ls, numTransit := numTransit m + of_nat (length [x])\<rparr>"
        by (intro exI [of _ "fragments ?m'"] exI [of _ ls]) (simp add: m2 partSent_def updFragment_def)
      show "\<exists>evs. w_trace (w'\<lparr>w_q := (w_q w')\<lparr>q_heap := (q_heap (w_q w'))(a \<mapsto> m2)\<rparr>\<rparr>) = w_trace w @ evs \<and>
        (\<forall>friend type d r. ToxSend friend type d r \<in> set evs \<longrightarrow> friend = friend_number m \<and> type = m_type m \<and>
           (\<exists>i\<in>is. i < length (fragments m) \<and> d = f_data (fragments m ! i))) \<and>
        ([x] = [] \<longleftrightarrow> (\<forall>friend type d r. ToxSend friend type d r \<in> set evs \<longrightarrow> r = 0))"
        using i False by (intro exI [of _ "[?ev, Clock now]"]) (auto simp: w'_def)
      show "rt_ok env (friend_number m) (w'\<lparr>w_q := (w_q w')\<lparr>q_heap := (q_heap (w_q w'))(a \<mapsto> m2)\<rparr>\<rparr>)"
        by (rule rt_ok_step [OF ok, of _ x "m_type m" "f_data (fragments m ! i)" now]) (simp_all add: w'_def rt(1) rt' x)
    qed (use m rt' rt(3) i in \<open>auto simp: w'_def x\<close>)
    have h': "q_heap (w_q w') a = Some ?m'" by (simp add: w'_def)
    have "sent_parts env a is m w ?m' (w'\<lparr>w_q := (w_q w')\<lparr>q_heap := (q_heap (w_q w'))(a \<mapsto> ?m')\<rparr>\<rparr>) [x]"
      by (rule sp [of ?m' "lastSent ?m'"]) simp
    then have "sent_parts env a is m w ?m' w' [x]" by (simp add: heap_same [OF h'])
    then show thesis by (rule sent [OF go [folded w'_def] _ updMsgW_at [OF h'] sp [OF refl]]) (simp add: w'_def)
  qed
qed

subsection \<open>The two passes\<close>

lemma sent_parts_mono:
  assumes "sent_parts env a is m w m' w' new" "is \<subseteq> js"
  shows "sent_parts env a js m w m' w' new"
proof -
  note f = assms(1) [unfolded sent_parts_def]
  obtain evs where e: "w_trace w' = w_trace w @ evs"
    "\<forall>friend type d r. ToxSend friend type d r \<in> set evs \<longrightarrow> friend = friend_number m \<and> type = m_type m \<and>
           (\<exists>i\<in>is. i < length (fragments m) \<and> d = f_data (fragments m ! i))"
    "new = [] \<longleftrightarrow> (\<forall>friend type d r. ToxSend friend type d r \<in> set evs \<longrightarrow> r = 0)" using f by blast
  have new: "\<forall>x\<in>set new. r_msg x = Some a \<and> (\<exists>i\<in>js. r_partNo x = of_nat (i + 1))"
    using f assms(2) by (meson subsetD)
  have sends: "\<forall>friend type d r. ToxSend friend type d r \<in> set evs \<longrightarrow> friend = friend_number m \<and> type = m_type m \<and>
           (\<exists>i\<in>js. i < length (fragments m) \<and> d = f_data (fragments m ! i))"
    using e(2) assms(2) by (meson subsetD)
  show ?thesis
    unfolding sent_parts_def
  proof (intro conjI)
    show "\<forall>x\<in>set new. r_msg x = Some a \<and> (\<exists>i\<in>js. r_partNo x = of_nat (i + 1))" by (fact new)
    show "\<exists>evs. w_trace w' = w_trace w @ evs \<and>
        (\<forall>friend type d r. ToxSend friend type d r \<in> set evs \<longrightarrow> friend = friend_number m \<and> type = m_type m \<and>
           (\<exists>i\<in>js. i < length (fragments m) \<and> d = f_data (fragments m ! i))) \<and>
        (new = [] \<longleftrightarrow> (\<forall>friend type d r. ToxSend friend type d r \<in> set evs \<longrightarrow> r = 0))"
      using e(1) sends e(3) by (intro exI [of _ evs] conjI)
  qed (insert f, (elim conjE, assumption)+)
qed

text \<open>
  The window: \<open>numTransit\<close> counts the successes without wrapping around, and stays within
  \<open>fragmentsAtATime\<close> unless it was above before.
\<close>

definition window_ok :: "msg_outbound \<Rightarrow> msg_outbound \<Rightarrow> u32 \<Rightarrow> nat \<Rightarrow> bool" where
  "window_ok m m' limit n \<longleftrightarrow> unat (numTransit m') = unat (numTransit m) + n \<and>
     (n = 0 \<or> unat (numTransit m') \<le> unat limit)"

lemma window_ok_0 [simp]: "window_ok m m limit 0"
  by (simp add: window_ok_def)

lemma window_ok_step:
  assumes "numTransit m < limit" "numTransit m1 = numTransit m + 1" "window_ok m1 m' limit n"
  shows "window_ok m m' limit (Suc n)"
proof -
  have "unat (numTransit m + 1) = unat (numTransit m) + 1"
    using assms(1) by (rule unat_Suc_less)
  with assms show ?thesis
    by (auto simp: window_ok_def word_less_nat_alt)
qed

lemma sendPass_effect:
  assumes "tox_receipts_ok env n" "rt_ok env (friend_number m) w" "q_heap (w_q w) a = Some m"
    "\<forall>i\<in>set is. i < length (fragments m)" "sentNum w + length is \<le> n"
  shows "\<exists>w' m' new. sendPass env w (Some a) is = Inr w' \<and> sent_parts env a (set is) m w m' w' new \<and>
    window_ok m m' (fragmentsAtATime (w_params w)) (length new) \<and> sentNum w' \<le> sentNum w + length is"
  using assms(2-5)
proof (induction "is" arbitrary: w m)
  case Nil
  then show ?case
    by (intro exI [of _ w] exI [of _ m] exI [of _ "[]"]) (simp add: sent_parts_refl)
next
  case (Cons i "is")
  show ?case
  proof (cases "numTransit m < fragmentsAtATime (w_params w)")
    case False
    then show ?thesis using Cons.prems
      by (intro exI [of _ w] exI [of _ m] exI [of _ "[]"]) (simp add: sent_parts_refl derefW_at)
  next
    case True
    have i: "i < length (fragments m)" "i \<in> set (i # is)" using Cons.prems(3) by simp_all
    have n0: "sentNum w < n" using Cons.prems(4) by simp
    show ?thesis
    proof (cases rule: msgSendPart_effect [OF assms(1) n0 Cons.prems(1,2) i, case_names sent failed])
      case (sent w1 m1 x)
      let ?m2 = "m1\<lparr>lastSent := of_nat i\<rparr>"
      let ?w2 = "w1\<lparr>w_q := (w_q w1)\<lparr>q_heap := (q_heap (w_q w1))(a \<mapsto> ?m2)\<rparr>\<rparr>"
      note g = sent_parts_world [OF sent(4)] and len = sent_parts_length [OF sent(4)]
      have "q_heap (w_q ?w2) a = Some ?m2" "\<forall>i\<in>set is. i < length (fragments ?m2)"
        "sentNum ?w2 + length is \<le> n" using Cons.prems(3,4) len sent(5) by simp_all
      moreover have "rt_ok env (friend_number ?m2) ?w2" using g(7,10) by simp
      ultimately obtain w' m' new where
        ih: "sendPass env ?w2 (Some a) is = Inr w'" "sent_parts env a (set is) ?m2 ?w2 m' w' new"
          "window_ok ?m2 m' (fragmentsAtATime (w_params ?w2)) (length new)" "sentNum w' \<le> sentNum ?w2 + length is" using Cons.IH by blast
      have "sendPass env w (Some a) (i # is) = Inr w'"
        using True by (simp add: derefW_at [OF Cons.prems(2)] sent(1,3) ih(1))
      moreover have "sent_parts env a (set (i # is)) m w m' w' (x # new)"
        using sent_parts_trans [OF sent(4) sent_parts_mono [OF ih(2), of "set (i # is)"]] by auto
      moreover have "window_ok m m' (fragmentsAtATime (w_params w)) (Suc (length new))"
        using window_ok_step [OF True _ ih(3)[unfolded g(3)]] g(8) by simp
      moreover have "sentNum w' \<le> sentNum w + length (i # is)" using ih(4) sent(5) by simp
      ultimately show ?thesis by (intro exI [of _ w'] exI [of _ m'] exI [of _ "x # new"]) simp
    next
      case (failed w1)
      note g = sent_parts_world [OF failed(2)]
      have "q_heap (w_q w1) a = Some m" "\<forall>i\<in>set is. i < length (fragments m)"
        "sentNum w1 + length is \<le> n" using Cons.prems(3,4) g(1) failed(3) by simp_all
      from Cons.IH [OF g(7) this] obtain w' m' new where
        ih: "sendPass env w1 (Some a) is = Inr w'" "sent_parts env a (set is) m w1 m' w' new"
          "window_ok m m' (fragmentsAtATime (w_params w1)) (length new)" "sentNum w' \<le> sentNum w1 + length is" by blast
      have "sendPass env w (Some a) (i # is) = Inr w'"
        using True by (simp add: derefW_at [OF Cons.prems(2)] failed(1) ih(1))
      moreover have "sent_parts env a (set (i # is)) m w m' w' new"
        using sent_parts_trans [OF failed(2) sent_parts_mono [OF ih(2), of "set (i # is)"]] by auto
      moreover have "sentNum w' \<le> sentNum w + length (i # is)" using ih(4) failed(3) by simp
      ultimately show ?thesis using ih(3) g(3) by (intro exI [of _ w'] exI [of _ m'] exI [of _ new]) simp
    qed
  qed
qed

lemma retryPass_effect:
  assumes "tox_receipts_ok env n" "rt_ok env (friend_number m) w" "q_heap (w_q w) a = Some m"
    "\<forall>i\<in>set is. i < length (fragments m)" "sentNum w + length is \<le> n"
  shows "\<exists>w' m' new. retryPass env w (Some a) is = Inr w' \<and> sent_parts env a (set is) m w m' w' new \<and>
    window_ok m m' (fragmentsAtATime (w_params w)) (length new) \<and> sentNum w' \<le> sentNum w + length is"
  using assms(2-5)
proof (induction "is" arbitrary: w m)
  case Nil
  then show ?case
    by (intro exI [of _ w] exI [of _ m] exI [of _ "[]"]) (simp add: sent_parts_refl)
next
  case (Cons i "is")
  let ?full = "\<not> (numTransit m < fragmentsAtATime (w_params w) \<and> numTransit m + numConfirmed m < numParts m)"
  let ?again = "f_receipt (fragments m ! i) = 0 \<and> f_confirmed (fragments m ! i) = 0"
  have i: "i < length (fragments m)" "i \<in> set (i # is)" using Cons.prems(3) by simp_all
  have n0: "sentNum w < n" using Cons.prems(4) by simp
  have rd: "readAt (fragments m) i = Inr (fragments m ! i)" using i by simp
  note step = derefW_at [OF Cons.prems(2)] rd
  have rest: "\<exists>w' m' new. retryPass env w (Some a) (i # is) = Inr w' \<and> sent_parts env a (set (i # is)) m w m' w' new \<and>
      window_ok m m' (fragmentsAtATime (w_params w)) (length new) \<and> sentNum w' \<le> sentNum w + length (i # is)"
    if run: "\<not> ?full" "retryPass env w (Some a) (i # is) = retryPass env w1 (Some a) is"
      and s: "sent_parts env a (set (i # is)) m w m1 w1 new1" "length new1 \<le> 1" "sentNum w1 \<le> sentNum w + 1" for w1 m1 new1
  proof -
    note g = sent_parts_world [OF s(1)] and len = sent_parts_length [OF s(1)]
    have "q_heap (w_q w1) a = Some m1" "\<forall>i\<in>set is. i < length (fragments m1)"
      "sentNum w1 + length is \<le> n" "rt_ok env (friend_number m1) w1"
      using Cons.prems(3,4) g(1,7,10) len s(3) by simp_all
    then obtain w' m' new where
      ih: "retryPass env w1 (Some a) is = Inr w'" "sent_parts env a (set is) m1 w1 m' w' new"
        "window_ok m1 m' (fragmentsAtATime (w_params w1)) (length new)" "sentNum w' \<le> sentNum w1 + length is" using Cons.IH by blast
    have "sent_parts env a (set (i # is)) m w m' w' (new1 @ new)"
      using sent_parts_trans [OF s(1) sent_parts_mono [OF ih(2), of "set (i # is)"]] by auto
    moreover have "window_ok m m' (fragmentsAtATime (w_params w)) (length (new1 @ new))"
    proof (cases new1)
      case Nil
      then have "m1 = m" using s(1) by (simp add: sent_parts_def)
      then show ?thesis using ih(3) g(3) Nil by simp
    next
      case (Cons x xs)
      then have "length new1 = 1" using s(2) by simp
      then show ?thesis using window_ok_step [of m _ m1 m' "length new"] that(1) g(3,8) ih(3) by simp
    qed
    moreover have "retryPass env w (Some a) (i # is) = Inr w'" using run(2) ih(1) by (rule trans)
    moreover have "sentNum w' \<le> sentNum w + length (i # is)" using ih(4) s(3) by simp
    ultimately show ?thesis by (intro exI conjI)
  qed
  show ?case
  proof (cases ?full)
    case True
    then show ?thesis using Cons.prems
      by (intro exI [of _ w] exI [of _ m] exI [of _ "[]"]) (auto simp: sent_parts_refl step(1))
  next
    case False
    show ?thesis
    proof (cases ?again)
      case True
      show ?thesis
      proof (cases rule: msgSendPart_effect [OF assms(1) n0 Cons.prems(1,2) i, case_names sent failed])
        case (sent w1 m1 x)
        show ?thesis by (rule rest [OF False _ sent(2)]) (use False True in \<open>simp_all add: step sent(1,5)\<close>)
      next
        case (failed w1)
        show ?thesis by (rule rest [OF False _ failed(2)]) (use False True in \<open>simp_all add: step failed(1,3)\<close>)
      qed
    next
      case no: False
      show ?thesis
        by (rule rest [OF False _ sent_parts_refl [OF Cons.prems(1,2)]]) (use False no in \<open>auto simp: step\<close>)
    qed
  qed
qed

lemma msgSendNextParts_effect:
  assumes env: "tox_receipts_ok env n" and ok: "rt_ok env (friend_number m) w" and m: "q_heap (w_q w) a = Some m" "msg_sane m"
    and room: "sentNum w + 2 * unat (numParts m) \<le> n"
  obtains w' m' new where "msgSendNextParts env w (Some a) = Inr w'" "sent_parts env a UNIV m w m' w' new"
    "window_ok m m' (fragmentsAtATime (w_params w)) (length new)" "msg_sane m'" "sentNum w' \<le> sentNum w + 2 * unat (numParts m)"
proof -
  have "\<forall>i\<in>set [unat (lastSent m + 1)..<unat (numParts m)]. i < length (fragments m)"
    "sentNum w + length [unat (lastSent m + 1)..<unat (numParts m)] \<le> n" using m(2) room by (simp_all add: msg_sane_def)
  from sendPass_effect [OF env ok m(1) this] obtain w1 m1 new1 where
    s: "sendPass env w (Some a) [unat (lastSent m + 1)..<unat (numParts m)] = Inr w1"
      "sent_parts env a (set [unat (lastSent m + 1)..<unat (numParts m)]) m w m1 w1 new1"
      "window_ok m m1 (fragmentsAtATime (w_params w)) (length new1)"
      "sentNum w1 \<le> sentNum w + length [unat (lastSent m + 1)..<unat (numParts m)]" by blast
  note g = sent_parts_world [OF s(2)] and len = sent_parts_length [OF s(2)]
  have m1: "q_heap (w_q w1) a = Some m1" "\<forall>i\<in>set [0..<unat (numParts m1)]. i < length (fragments m1)"
    using g(1,9) len m(2) by (simp_all add: msg_sane_def)
  have "sentNum w1 + length [0..<unat (numParts m1)] \<le> n" using s(4) room g(9) by simp
  moreover have "rt_ok env (friend_number m1) w1" using g(7,10) by simp
  ultimately obtain w2 m2 new2 where
    r: "retryPass env w1 (Some a) [0..<unat (numParts m1)] = Inr w2"
      "sent_parts env a (set [0..<unat (numParts m1)]) m1 w1 m2 w2 new2"
      "window_ok m1 m2 (fragmentsAtATime (w_params w1)) (length new2)" "sentNum w2 \<le> sentNum w1 + length [0..<unat (numParts m1)]"
    using retryPass_effect [OF env _ m1] by blast
  have "msgSendNextParts env w (Some a) = Inr w2"
    by (simp add: msgSendNextParts_def derefW_at [OF m(1)] s(1) derefW_at [OF m1(1)] r(1))
  moreover have "sent_parts env a UNIV m w m2 w2 (new1 @ new2)"
    using sent_parts_trans [OF sent_parts_mono [OF s(2)] sent_parts_mono [OF r(2)], of UNIV] by simp
  moreover have "window_ok m m2 (fragmentsAtATime (w_params w)) (length (new1 @ new2))"
    using s(3) r(3) g(3) by (auto simp: window_ok_def)
  moreover have "msg_sane m2"
    using m(2) len sent_parts_length [OF r(2)] sent_parts_world(9) [OF r(2)] g(9) by (simp add: msg_sane_def)
  moreover have "sentNum w2 \<le> sentNum w + 2 * unat (numParts m)" using s(4) r(4) g(9) by simp
  ultimately show thesis by (rule that)
qed

subsection \<open>Accepting a long message\<close>

text \<open>
  The state of the sender between calls: \<open>xs\<close> are the messages in the ring, no address is in use
  that has not been handed out, the receipt table has no gaps, the database is consistent, and the
  parameters and the last receipt number are usable.
\<close>

definition sender_ok :: "env \<Rightarrow> u32 \<Rightarrow> world \<Rightarrow> addr list \<Rightarrow> bool" where
  "sender_ok env friend w xs \<longleftrightarrow> ring (w_q w) xs \<and> heap_sane (w_q w) \<and> (\<forall>a\<ge>w_brk w. q_heap (w_q w) a = None) \<and>
     rt_ok env friend w \<and> db_inv (w_db w) \<and> markerMaxSizeEver w = 63 \<and> 63 < unat (maxMessageLength (w_params w)) \<and>
     range_ok (w_params w) \<and> in_range (w_params w) (lastReceipt w)"

lemma sender_okD:
  assumes "sender_ok env friend w xs"
  shows "ring (w_q w) xs" "heap_sane (w_q w)" "w_brk w \<le> a \<Longrightarrow> q_heap (w_q w) a = None" "rt_ok env friend w"
    "db_inv (w_db w)" "markerMaxSizeEver w = 63" "63 < unat (maxMessageLength (w_params w))"
    "range_ok (w_params w)" "in_range (w_params w) (lastReceipt w)"
  using assms by (simp_all add: sender_ok_def)

lemma ringReceipts_frame:
  "(\<And>a. a \<in> set xs \<Longrightarrow> q_heap q' a = q_heap q a) \<Longrightarrow> ringReceipts q' xs = ringReceipts q xs"
  by (simp add: ringReceipts_def)

lemma heap_sane_upd:
  "heap_sane q \<Longrightarrow> msg_sane m \<Longrightarrow> heap_sane (q\<lparr>q_heap := (q_heap q)(a \<mapsto> m)\<rparr>)"
  by (auto simp: heap_sane_def ran_def)

lemma content_at:
  assumes "content q' = content q" "q_heap q a = Some m"
  obtains p n where "q_heap q' a = Some (m\<lparr>m_prev := p, m_next := n\<rparr>)"
proof -
  have "content q' a = Some (m\<lparr>m_prev := None, m_next := None\<rparr>)" using assms by (simp add: content_def)
  then obtain m' where m': "q_heap q' a = Some m'" "m'\<lparr>m_prev := None, m_next := None\<rparr> = m\<lparr>m_prev := None, m_next := None\<rparr>"
    by (auto simp: content_def)
  from m'(2) have "m\<lparr>m_prev := m_prev m', m_next := m_next m'\<rparr> = m'" by (cases m, cases m') simp
  with m'(1) show thesis by (intro that [where p = "m_prev m'" and n = "m_next m'"]) simp
qed

lemma in_linkedIn [simp]: "set (linkedIn a xs) = insert a (set xs)"
  by (auto simp: linkedIn_def split: list.splits)

lemma acceptMessage_effect:
  assumes e: "engine_ok (db_engine env)" and ok: "sender_ok env friend w xs" and m: "q_heap (w_q w) a = Some m" "a \<notin> set xs"
    and room: "card (ringReceipts (w_q w) xs) < rangeSize (w_params w)" "length xs < fuel"
    and db: "selMeta (w_db w) (key_of 1 friend (m_id m)) = None"
      "length message \<le> maxBlob (db_engine env)" "unat (numParts m) \<le> length message"
  obtains r q' db' p n where
    "acceptMessage fuel env w (Some a) friend type message = Inr (r, w\<lparr>lastReceipt := r, w_q := q', w_db := db'\<rparr>)"
    "in_range (w_params w) r" "r \<notin> ringReceipts (w_q w) xs"
    "sender_ok env friend (w\<lparr>lastReceipt := r, w_q := q', w_db := db'\<rparr>) (linkedIn a xs)"
    "q_heap q' a = Some (m\<lparr>m_type := type, m_receipt := r, m_prev := p, m_next := n\<rparr>)"
    "dbInsertOutboundMessage (db_engine env) friend type (m_id m) (m_id m) (numParts m) message r (w_db w) = Inr db'"
    "\<And>b. b \<noteq> a \<Longrightarrow> content q' b = content (w_q w) b"
proof -
  note s = sender_okD [OF ok]
  let ?m1 = "m\<lparr>m_type := type\<rparr>" and ?q = "w_q w"
  let ?q1 = "?q\<lparr>q_heap := (q_heap ?q)(a \<mapsto> ?m1)\<rparr>"
  have other: "b \<in> set xs \<Longrightarrow> q_heap ?q1 b = q_heap ?q b" for b using m(2) by auto
  have r1: "ring ?q1 xs" by (rule ring_frame [OF s(1) _ other]) simp_all
  have rr: "ringReceipts ?q1 xs = ringReceipts ?q xs" by (rule ringReceipts_frame) (rule other)
  from generateReceiptNo_finds [OF r1 s(8,9) _ room(2)] room(1) obtain r where
    r: "generateReceiptNo fuel (w_params w) ?q1 (lastReceipt w) = Inr r" "in_range (w_params w) r"
      "r \<notin> ringReceipts ?q xs" by (auto simp: rr)
  let ?m2 = "?m1\<lparr>m_receipt := r\<rparr>"
  let ?q2 = "?q1\<lparr>q_heap := (q_heap ?q1)(a \<mapsto> ?m2)\<rparr>"
  have "ring ?q2 xs" using r1 by (rule ring_frame) (use m(2) in auto)
  then obtain q' where q': "msgsOutboundLink ?q2 (Some a) = Inr q'" "ring q' (linkedIn a xs)" "content q' = content ?q2"
    by (rule ring_link [OF _ _ m(2)]) simp
  have "q_heap ?q2 a = Some ?m2" by simp
  from content_at [OF q'(3) this] obtain p n where
    m': "q_heap q' a = Some (?m2\<lparr>m_prev := p, m_next := n\<rparr>)" .
  from insertOutbound_runs [OF e s(5) db] obtain db' where
    db': "dbInsertOutboundMessage (db_engine env) friend type (m_id m) (m_id m) (numParts m) message r (w_db w) = Inr db'"
    by blast
  have inv: "db_inv db'" using insertOutbound_effect [OF e s(5) db'] by blast
  have "msg_sane m" using s(2) m(1) by (auto simp: heap_sane_def ran_def)
  then have "heap_sane ?q2" using s(2) by (intro heap_sane_upd) (auto simp: msg_sane_def)
  then have sane: "heap_sane q'" by (simp only: heap_sane_content q'(3))
  have fresh: "q_heap q' b = None" if "w_brk w \<le> b" for b
  proof -
    have "q_heap ?q b = None" using that by (rule s(3))
    moreover have "b \<noteq> a" using calculation m(1) by auto
    ultimately have "q_heap ?q2 b = None" by simp
    then show ?thesis using content_dom [OF q'(3), of b] by simp
  qed
  have run: "acceptMessage fuel env w (Some a) friend type message = Inr (r, w\<lparr>lastReceipt := r, w_q := q', w_db := db'\<rparr>)"
    using m(1) r(1) q'(1) m' db' by (simp add: acceptMessage_def updMsgW_at deref_def)
  show thesis
  proof (rule that [OF run r(2,3) _ _ db'])
    show "sender_ok env friend (w\<lparr>lastReceipt := r, w_q := q', w_db := db'\<rparr>) (linkedIn a xs)"
      using s(4,6-8) q'(2) sane fresh inv r(2) by (simp add: sender_ok_def rt_ok_def)
    show "q_heap q' a = Some (m\<lparr>m_type := type, m_receipt := r, m_prev := p, m_next := n\<rparr>)" using m' by simp
    show "content q' b = content ?q b" if "b \<noteq> a" for b
      using that fun_cong [OF q'(3), of b] by (simp add: content_def)
  qed
qed

subsection \<open>friend_send_message_long\<close>

definition nextMsgId :: "env \<Rightarrow> world \<Rightarrow> u64" where
  "nextMsgId env w = max (clock env (w_trace w)) (lastMsgId w + 1)"

text \<open>The fragments of a message, as bytes on the wire.\<close>

definition pieceLen :: "world \<Rightarrow> byte list \<Rightarrow> nat" where
  "pieceLen w message = pieceSize 63 (unat (maxMessageLength (w_params w))) (length message)"

definition wireParts :: "env \<Rightarrow> world \<Rightarrow> byte list \<Rightarrow> byte list list" where
  "wireParts env w message = map (wireFragment (nextMsgId env w) (pieceLen w message) message)
     [0..<pieceCount (length message) (pieceLen w message)]"

definition longMsg :: "env \<Rightarrow> world \<Rightarrow> u32 \<Rightarrow> byte list \<Rightarrow> msg_outbound" where
  "longMsg env w friend message =
     (newMsgOutbound (nextMsgId env w) (of_nat (length (wireParts env w message)))
        (map newFragment (wireParts env w message)))\<lparr>friend_number := friend\<rparr>"

text \<open>The world when the message has been split and allocated.\<close>

definition longStart :: "env \<Rightarrow> world \<Rightarrow> u32 \<Rightarrow> byte list \<Rightarrow> world" where
  "longStart env w friend message = w\<lparr>w_trace := w_trace w @ [Clock (clock env (w_trace w))], lastMsgId := nextMsgId env w,
     w_q := (w_q w)\<lparr>q_heap := (q_heap (w_q w))(w_brk w \<mapsto> longMsg env w friend message)\<rparr>,
     w_brk := w_brk w + 1\<rparr>"

lemma longMsg_simps [simp]:
  "friend_number (longMsg env w friend message) = friend" "m_type (longMsg env w friend message) = 0"
  "numTransit (longMsg env w friend message) = 0" "m_id (longMsg env w friend message) = nextMsgId env w"
  "numParts (longMsg env w friend message) = of_nat (length (wireParts env w message))"
  "fragments (longMsg env w friend message) = map newFragment (wireParts env w message)"
  "map f_data (fragments (longMsg env w friend message)) = map Some (wireParts env w message)"
  by (simp_all add: longMsg_def newMsgOutbound_def newFragment_def)

lemma longStart_simps [simp]:
  "q_heap (w_q (longStart env w friend message)) = (q_heap (w_q w))(w_brk w \<mapsto> longMsg env w friend message)"
  "msgsOutbound (w_q (longStart env w friend message)) = msgsOutbound (w_q w)"
  "w_rt (longStart env w friend message) = w_rt w" "w_db (longStart env w friend message) = w_db w"
  "w_params (longStart env w friend message) = w_params w" "w_brk (longStart env w friend message) = w_brk w + 1"
  "w_trace (longStart env w friend message) = w_trace w @ [Clock (clock env (w_trace w))]"
  "markerMaxSizeEver (longStart env w friend message) = markerMaxSizeEver w"
  "lastReceipt (longStart env w friend message) = lastReceipt w"
  by (simp_all add: longStart_def)

lemma length_wireParts: "63 < unat (maxMessageLength (w_params w)) \<Longrightarrow> length (wireParts env w message) \<le> length message"
  using pieceSize_bounds(1) [of "unat (maxMessageLength (w_params w))" 63 "length message"]
  by (simp add: wireParts_def pieceLen_def pieceCount_le)

lemma friend_send_message_long_eq:
  assumes "markerMaxSizeEver w = 63" "63 < unat (maxMessageLength (w_params w))" "length message < 2 ^ 32"
    "lastMsgId w \<noteq> -1" "unat (nextMsgId env w) < 10 ^ 13"
  shows "friend_send_message_long fuel env w friend type message =
    bindR (sendPass env (longStart env w friend message) (Some (w_brk w)) [0..<length (wireParts env w message)]) (\<lambda>w'.
    bindR (derefW w' (Some (w_brk w))) (\<lambda>m.
      if numTransit m > 0 then acceptMessage fuel env w' (Some (w_brk w)) friend type message
      else bindR (msgOutboundDelete (w_q w') (Some (w_brk w))) (\<lambda>q. Inr (0, w'\<lparr>w_q := q\<rparr>))))"
proof -
  have split: "splitMessage 63 message (ucast (maxMessageLength (w_params w))) (nextMsgId env w)
      = Inr (newMsgOutbound (nextMsgId env w) (of_nat (length (wireParts env w message)))
          (map newFragment (wireParts env w message)))"
    using splitMessage_eq [OF assms(2,3,5) refl]
    by (simp add: splitFragments_def wireParts_def pieceLen_def comp_def)
  have parts: "unat (of_nat (length (wireParts env w message)) :: u32) = length (wireParts env w message)"
    using length_wireParts [OF assms(2)] assms(3) by (intro unat_of_nat_u32) (rule le_less_trans)
  show ?thesis
    using assms(1,4) split
    by (simp add: friend_send_message_long_def getCurrTimeMs_def Let_def generateMsgId_eq nextMsgId_def [symmetric]
        allocMsg_def newMsgOutbound_def parts longStart_def longMsg_def emit_def cong: bindR_weak_cong)
qed

text \<open>Neither the start nor the parts sent disturb the state of the sender.\<close>

lemma longStart_ok:
  assumes "sender_ok env friend w xs" "length message < 2 ^ 32"
  shows "sender_ok env friend (longStart env w friend message) xs" "w_brk w \<notin> set xs"
    "msg_sane (longMsg env w friend message)"
proof -
  note s = sender_okD [OF assms(1)]
  have none: "q_heap (w_q w) (w_brk w) = None" by (rule s(3)) simp
  then show fresh: "w_brk w \<notin> set xs" using ring_alloc [OF s(1)] by blast
  have "length (wireParts env w message) < 2 ^ 32" using length_wireParts [OF s(7)] assms(2) by (rule le_less_trans)
  then show sane: "msg_sane (longMsg env w friend message)" by (simp add: msg_sane_def unat_of_nat_u32)
  have "ring (w_q (longStart env w friend message)) xs"
    by (rule ring_frame [OF s(1)]) (use fresh in auto)
  moreover have "rt_ok env friend (longStart env w friend message)"
    using s(4) by (fastforce simp: rt_ok_def)
  moreover have "heap_sane (w_q (longStart env w friend message))"
    using heap_sane_upd [OF s(2) sane] by (simp add: longStart_def)
  ultimately show "sender_ok env friend (longStart env w friend message) xs"
    using s(3,5-9) by (simp add: sender_ok_def)
qed

lemma sent_parts_sender_ok:
  assumes "sent_parts env a is m w m' w' new" "sender_ok env friend w xs" "a \<notin> set xs" "msg_sane m" "friend_number m = friend"
  shows "sender_ok env friend w' xs"
proof -
  note s = sender_okD [OF assms(2)] and g = sent_parts_world [OF assms(1)] and len = sent_parts_length [OF assms(1)]
  have a: "q_heap (w_q w) a = Some m" using assms(1) by (simp add: sent_parts_def)
  have "ring (w_q w') xs" by (rule ring_frame [OF s(1) g(2)]) (use assms(3) g(1) in auto)
  moreover have "msg_sane m'" using assms(4) len g(9) by (simp add: msg_sane_def)
  then have "heap_sane (w_q w')" using s(2) g(1) by (auto simp: heap_sane_def ran_def)
  moreover have "q_heap (w_q w') b = None" if "w_brk w \<le> b" for b
    using s(3) [OF that] a g(1) by auto
  ultimately show ?thesis using s(5-9) g assms(5) by (simp add: sender_ok_def)
qed

lemma sent_parts_none:
  assumes "sent_parts env a is m w m' w' []"
  shows "m' = m" "w' = w\<lparr>w_trace := w_trace w'\<rparr>"
proof -
  note f = assms [unfolded sent_parts_def]
  show m': "m' = m" using f by blast
  have "w_rt w' = w_rt w" using f by blast
  moreover have "w' = w\<lparr>w_q := (w_q w)\<lparr>q_heap := (q_heap (w_q w))(a \<mapsto> m')\<rparr>, w_rt := w_rt w', w_trace := w_trace w'\<rparr>"
    using f by blast
  moreover have "q_heap (w_q w) a = Some m" using f by blast
  ultimately show "w' = w\<lparr>w_trace := w_trace w'\<rparr>" using m' by (simp add: heap_same)
qed

lemma sent_parts_events:
  assumes "sent_parts env a is m w m' w' new"
  obtains evs where "w_trace w' = w_trace w @ evs"
    "\<forall>friend type d r. ToxSend friend type d r \<in> set evs \<longrightarrow> friend = friend_number m \<and> type = m_type m \<and>
           (\<exists>i\<in>is. i < length (fragments m) \<and> d = f_data (fragments m ! i))"
    "new = [] \<longleftrightarrow> (\<forall>friend type d r. ToxSend friend type d r \<in> set evs \<longrightarrow> r = 0)"
  using assms unfolding sent_parts_def by blast

text \<open>What \<open>friend_send_message_long\<close> promises when every attempt to send fails, and when one succeeds.\<close>

definition refused :: "env \<Rightarrow> u32 \<Rightarrow> world \<Rightarrow> addr list \<Rightarrow> u32 \<Rightarrow> world \<Rightarrow> bool" where
  "refused env friend w xs r w' \<longleftrightarrow> r = 0 \<and> sender_ok env friend w' xs \<and> w_q w' = w_q w \<and> w_db w' = w_db w \<and> w_rt w' = w_rt w"

definition accepted :: "env \<Rightarrow> world \<Rightarrow> addr list \<Rightarrow> u32 \<Rightarrow> int \<Rightarrow> byte list \<Rightarrow> u32 \<Rightarrow> world \<Rightarrow> bool" where
  "accepted env w xs friend type message r w' \<longleftrightarrow>
     in_range (w_params w) r \<and> r \<notin> ringReceipts (w_q w) xs \<and> sender_ok env friend w' (linkedIn (w_brk w) xs) \<and>
     dbInsertOutboundMessage (db_engine env) friend type (nextMsgId env w) (nextMsgId env w)
       (of_nat (length (wireParts env w message))) message r (w_db w) = Inr (w_db w') \<and>
     (\<exists>m. q_heap (w_q w') (w_brk w) = Some m \<and> friend_number m = friend \<and> m_type m = type \<and> m_receipt m = r \<and>
        m_id m = nextMsgId env w \<and> numParts m = of_nat (length (wireParts env w message)) \<and>
        map f_data (fragments m) = map Some (wireParts env w message) \<and>
        0 < numTransit m \<and> numTransit m \<le> fragmentsAtATime (w_params w) \<and>
        unat (numTransit m) = length (recs (w_rt w')) - length (recs (w_rt w)))"

lemma long_refused:
  assumes ok: "sender_ok env friend w xs" "sender_ok env friend w1 xs"
    and p: "sent_parts env (w_brk w) is (longMsg env w friend message) (longStart env w friend message) m1 w1 []"
  shows "msgOutboundDelete (w_q w1) (Some (w_brk w)) = Inr (w_q w)" "refused env friend w xs 0 (w1\<lparr>w_q := w_q w\<rparr>)"
proof -
  note g = sent_parts_world [OF p] and s = sender_okD [OF ok(1)]
  have "q_heap (w_q w) (w_brk w) = None" by (rule s(3)) simp
  then have q: "(w_q w1)\<lparr>q_heap := (q_heap (w_q w1))(w_brk w := None)\<rparr> = w_q w"
    using g(1,2) by (simp add: fun_upd_idem)
  then show "msgOutboundDelete (w_q w1) (Some (w_brk w)) = Inr (w_q w)"
    using delete_effect(1) [OF sender_okD(2) [OF ok(2)], of "w_brk w"] g(1) by simp
  have "w_rt w1 = w_rt w" by (subst sent_parts_none(2) [OF p]) simp
  then show "refused env friend w xs 0 (w1\<lparr>w_q := w_q w\<rparr>)"
    using sender_okD [OF ok(2)] s(1-3) g(4,13) by (simp add: refused_def sender_ok_def rt_ok_def)
qed

lemma long_accepted:
  assumes e: "engine_ok (db_engine env)" and ok: "sender_ok env friend w xs" "sender_ok env friend w1 xs"
    and room: "card (ringReceipts (w_q w) xs) < rangeSize (w_params w)" "length xs < fuel"
    and len: "length message \<le> maxBlob (db_engine env)" "length message < 2 ^ 32" "w_brk w \<notin> set xs"
    and fresh: "selMeta (w_db w) (key_of 1 friend (nextMsgId env w)) = None"
    and p: "sent_parts env (w_brk w) is (longMsg env w friend message) (longStart env w friend message) m1 w1 new"
      "window_ok (longMsg env w friend message) m1 (fragmentsAtATime (w_params w)) (length new)" "new \<noteq> []"
  shows "\<exists>r w'. acceptMessage fuel env w1 (Some (w_brk w)) friend type message = Inr (r, w') \<and>
    w_trace w' = w_trace w1 \<and> accepted env w xs friend type message r w'"
proof -
  let ?a = "w_brk w"
  note g = sent_parts_world [OF p(1)]
  have h1: "q_heap (w_q w1) ?a = Some m1" using g(1) by simp
  have transit: "unat (numTransit m1) = length new" "0 < numTransit m1"
    using p(2,3) by (simp_all add: window_ok_def word_less_nat_alt)
  have rr: "ringReceipts (w_q w1) xs = ringReceipts (w_q w) xs"
    using len(3) by (intro ringReceipts_frame) (auto simp: g(1))
  have parts: "unat (of_nat (length (wireParts env w message)) :: u32) \<le> length message"
    using length_wireParts [OF sender_okD(7) [OF ok(1)]] len(2) by (subst unat_of_nat_u32) (auto intro: le_less_trans)
  obtain r q' db' pv nx where acc:
    "acceptMessage fuel env w1 (Some ?a) friend type message = Inr (r, w1\<lparr>lastReceipt := r, w_q := q', w_db := db'\<rparr>)"
    "in_range (w_params w1) r" "r \<notin> ringReceipts (w_q w1) xs"
    "sender_ok env friend (w1\<lparr>lastReceipt := r, w_q := q', w_db := db'\<rparr>) (linkedIn ?a xs)"
    "q_heap q' ?a = Some (m1\<lparr>m_type := type, m_receipt := r, m_prev := pv, m_next := nx\<rparr>)"
    "dbInsertOutboundMessage (db_engine env) friend type (m_id m1) (m_id m1) (numParts m1) message r (w_db w1) = Inr db'"
    by (rule acceptMessage_effect [OF e ok(2) h1 len(3), of fuel message type])
      (use room len(1) fresh parts rr g in auto)
  let ?w' = "w1\<lparr>lastReceipt := r, w_q := q', w_db := db'\<rparr>"
  let ?m' = "m1\<lparr>m_type := type, m_receipt := r, m_prev := pv, m_next := nx\<rparr>"
  have "accepted env w xs friend type message r ?w'"
    unfolding accepted_def
  proof (intro conjI exI)
    show "q_heap (w_q ?w') (w_brk w) = Some ?m'" using acc(5) by simp
    have "map f_data (fragments m1) = map f_data (fragments (longMsg env w friend message))"
      "recs (w_rt w1) = recs (w_rt w) @ new"
      using p(1) by (simp_all add: sent_parts_def)
    then show "map f_data (fragments ?m') = map Some (wireParts env w message)"
      and "unat (numTransit ?m') = length (recs (w_rt ?w')) - length (recs (w_rt w))"
      using transit(1) by (simp_all add: newFragment_def)
    show "numTransit ?m' \<le> fragmentsAtATime (w_params w)"
      using p(2,3) by (simp add: window_ok_def word_le_nat_alt)
  qed (use acc rr g transit in simp_all)
  with acc(1) show ?thesis by (intro exI [of _ r] exI [of _ ?w'] conjI) simp_all
qed

lemma long_outcome:
  assumes env: "tox_receipts_ok env n" "engine_ok (db_engine env)" and ok: "sender_ok env friend w xs"
    and sends: "sentNum w + length (wireParts env w message) \<le> n"
    and room: "card (ringReceipts (w_q w) xs) < rangeSize (w_params w)" "length xs < fuel"
    and len: "length message \<le> maxBlob (db_engine env)" and mid: "lastMsgId w \<noteq> -1" "unat (nextMsgId env w) < 10 ^ 13"
    and fresh: "selMeta (w_db w) (key_of 1 friend (nextMsgId env w)) = None"
  obtains r w' evs where "friend_send_message_long fuel env w friend type message = Inr (r, w')"
    "w_trace w' = w_trace w @ Clock (clock env (w_trace w)) # evs"
    "\<And>f t d r'. ToxSend f t d r' \<in> set evs \<Longrightarrow> f = friend \<and> t = 0 \<and> d \<in> Some ` set (wireParts env w message)"
    "if \<exists>f t d r'. ToxSend f t d r' \<in> set evs \<and> r' \<noteq> 0 then accepted env w xs friend type message r w'
       else refused env friend w xs r w'"
proof -
  let ?a = "w_brk w" and ?s = "longStart env w friend message" and ?m = "longMsg env w friend message"
  have len32: "length message < 2 ^ 32" using len env(2) by (simp add: engine_ok_def)
  note s = sender_okD [OF ok] and st = longStart_ok [OF ok len32]
  note run = friend_send_message_long_eq [OF s(6,7) len32 mid, of fuel friend type]
  have heap: "q_heap (w_q ?s) ?a = Some ?m" by simp
  have idx: "\<forall>i\<in>set [0..<length (wireParts env w message)]. i < length (fragments ?m)" by simp
  have "rt_ok env (friend_number ?m) ?s" "sentNum ?s + length [0..<length (wireParts env w message)] \<le> n"
    using sender_okD(4) [OF st(1)] sends by simp_all
  from sendPass_effect [OF env(1) this(1) heap idx this(2)] obtain w1 m1 new where
    p: "sendPass env ?s (Some ?a) [0..<length (wireParts env w message)] = Inr w1"
      "sent_parts env ?a (set [0..<length (wireParts env w message)]) ?m ?s m1 w1 new"
      "window_ok ?m m1 (fragmentsAtATime (w_params ?s)) (length new)" by blast
  have h1: "derefW w1 (Some ?a) = Inr m1" using sent_parts_world(1) [OF p(2)] by (simp add: derefW_at)
  have ok1: "sender_ok env friend w1 xs" by (rule sent_parts_sender_ok [OF p(2) st]) simp
  have transit: "numTransit m1 > 0 \<longleftrightarrow> new \<noteq> []" using p(3) by (simp add: window_ok_def word_less_nat_alt)
  obtain evs where ev: "w_trace w1 = w_trace ?s @ evs"
    "\<forall>f t d r'. ToxSend f t d r' \<in> set evs \<longrightarrow> f = friend_number ?m \<and> t = m_type ?m \<and>
       (\<exists>i\<in>set [0..<length (wireParts env w message)]. i < length (fragments ?m) \<and> d = f_data (fragments ?m ! i))"
    "new = [] \<longleftrightarrow> (\<forall>f t d r'. ToxSend f t d r' \<in> set evs \<longrightarrow> r' = 0)"
    using sent_parts_events [OF p(2)] .
  have parts: "f = friend \<and> t = 0 \<and> d \<in> Some ` set (wireParts env w message)" if "ToxSend f t d r' \<in> set evs" for f t d r'
  proof -
    have "f = friend_number ?m \<and> t = m_type ?m \<and>
       (\<exists>i\<in>set [0..<length (wireParts env w message)]. i < length (fragments ?m) \<and> d = f_data (fragments ?m ! i))"
      using ev(2) that by blast
    then show ?thesis by (auto simp: newFragment_def)
  qed
  have tr: "w_trace w1 = w_trace w @ Clock (clock env (w_trace w)) # evs" using ev(1) by simp
  have some: "(\<exists>f t d r'. ToxSend f t d r' \<in> set evs \<and> r' \<noteq> 0) \<longleftrightarrow> new \<noteq> []" using ev(3) by blast
  show thesis
  proof (cases "new = []")
    case True
    note ref = long_refused [OF ok ok1 p(2)[unfolded True]]
    have "friend_send_message_long fuel env w friend type message = Inr (0, w1\<lparr>w_q := w_q w\<rparr>)"
      unfolding run p(1) bindR_Inr h1 using transit True ref(1) by simp
    then show thesis by (rule that [OF _ _ parts]) (use tr in simp, assumption, simp only: some True ref(2) simp_thms if_False)
  next
    case False
    from long_accepted [OF env(2) ok ok1 room len len32 st(2) fresh p(2) _ False, of type] p(3) obtain r w' where
      acc: "acceptMessage fuel env w1 (Some ?a) friend type message = Inr (r, w')" "w_trace w' = w_trace w1"
        "accepted env w xs friend type message r w'" by auto
    have "friend_send_message_long fuel env w friend type message = Inr (r, w')"
      unfolding run p(1) bindR_Inr h1 using transit False acc(1) by simp
    then show thesis by (rule that [OF _ _ parts]) (use tr acc(2) in simp, assumption, use some False acc(3) in simp)
  qed
qed

subsection \<open>A network for the witnesses\<close>

text \<open>The messages that tox has accepted for a friend.\<close>

definition given :: "u32 \<Rightarrow> event list \<Rightarrow> nat" where
  "given friend tr = length (filter (\<lambda>ev. \<exists>type d r. ev = ToxSend friend type d r \<and> r \<noteq> 0) tr)"

lemma given_Nil [simp]: "given friend [] = 0"
  by (simp add: given_def)

lemma given_snoc: "given friend (tr @ [ev]) = given friend tr + (if \<exists>type d r. ev = ToxSend friend type d r \<and> r \<noteq> 0 then 1 else 0)"
  by (simp add: given_def)

lemma given_le: "given friend tr \<le> length (sentOf tr)"
proof (induction tr rule: rev_induct)
  case (snoc ev tr)
  then show ?case by (cases ev) (auto simp: given_snoc)
qed simp

text \<open>
  The documented numbers, one more for each message that is sent to the friend, satisfy the assumption as
  long as they do not start again.
\<close>

lemma counted_receipts_ok:
  assumes "\<forall>tr friend type d. genuine env tr \<longrightarrow> tx_send env tr friend type d \<in> {0, of_nat (given friend tr + 1)}" "n < 2 ^ 32"
  shows "tox_receipts_ok env n"
proof -
  have old: "unat r' \<le> given friend tr" if "genuine env tr" "length (sentOf tr) < n" "ToxSend friend type' d' r' \<in> set tr" for tr friend type' d' r'
    using that
  proof (induction tr rule: rev_induct)
    case (snoc ev tr)
    have g: "genuine env tr" "length (sentOf tr) < n" using snoc.prems(1,2) by (auto simp: genuine_snoc)
    show ?case
    proof (cases "ToxSend friend type' d' r' \<in> set tr")
      case True
      then show ?thesis using snoc.IH [OF g] by (simp add: given_snoc)
    next
      case False
      then have ev: "ev = ToxSend friend type' d' r'" using snoc.prems(3) by simp
      then have "r' \<in> {0, of_nat (given friend tr + 1)}" using snoc.prems(1) assms(1) g(1) by (simp only: genuine_snoc) blast
      moreover have "unat (of_nat (given friend tr + 1) :: u32) \<le> given friend tr + 1" by (simp only: unat_of_nat) (rule mod_less_eq_dividend)
      ultimately show ?thesis by (auto simp: given_snoc ev)
    qed
  qed simp
  show ?thesis
    unfolding tox_receipts_ok_def
  proof (intro allI impI)
    fix tr friend type d type' d' r'
    assume tr: "genuine env tr" "length (sentOf tr) < n" "ToxSend friend type' d' r' \<in> set tr" "tx_send env tr friend type d \<noteq> 0"
    have "tx_send env tr friend type d = of_nat (given friend tr + 1)" using assms(1) tr(1,4) by blast
    moreover have "given friend tr + 1 < 2 ^ 32" using given_le [of friend tr] tr(2) assms(2) by simp
    then have "unat (of_nat (given friend tr + 1) :: u32) = given friend tr + 1" by (rule unat_of_nat_u32)
    ultimately show "r' < tx_send env tr friend type d" using old [OF tr(1-3)] by (simp only: word_less_nat_alt)
  qed
qed

text \<open>Tox numbers the messages to each friend from 1 on, until the numbers run out; friends are online; the clock stands still.\<close>

definition env_default :: env where
  "env_default = \<lparr>tx_send = (\<lambda>tr friend type d. of_nat (given friend tr + 1)),
     tx_online = (\<lambda>tr friend. True), clock = (\<lambda>tr. 1500000000000), db_engine = engine_default\<rparr>"

lemma env_default_ok: "n < 2 ^ 32 \<Longrightarrow> tox_receipts_ok env_default n" "engine_ok (db_engine env_default)"
  by (rule counted_receipts_ok; simp add: env_default_def) (simp add: env_default_def engine_default_ok)

text \<open>The sender right after initialisation, before the first message.\<close>

definition world_ready :: world where
  "world_ready = world0\<lparr>markerMaxSizeEver := 63, lastReceipt := receiptRangeLo params_default, w_rt := receiptsInitialize,
     initializedApi := True, initializedDb := True\<rparr>"

lemma world_ready_ok: "sender_ok env friend world_ready []"
  by (simp add: sender_ok_def world_ready_def world0_def ring_def cyc_def heap_sane_def ran_def rt_ok_def
      receiptsInitialize_dense db0_inv(1) params_default_def range_ok_def in_range_def)

lemma world_ready_ids:
  "nextMsgId env_default world_ready = 1500000000000"
  "unat (nextMsgId env_default world_ready) < 10 ^ 13"
  by (simp_all add: nextMsgId_def env_default_def world_ready_def world0_def max_def word_le_nat_alt)

subsection \<open>Properties\<close>

text \<open>What \<open>friend_send_message\<close> does with a message before any splitting: one that would be taken for a
  fragment by the receiver is refused and nothing is sent; any other one of at most
  \<open>maxMessageLength\<close> bytes is handed to tox unchanged, in one call, and the number that tox returns
  is returned; no state but the trace changes.\<close>

theorem friend_send_message_short:
  assumes "markerExists message = Inr frag" "frag \<or> length message \<le> unat (maxMessageLength (w_params w))"
  shows "friend_send_message fuel env w friend type message =
    (if frag then Inr (0, w)
     else let r = tx_send env (w_trace w) friend type (Some message)
          in Inr (r, w\<lparr>w_trace := w_trace w @ [ToxSend friend type (Some message) r]\<rparr>))"
  using assms by (auto simp: friend_send_message_def toxSend_def emit_def Let_def)

theorem friend_send_message_short_witness:
  "friend_send_message 0 env_default world0 7 0 [104, 105] =
     Inr (1, world0\<lparr>w_trace := [ToxSend 7 0 (Some [104, 105]) 1]\<rparr>)"
proof -
  have "markerExists [104, 105] = Inr False" by (simp add: markerExists_def markerParseFields_def)
  moreover have "length [104 :: byte, 105] \<le> unat (maxMessageLength (w_params world0))"
    by (simp add: world0_def params_default_def)
  moreover have "tx_send env_default (w_trace world0) 7 0 (Some [104, 105]) = 1" "w_trace world0 = []"
    by (simp_all add: env_default_def world0_def)
  ultimately show ?thesis
    using friend_send_message_short [of "[104, 105]" False world0 0 env_default 7 0] by (simp add: Let_def)
qed

text \<open>C3. What happens to a long message.  In a consistent state of the sender, whose receipt table awaits only
  receipts for messages to the same friend, with room for one more receipt number, and as long as tox
  numbers the messages to this friend in ascending order, \<open>friend_send_message_long\<close> never faults.  It hands to tox only fragments of the
  message, for this friend, and all of them with type 0, whatever the type given (the code fills
  in the type after sending).  If tox refuses all of them, 0 is returned and ring, table and
  database are as before; if at least one is sent, a fresh receipt number of the configured range
  is returned, the message is linked behind the head of the ring with its fragments and at most
  \<open>fragmentsAtATime\<close> of them in transit, and it is stored as pending in the database.\<close>

theorem friend_send_message_long_outcome:
  assumes "tox_receipts_ok env n" "engine_ok (db_engine env)" "sender_ok env friend w xs"
    "sentNum w + length (wireParts env w message) \<le> n"
    "card (ringReceipts (w_q w) xs) < rangeSize (w_params w)" "length xs < fuel"
    "length message \<le> maxBlob (db_engine env)" "lastMsgId w \<noteq> -1" "unat (nextMsgId env w) < 10 ^ 13"
    "selMeta (w_db w) (key_of 1 friend (nextMsgId env w)) = None"
  shows "\<exists>r w' evs. friend_send_message_long fuel env w friend type message = Inr (r, w') \<and>
    w_trace w' = w_trace w @ Clock (clock env (w_trace w)) # evs \<and>
    (\<forall>f t d r'. ToxSend f t d r' \<in> set evs \<longrightarrow> f = friend \<and> t = 0 \<and> d \<in> Some ` set (wireParts env w message)) \<and>
    (if \<exists>f t d r'. ToxSend f t d r' \<in> set evs \<and> r' \<noteq> 0 then accepted env w xs friend type message r w'
     else refused env friend w xs r w')"
  using assms by (rule long_outcome) blast

theorem friend_send_message_long_outcome_witness:
  "\<exists>r w' evs. friend_send_message_long 1 env_default world_ready 7 1 (replicate 5000 0x61) = Inr (r, w') \<and>
    w_trace w' = w_trace world_ready @ Clock (clock env_default (w_trace world_ready)) # evs \<and>
    (\<forall>f t d r'. ToxSend f t d r' \<in> set evs \<longrightarrow>
       f = 7 \<and> t = 0 \<and> d \<in> Some ` set (wireParts env_default world_ready (replicate 5000 0x61))) \<and>
    (if \<exists>f t d r'. ToxSend f t d r' \<in> set evs \<and> r' \<noteq> 0
     then accepted env_default world_ready [] 7 1 (replicate 5000 0x61) r w'
     else refused env_default 7 world_ready [] r w')"
proof (rule friend_send_message_long_outcome [OF env_default_ok world_ready_ok])
  have "length (wireParts env_default world_ready (replicate 5000 0x61)) \<le> length (replicate 5000 (0x61 :: byte))"
    by (rule length_wireParts) (simp add: world_ready_def world0_def params_default_def)
  then show "sentNum world_ready + length (wireParts env_default world_ready (replicate 5000 0x61)) \<le> 5000"
    by (simp add: world_ready_def world0_def)
qed (use world_ready_ids in \<open>simp_all add: ringReceipts_def rangeSize_def\<close>,
     simp_all add: world_ready_def world0_def params_default_def db0_inv env_default_def engine_default_def)

end
