(* ===== verification/Delivery.thy ===== *)
theory Delivery
  imports Sending
begin

section \<open>A long message, from the call to its receipt\<close>

text \<open>
  The whole life of a long message on the sending side, with a network that takes every fragment and
  a receiver that acknowledges the fragments in the order in which they were sent.  \<open>flying\<close> is the
  invariant of the message on its way: of its parts the first \<open>k\<close> are confirmed, those up to \<open>s\<close> are
  in transit, the rest has not been sent.  The lemmas show that a pass moves \<open>s\<close> up to the limit
  of the window, that a receipt moves \<open>k\<close> up by one and refills the window, and that the last
  receipt ends the message: the client gets its receipt, the database entry is cleared and the
  message leaves the ring.
\<close>

subsection \<open>What the client was told\<close>

fun clientOf :: "event list \<Rightarrow> client_event list" where
  "clientOf [] = []"
| "clientOf (Client ev # tr) = ev # clientOf tr"
| "clientOf (ev # tr) = clientOf tr"

lemma clientOf_append [simp]: "clientOf (tr @ tr') = clientOf tr @ clientOf tr'"
  by (induction tr rule: clientOf.induct) simp_all

text \<open>
  A network that takes what is sent to a friend, at least when it is among the first \<open>n\<close> messages, and a
  friend who is online.
\<close>

definition reliable :: "env \<Rightarrow> u32 \<Rightarrow> nat \<Rightarrow> bool" where
  "reliable env friend n \<longleftrightarrow>
     (\<forall>tr type d. genuine env tr \<longrightarrow> length (sentOf tr) < n \<longrightarrow> tx_send env tr friend type d \<noteq> 0) \<and>
     (\<forall>tr. tx_online env tr friend)"

subsection \<open>The message on its way\<close>

definition flying :: "byte list list \<Rightarrow> nat \<Rightarrow> nat \<Rightarrow> msg_outbound \<Rightarrow> bool" where
  "flying ps k s m \<longleftrightarrow> k \<le> s \<and> s \<le> length ps \<and> length ps < 2 ^ 31 \<and> numParts m = of_nat (length ps) \<and>
     map f_data (fragments m) = map (\<lambda>i. if i < k then None else Some (ps ! i)) [0..<length ps] \<and>
     numConfirmed m = of_nat k \<and> numTransit m = of_nat (s - k) \<and> lastSent m = of_nat (s - 1)"

lemma flyingD:
  assumes "flying ps k s m"
  shows "k \<le> s" "s \<le> length ps" "length (fragments m) = length ps" "unat (numParts m) = length ps"
    "unat (numConfirmed m) = k" "unat (numTransit m) = s - k" "msg_sane m"
    "i < length ps \<Longrightarrow> f_data (fragments m ! i) = (if i < k then None else Some (ps ! i))"
proof -
  have data: "map f_data (fragments m) = map (\<lambda>i. if i < k then None else Some (ps ! i)) [0..<length ps]"
    and ks: "k \<le> s" "s \<le> length ps" "length ps < 2 ^ 31"
    and n: "numParts m = of_nat (length ps)" "numConfirmed m = of_nat k" "numTransit m = of_nat (s - k)"
    using assms by (simp_all add: flying_def)
  show "k \<le> s" "s \<le> length ps" by (fact ks)+
  show len: "length (fragments m) = length ps" using arg_cong [OF data, of length] by simp
  show u: "unat (numParts m) = length ps" "unat (numConfirmed m) = k" "unat (numTransit m) = s - k"
    unfolding n using ks by (auto intro!: unat_of_nat_u32 simp del: of_nat_diff)
  show "msg_sane m" by (simp add: msg_sane_def len u)
  show "f_data (fragments m ! i) = (if i < k then None else Some (ps ! i))" if "i < length ps"
  proof -
    have "f_data (fragments m ! i) = map f_data (fragments m) ! i" using that len by simp
    also have "\<dots> = (if i < k then None else Some (ps ! i))" using that by (simp add: data)
    finally show ?thesis .
  qed
qed

text \<open>
  Parts \<open>s\<close> to \<open>s'\<close> of the message at \<open>a\<close> have been sent, in order, and nothing else has happened.
\<close>

definition sentRange :: "env \<Rightarrow> addr \<Rightarrow> byte list list \<Rightarrow> nat \<Rightarrow> nat \<Rightarrow> world \<Rightarrow> msg_outbound \<Rightarrow> world \<Rightarrow> msg_outbound \<Rightarrow> bool" where
  "sentRange env a ps s s' w m w' m' \<longleftrightarrow> q_heap (w_q w) a = Some m \<and> rt_ok env (friend_number m) w' \<and> genuine env (w_trace w') \<and>
     (\<exists>fs ls nt. m' = m\<lparr>fragments := fs, lastSent := ls, numTransit := nt\<rparr>) \<and>
     (\<exists>rt evs new. w' = w\<lparr>w_q := (w_q w)\<lparr>q_heap := (q_heap (w_q w))(a \<mapsto> m')\<rparr>, w_rt := rt, w_trace := w_trace w @ evs\<rparr> \<and>
        sentOf evs = map (\<lambda>i. (friend_number m, m_type m, Some (ps ! i))) [s..<s'] \<and> clientOf evs = [] \<and>
        receiptsLo rt = receiptsLo (w_rt w) \<and> recs rt = recs (w_rt w) @ new \<and>
        map (\<lambda>x. (r_msg x, r_partNo x)) new = map (\<lambda>i. (Some a, of_nat (i + 1))) [s..<s'])"

lemma sentRange_refl: "rt_ok env (friend_number m) w \<Longrightarrow> genuine env (w_trace w) \<Longrightarrow> q_heap (w_q w) a = Some m \<Longrightarrow> sentRange env a ps s s w m w m"
  unfolding sentRange_def
  by (intro conjI exI [of _ "fragments m"] exI [of _ "lastSent m"] exI [of _ "numTransit m"]
      exI [of _ "w_rt w"] exI [of _ "[]"]) (simp_all add: heap_same)

lemma upt_split: "i \<le> j \<Longrightarrow> j \<le> k \<Longrightarrow> [i..<k] = [i..<j] @ [j..<k]"
  by (metis le_add_diff_inverse upt_add_eq_append)

lemma sentRange_trans:
  assumes "sentRange env a ps s s1 w m w1 m1" "sentRange env a ps s1 s2 w1 m1 w2 m2" "s \<le> s1" "s1 \<le> s2"
  shows "sentRange env a ps s s2 w m w2 m2"
proof -
  from assms(1) obtain fs1 ls1 nt1 rt1 evs1 new1 where 1: "q_heap (w_q w) a = Some m"
    "m1 = m\<lparr>fragments := fs1, lastSent := ls1, numTransit := nt1\<rparr>"
    "w1 = w\<lparr>w_q := (w_q w)\<lparr>q_heap := (q_heap (w_q w))(a \<mapsto> m1)\<rparr>, w_rt := rt1, w_trace := w_trace w @ evs1\<rparr>"
    "sentOf evs1 = map (\<lambda>i. (friend_number m, m_type m, Some (ps ! i))) [s..<s1]" "clientOf evs1 = []"
    "receiptsLo rt1 = receiptsLo (w_rt w)" "recs rt1 = recs (w_rt w) @ new1"
    "map (\<lambda>x. (r_msg x, r_partNo x)) new1 = map (\<lambda>i. (Some a, of_nat (i + 1))) [s..<s1]"
    unfolding sentRange_def by blast
  from assms(2) obtain fs2 ls2 nt2 rt2 evs2 new2 where 2: "rt_ok env (friend_number m1) w2" "genuine env (w_trace w2)"
    "m2 = m1\<lparr>fragments := fs2, lastSent := ls2, numTransit := nt2\<rparr>"
    "w2 = w1\<lparr>w_q := (w_q w1)\<lparr>q_heap := (q_heap (w_q w1))(a \<mapsto> m2)\<rparr>, w_rt := rt2, w_trace := w_trace w1 @ evs2\<rparr>"
    "sentOf evs2 = map (\<lambda>i. (friend_number m1, m_type m1, Some (ps ! i))) [s1..<s2]" "clientOf evs2 = []"
    "receiptsLo rt2 = receiptsLo (w_rt w1)" "recs rt2 = recs (w_rt w1) @ new2"
    "map (\<lambda>x. (r_msg x, r_partNo x)) new2 = map (\<lambda>i. (Some a, of_nat (i + 1))) [s1..<s2]"
    unfolding sentRange_def by blast
  have up: "[s..<s2] = [s..<s1] @ [s1..<s2]" using assms(3,4) by (rule upt_split)
  show ?thesis
    unfolding sentRange_def
  proof (intro conjI exI)
    show "m2 = m\<lparr>fragments := fs2, lastSent := ls2, numTransit := nt2\<rparr>" using 1(2) 2(3) by simp
    show "w2 = w\<lparr>w_q := (w_q w)\<lparr>q_heap := (q_heap (w_q w))(a \<mapsto> m2)\<rparr>, w_rt := rt2, w_trace := w_trace w @ evs1 @ evs2\<rparr>"
      using 1(3) 2(4) by simp
    show "recs rt2 = recs (w_rt w) @ new1 @ new2" using 1(3,7) 2(8) by simp
    show "receiptsLo rt2 = receiptsLo (w_rt w)" using 1(3,6) 2(7) by simp
    show "sentOf (evs1 @ evs2) = map (\<lambda>i. (friend_number m, m_type m, Some (ps ! i))) [s..<s2]"
      using 1(2,4) 2(5) by (simp add: up)
  qed (use 1 2 up in simp_all)
qed

subsection \<open>A pass fills the window\<close>

text \<open>One part, as the first pass sends it.\<close>

lemma sendPart_flight:
  assumes env: "tox_receipts_ok env N" "reliable env (friend_number m) N" "sentNum w < N" "genuine env (w_trace w)"
    and ok: "rt_ok env (friend_number m) w" and m: "q_heap (w_q w) a = Some m" "flying ps k s m" and s: "s < length ps"
  obtains w1 where "msgSendPart env w (Some a) s = Inr (True, w1)"
    "\<exists>w' m'. updMsgW w1 (Some a) (\<lambda>m. m\<lparr>lastSent := of_nat s\<rparr>) = Inr w' \<and> q_heap (w_q w') a = Some m' \<and>
       flying ps k (s + 1) m' \<and> sentRange env a ps s (s + 1) w m w' m'"
proof -
  let ?r = "tx_send env (w_trace w) (friend_number m) (m_type m) (f_data (fragments m ! s))"
  note f = flyingD [OF m(2)]
  have r: "?r \<noteq> 0" using env(2-4) by (simp add: reliable_def)
  have i: "s < length (fragments m)" using s f(3) by simp
  have data: "f_data (fragments m ! s) = Some (ps ! s)" using f(1) f(8) [OF s] by simp
  let ?ev = "ToxSend (friend_number m) (m_type m) (Some (ps ! s)) ?r"
  let ?m1 = "partSent s ?r m" and ?m2 = "(partSent s ?r m)\<lparr>lastSent := of_nat s\<rparr>"
  from msgSendPart_run(2) [OF env(1,3) ok m(1) i r] obtain now rt where
    go: "msgSendPart env w (Some a) s = Inr (True, w\<lparr>w_q := (w_q w)\<lparr>q_heap := (q_heap (w_q w))(a \<mapsto> ?m1)\<rparr>,
        w_rt := rt, w_trace := w_trace w @ [?ev, Clock now]\<rparr>)"
      and rt: "rt_dense rt" "recs rt = recs (w_rt w) @ [\<lparr>r_receipt = ?r, r_msg = Some a, r_partNo = of_nat (s + 1), r_timestamp = now\<rparr>]"
        "receiptsLo rt = receiptsLo (w_rt w)"
    unfolding data by blast
  let ?w1 = "w\<lparr>w_q := (w_q w)\<lparr>q_heap := (q_heap (w_q w))(a \<mapsto> ?m1)\<rparr>, w_rt := rt, w_trace := w_trace w @ [?ev, Clock now]\<rparr>"
  let ?w2 = "w\<lparr>w_q := (w_q w)\<lparr>q_heap := (q_heap (w_q w))(a \<mapsto> ?m2)\<rparr>, w_rt := rt, w_trace := w_trace w @ [?ev, Clock now]\<rparr>"
  have upd: "updMsgW ?w1 (Some a) (\<lambda>m. m\<lparr>lastSent := of_nat s\<rparr>) = Inr ?w2"
    by (subst updMsgW_at [of _ _ ?m1]) simp_all
  have "map f_data (fragments ?m1) = map f_data (fragments m)"
    using i by (auto simp: list_eq_iff_nth_eq nth_list_update)
  then have "flying ps k (s + 1) ?m2"
    using m(2) s by (simp add: flying_def Suc_diff_le)
  moreover have "sentRange env a ps s (s + 1) w m ?w2 ?m2"
    unfolding sentRange_def
  proof (intro conjI exI)
    have "genuine env ((w_trace w @ [?ev]) @ [Clock now])"
      using env(4) data by (simp only: genuine_other genuine_snoc) simp
    then show "genuine env (w_trace ?w2)" by simp
    show "rt_ok env (friend_number m) ?w2"
      by (rule rt_ok_step [OF ok, of _ "\<lparr>r_receipt = ?r, r_msg = Some a, r_partNo = of_nat (s + 1), r_timestamp = now\<rparr>"
            "m_type m" "Some (ps ! s)" now]) (simp_all add: rt data)
    show "?m2 = m\<lparr>fragments := fragments ?m1, lastSent := of_nat s, numTransit := numTransit m + 1\<rparr>"
      by (simp add: partSent_def updFragment_def)
    show "?w2 = w\<lparr>w_q := (w_q w)\<lparr>q_heap := (q_heap (w_q w))(a \<mapsto> ?m2)\<rparr>, w_rt := rt, w_trace := w_trace w @ [?ev, Clock now]\<rparr>"
      by (rule refl)
    show "recs rt = recs (w_rt w) @ [\<lparr>r_receipt = ?r, r_msg = Some a, r_partNo = of_nat (s + 1), r_timestamp = now\<rparr>]"
      by (fact rt(2))
  qed (use m(1) rt in simp_all)
  ultimately show thesis by (intro that [OF go]) (use upd in force)
qed

lemma sendPass_flight:
  assumes env: "tox_receipts_ok env N" "reliable env friend N"
  shows "sentNum w + (length ps - s) \<le> N \<Longrightarrow> genuine env (w_trace w) \<Longrightarrow> rt_ok env friend w \<Longrightarrow> q_heap (w_q w) a = Some m \<Longrightarrow>
    flying ps k s m \<Longrightarrow> friend_number m = friend \<Longrightarrow> \<exists>w' m'. sendPass env w (Some a) [s..<length ps] = Inr w' \<and>
      (let s' = max s (min (length ps) (k + unat (fragmentsAtATime (w_params w))))
       in flying ps k s' m' \<and> sentRange env a ps s s' w m w' m')"
proof (induction "length ps - s" arbitrary: s w m)
  case 0
  then have "s = length ps" by (auto dest: flyingD)
  with 0 show ?case by (intro exI [of _ w] exI [of _ m]) (simp add: sentRange_refl)
next
  case (Suc n)
  let ?F = "unat (fragmentsAtATime (w_params w))"
  note f = flyingD [OF Suc.prems(5)]
  have s: "s < length ps" using Suc.hyps(2) by simp
  have upt: "[s..<length ps] = s # [s + 1..<length ps]" using s by (simp add: upt_rec)
  have full: "numTransit m < fragmentsAtATime (w_params w) \<longleftrightarrow> s - k < ?F"
    by (simp add: word_less_nat_alt f(6))
  show ?case
  proof (cases "s - k < ?F")
    case False
    then have "max s (min (length ps) (k + ?F)) = s" using f(1) by simp
    then show ?thesis using Suc.prems False
      by (intro exI [of _ w] exI [of _ m]) (simp add: upt derefW_at full sentRange_refl)
  next
    case True
    have room: "sentNum w < N" using Suc.prems(1) s by simp
    have rel: "reliable env (friend_number m) N" "rt_ok env (friend_number m) w" using env(2) Suc.prems(3,6) by simp_all
    obtain w1 where w1: "msgSendPart env w (Some a) s = Inr (True, w1)"
      "\<exists>w' m'. updMsgW w1 (Some a) (\<lambda>m. m\<lparr>lastSent := of_nat s\<rparr>) = Inr w' \<and> q_heap (w_q w') a = Some m' \<and>
         flying ps k (s + 1) m' \<and> sentRange env a ps s (s + 1) w m w' m'"
      by (rule sendPart_flight [OF env(1) rel(1) room Suc.prems(2) rel(2) Suc.prems(4,5) s])
    from w1(2) obtain w2 m2 where w2: "updMsgW w1 (Some a) (\<lambda>m. m\<lparr>lastSent := of_nat s\<rparr>) = Inr w2"
      "q_heap (w_q w2) a = Some m2" "flying ps k (s + 1) m2" "sentRange env a ps s (s + 1) w m w2 m2" by blast
    have w2': "rt_ok env friend w2" "genuine env (w_trace w2)" "w_params w2 = w_params w" "sentNum w2 = sentNum w + 1"
      "friend_number m2 = friend" using w2(4) Suc.prems(6) by (auto simp: sentRange_def)
    have "n = length ps - (s + 1)" "length (sentOf (w_trace w2)) + (length ps - (s + 1)) \<le> N"
      using Suc.hyps(2) Suc.prems(1) w2'(4) s by simp_all
    from Suc.hyps(1) [OF this w2'(2,1) w2(2,3) w2'(5)] obtain w' m' where
      ih: "sendPass env w2 (Some a) [s + 1..<length ps] = Inr w'"
        "flying ps k (max (s + 1) (min (length ps) (k + ?F))) m'"
        "sentRange env a ps (s + 1) (max (s + 1) (min (length ps) (k + ?F))) w2 m2 w' m'" unfolding w2'(3) Let_def by blast
    have mx: "max (s + 1) (min (length ps) (k + ?F)) = max s (min (length ps) (k + ?F))" using True s by simp
    have "sendPass env w (Some a) [s..<length ps] = Inr w'"
      using True ih(1) by (simp add: upt derefW_at Suc.prems(4) full w1(1) w2(1))
    with sentRange_trans [OF w2(4) ih(3)] ih(2) show ?thesis
      unfolding mx Let_def by (intro exI [of _ w'] exI [of _ m'] conjI) (simp_all add: mx [symmetric])
  qed
qed

lemma retryPass_stop:
  assumes "q_heap (w_q w) a = Some m"
    "\<not> (numTransit m < fragmentsAtATime (w_params w) \<and> numTransit m + numConfirmed m < numParts m)"
  shows "retryPass env w (Some a) is = Inr w"
  using assms by (cases "is") (auto simp: derefW_at)

text \<open>After the first pass the second one has nothing to do: the window is full or everything is sent.\<close>

lemma msgSendNextParts_flight:
  assumes env: "tox_receipts_ok env N" "reliable env (friend_number m) N" and room: "sentNum w + (length ps - s) \<le> N"
    and ok: "genuine env (w_trace w)" "rt_ok env (friend_number m) w" and m: "q_heap (w_q w) a = Some m" "flying ps k s m" "0 < s"
  shows "\<exists>w' m'. msgSendNextParts env w (Some a) = Inr w' \<and>
    (let s' = max s (min (length ps) (k + unat (fragmentsAtATime (w_params w))))
     in flying ps k s' m' \<and> sentRange env a ps s s' w m w' m')"
proof -
  let ?F = "unat (fragmentsAtATime (w_params w))"
  define s' where "s' = max s (min (length ps) (k + ?F))"
  note f = flyingD [OF m(2)]
  from sendPass_flight [OF env room ok m(1,2) refl] obtain w1 m1 where
    p: "sendPass env w (Some a) [s..<length ps] = Inr w1" "flying ps k s' m1" "sentRange env a ps s s' w m w1 m1"
    unfolding Let_def s'_def by blast
  note f1 = flyingD [OF p(2)]
  have h1: "q_heap (w_q w1) a = Some m1" "w_params w1 = w_params w" using p(3) by (auto simp: sentRange_def)
  have "of_nat (s - 1) + 1 = (of_nat s :: u32)" using m(3) by (metis Suc_diff_1 of_nat_Suc add.commute)
  then have "unat (lastSent m + 1) = s"
    using m(2) by (simp add: flying_def unat_of_nat_u32)
  then have start: "[unat (lastSent m + 1)..<unat (numParts m)] = [s..<length ps]" by (simp add: f(4))
  have stop: "\<not> (numTransit m1 < fragmentsAtATime (w_params w1) \<and> numTransit m1 + numConfirmed m1 < numParts m1)"
  proof (cases "k + ?F \<le> s'")
    case True
    then show ?thesis by (auto simp: word_less_nat_alt f1(6) h1(2))
  next
    case False
    then have "s' = length ps" using f(2) by (auto simp: s'_def)
    then have "numTransit m1 + numConfirmed m1 = numParts m1"
      using p(2) f1(1) by (simp add: flying_def)
    then show ?thesis by simp
  qed
  have "msgSendNextParts env w (Some a) = Inr w1"
    by (simp add: msgSendNextParts_def derefW_at [OF m(1)] start p(1) derefW_at [OF h1(1)] retryPass_stop [OF h1(1) stop])
  with p(2,3) show ?thesis unfolding Let_def s'_def [symmetric] by blast
qed

subsection \<open>A receipt\<close>

text \<open>The assignments of \<open>tryProcessReceipt\<close> to the message and the fragment.\<close>

definition confirmPart :: "nat \<Rightarrow> msg_outbound \<Rightarrow> msg_outbound" where
  "confirmPart i m = (updFragment i (\<lambda>f. f\<lparr>f_receipt := 0, f_confirmed := 1, f_data := None\<rparr>) m)
     \<lparr>numConfirmed := numConfirmed m + 1, numTransit := numTransit m - 1\<rparr>"

lemma confirmPart_simps [simp]:
  "friend_number (confirmPart i m) = friend_number m" "m_id (confirmPart i m) = m_id m" "m_type (confirmPart i m) = m_type m"
  "m_receipt (confirmPart i m) = m_receipt m" "numParts (confirmPart i m) = numParts m"
  "m_next (confirmPart i m) = m_next m" "m_prev (confirmPart i m) = m_prev m"
  "numConfirmed (confirmPart i m) = numConfirmed m + 1"
  by (simp_all add: confirmPart_def updFragment_def)

lemma confirmPart_flying:
  assumes "flying ps k s m" "k < s"
  shows "flying ps (k + 1) s (confirmPart k m)"
proof -
  note f = flyingD [OF assms(1)]
  have "k < length ps" using f(2) assms(2) by simp
  then have "map f_data (fragments (confirmPart k m)) = map (\<lambda>i. if i < k + 1 then None else Some (ps ! i)) [0..<length ps]"
    using f(3,8) by (intro nth_equalityI) (auto simp: confirmPart_def updFragment_def nth_list_update less_Suc_eq)
  moreover have "of_nat (s - k) - 1 = (of_nat (s - (k + 1)) :: u32)"
    using assms(2) by (metis Suc_diff_Suc Suc_eq_plus1 add_diff_cancel_right' of_nat_Suc of_nat_1 add.commute)
  ultimately show ?thesis
    using assms by (simp add: flying_def confirmPart_def updFragment_def)
qed

lemma tryProcessReceipt_oldest:
  assumes ok: "rt_ok env friend w" and x: "recs (w_rt w) = x # xs" "r_msg x = Some a"
    and m: "q_heap (w_q w) a = Some m" "unat (r_partNo x - 1) < length (fragments m)"
    and db: "dbOutboundPartConfirmed (friend_number m) (m_id m) (r_partNo x) (clock env (w_trace w)) (w_db w) = Inr db'"
  shows "tryProcessReceipt env w (r_receipt x) =
    (let w' = w\<lparr>w_q := (w_q w)\<lparr>q_heap := (q_heap (w_q w))(a \<mapsto> confirmPart (unat (r_partNo x - 1)) m)\<rparr>,
                w_trace := w_trace w @ [Clock (clock env (w_trace w))], w_db := db'\<rparr>
     in bindR (if numConfirmed m + 1 < numParts m then
                 (let (on, w) = isFriendOnline env w' (friend_number m)
                  in if on then msgSendNextParts env w (Some a) else Inr w)
               else msgIsComplete w' (Some a)) (\<lambda>w1.
        bindR (clearReceipt (w_rt w1) (receiptsLo (w_rt w))) (\<lambda>rt. Inr (True, w1\<lparr>w_rt := rt\<rparr>))))"
proof -
  have dense: "rt_dense (w_rt w)" using ok by (simp add: rt_ok_def)
  have lo: "receiptsLo (w_rt w) < receiptsHi (w_rt w)" using recs_ne [OF dense] x(1) by simp
  have hd: "rt_receipts (w_rt w) ! receiptsLo (w_rt w) = x" using recs_ends(1) [OF dense lo] x(1) by simp
  have "receiptsHi (w_rt w) \<le> length (rt_receipts (w_rt w))" using dense by (simp add: rt_dense_def rt_bounds_def)
  then have rd: "readAt (rt_receipts (w_rt w)) (receiptsLo (w_rt w)) = Inr x" using lo hd by simp
  have look: "lookupReceipt (w_rt w) (r_receipt x) = Inr (Some (receiptsLo (w_rt w)))"
    using lookup_dense_hit [OF dense order_refl lo] hd by simp
  show ?thesis
    using x(2) m db
    by (simp add: tryProcessReceipt_def look rd derefW_at [OF m(1)] updMsgW_at [OF m(1)] getCurrTimeMs_def emit_def
        Let_def derefW_def deref_def confirmPart_def [symmetric] cong: bindR_weak_cong)
qed

subsection \<open>The state while one message is on its way\<close>

text \<open>What does not change while the message is sent.\<close>

record job =
  j_addr :: addr
  j_parts :: "byte list list"
  j_friend :: u32
  j_type :: int
  j_id :: u64
  j_receipt :: u32

definition job_of :: "job \<Rightarrow> msg_outbound \<Rightarrow> bool" where
  "job_of j m \<longleftrightarrow> friend_number m = j_friend j \<and> m_type m = j_type j \<and> m_id m = j_id j \<and> m_receipt m = j_receipt j"

abbreviation jkey :: "job \<Rightarrow> key" where
  "jkey j \<equiv> key_of 1 (j_friend j) (j_id j)"

definition stored :: "job \<Rightarrow> database \<Rightarrow> bool" where
  "stored j db \<longleftrightarrow> db_inv db \<and> selMeta db (jkey j) \<noteq> None \<and>
     (\<exists>d b. selData db (jkey j) = Some d \<and> dt_confirmed d = Some b \<and> length b = length (j_parts j))"

definition awaiting :: "job \<Rightarrow> nat \<Rightarrow> nat \<Rightarrow> receipt_record list \<Rightarrow> bool" where
  "awaiting j k s xs \<longleftrightarrow> map (\<lambda>x. (r_msg x, r_partNo x)) xs = map (\<lambda>i. (Some (j_addr j), of_nat (i + 1))) [k..<s]"

definition flight :: "env \<Rightarrow> job \<Rightarrow> nat \<Rightarrow> nat \<Rightarrow> world \<Rightarrow> bool" where
  "flight env j k s w \<longleftrightarrow> 0 < s \<and> genuine env (w_trace w) \<and> rt_ok env (j_friend j) w \<and> ring (w_q w) [j_addr j] \<and> stored j (w_db w) \<and>
     (\<exists>m. q_heap (w_q w) (j_addr j) = Some m \<and> job_of j m \<and> flying (j_parts j) k s m) \<and>
     awaiting j k s (recs (w_rt w))"

lemma awaiting_Cons:
  "k < s \<Longrightarrow> awaiting j k s xs \<longleftrightarrow> (\<exists>x ys. xs = x # ys \<and> r_msg x = Some (j_addr j) \<and> r_partNo x = of_nat (k + 1) \<and> awaiting j (k + 1) s ys)"
  by (cases xs) (auto simp: awaiting_def upt_rec [of k s])

lemma awaiting_append:
  "awaiting j k s xs \<Longrightarrow> map (\<lambda>x. (r_msg x, r_partNo x)) new = map (\<lambda>i. (Some (j_addr j), of_nat (i + 1))) [s..<s'] \<Longrightarrow>
     k \<le> s \<Longrightarrow> s \<le> s' \<Longrightarrow> awaiting j k s' (xs @ new)"
  by (simp add: awaiting_def upt_split [of k s s'])

lemma awaiting_None: "awaiting j k k xs \<longleftrightarrow> xs = []"
  by (simp add: awaiting_def)

text \<open>The part is confirmed in the database.\<close>

lemma stored_confirm:
  assumes "stored j db" "k < length (j_parts j)" "length (j_parts j) < 2 ^ 31"
  obtains db' where "dbOutboundPartConfirmed (j_friend j) (j_id j) (of_nat (k + 1)) now db = Inr db'" "stored j db'"
    "\<forall>k'. k' \<noteq> jkey j \<longrightarrow> selMeta db' k' = selMeta db k' \<and> selData db' k' = selData db k'"
proof -
  from assms(1) obtain mm d b where s: "db_inv db" "selMeta db (jkey j) = Some mm" "selData db (jkey j) = Some d"
    "dt_confirmed d = Some b" "length b = length (j_parts j)" by (auto simp: stored_def)
  have i: "unat ((of_nat (k + 1) :: u32) - 1) = k"
    using assms(2,3) by (simp add: unat_of_nat_u32)
  have "unat ((of_nat (k + 1) :: u32) - 1) < length b" "unat ((of_nat (k + 1) :: u32) - 1) < 2 ^ 31"
    using assms(2,3) s(5) unfolding i by simp_all
  from partConfirmed_effect [OF s(1-4) this] obtain db' where
    r: "dbOutboundPartConfirmed (j_friend j) (j_id j) (of_nat (k + 1)) now db = Inr db'" "db_inv db'"
      "selMeta db' = (selMeta db)(jkey j \<mapsto> metaDone now mm)"
      "selData db' = (selData db)(jkey j \<mapsto> d\<lparr>dt_confirmed := Some (b[unat ((of_nat (k + 1) :: u32) - 1) := 1])\<rparr>)" .
  show thesis by (rule that [OF r(1)]) (use r(2-4) s(5) in \<open>simp_all add: stored_def\<close>)
qed

lemma rt_ok_tl:
  assumes "rt_ok env friend w" "rt_dense rt" "recs rt = tl (recs (w_rt w))"
  shows "rt_ok env friend (w\<lparr>w_rt := rt\<rparr>)"
  using assms by (cases "recs (w_rt w)") (auto simp: rt_ok_def)

lemma clear_oldest:
  assumes "rt_ok env friend w" "recs (w_rt w) \<noteq> []"
  obtains rt where "clearReceipt (w_rt w) (receiptsLo (w_rt w)) = Inr rt" "recs rt = tl (recs (w_rt w))"
    "rt_ok env friend (w\<lparr>w_rt := rt\<rparr>)"
proof -
  have dense: "rt_dense (w_rt w)" using assms(1) by (simp add: rt_ok_def)
  from clear_first [OF this] recs_ne [OF dense] assms(2) obtain rt where
    "clearReceipt (w_rt w) (receiptsLo (w_rt w)) = Inr rt" "rt_dense rt" "recs rt = tl (recs (w_rt w))" by blast
  then show thesis using rt_ok_tl [OF assms(1)] that by blast
qed

text \<open>The state right after the assignments of \<open>tryProcessReceipt\<close>, before more parts are sent.\<close>

definition afterConfirm :: "env \<Rightarrow> world \<Rightarrow> addr \<Rightarrow> msg_outbound \<Rightarrow> database \<Rightarrow> world" where
  "afterConfirm env w a m db = w\<lparr>w_q := (w_q w)\<lparr>q_heap := (q_heap (w_q w))(a \<mapsto> m)\<rparr>,
     w_trace := w_trace w @ [Clock (clock env (w_trace w))], w_db := db\<rparr>"

lemma rt_ok_trace:
  assumes "rt_ok env friend w" "w_rt w' = w_rt w" "w_trace w' = w_trace w @ evs" "\<forall>ev\<in>set evs. \<forall>f t d r. ev \<noteq> ToxSend f t d r"
  shows "rt_ok env friend w'"
proof -
  have "genuine env (w_trace w @ evs)"
    using assms(4)
  proof (induction evs rule: rev_induct)
    case (snoc ev evs)
    then have "genuine env (w_trace w @ evs)" by simp
    then have "genuine env ((w_trace w @ evs) @ [ev])" using snoc.prems by (subst genuine_snoc) auto
    then show ?case by simp
  qed (use assms(1) in \<open>simp add: rt_ok_def\<close>)
  then show ?thesis using assms(1-3) by (fastforce simp: rt_ok_def)
qed

lemma ring_content:
  assumes "ring q xs" "msgsOutbound q' = msgsOutbound q" "\<And>a. nx q' a = nx q a" "\<And>a. pv q' a = pv q a"
  shows "ring q' xs"
proof -
  have "linked q' = linked q" by (simp add: linked_def assms(3,4) fun_eq_iff)
  then show ?thesis using assms(1,2) by (simp add: ring_def cyc_def)
qed

lemma ring_upd:
  "ring (w_q w) xs \<Longrightarrow> q_heap (w_q w) a = Some m \<Longrightarrow> m_next m' = m_next m \<Longrightarrow> m_prev m' = m_prev m \<Longrightarrow>
     ring ((w_q w)\<lparr>q_heap := (q_heap (w_q w))(a \<mapsto> m')\<rparr>) xs"
  by (erule ring_content) (simp_all add: nx_def pv_def)

text \<open>The oldest receipt arrives: the part is confirmed, and what is left is the end of \<open>tryProcessReceipt\<close>.\<close>

lemma flight_receipt:
  assumes fl: "flight env j k s w" and k: "k < s"
  obtains x m db' where "recs (w_rt w) = x # tl (recs (w_rt w))" "awaiting j (k + 1) s (tl (recs (w_rt w)))"
    "q_heap (w_q w) (j_addr j) = Some m" "job_of j m" "flying (j_parts j) (k + 1) s (confirmPart k m)"
    "stored j db'" "\<forall>k'. k' \<noteq> jkey j \<longrightarrow> selMeta db' k' = selMeta (w_db w) k' \<and> selData db' k' = selData (w_db w) k'"
    "tryProcessReceipt env w (r_receipt x) =
      bindR (if k + 1 < length (j_parts j) then
               (let (on, w) = isFriendOnline env (afterConfirm env w (j_addr j) (confirmPart k m) db') (j_friend j)
                in if on then msgSendNextParts env w (Some (j_addr j)) else Inr w)
             else msgIsComplete (afterConfirm env w (j_addr j) (confirmPart k m) db') (Some (j_addr j))) (\<lambda>w1.
      bindR (clearReceipt (w_rt w1) (receiptsLo (w_rt w))) (\<lambda>rt. Inr (True, w1\<lparr>w_rt := rt\<rparr>)))"
proof -
  let ?a = "j_addr j"
  from fl obtain m where f: "rt_ok env (j_friend j) w" "stored j (w_db w)" "awaiting j k s (recs (w_rt w))"
    and m: "q_heap (w_q w) ?a = Some m" "job_of j m" "flying (j_parts j) k s m" unfolding flight_def by blast
  note fm = flyingD [OF m(3)]
  have n: "k < length (j_parts j)" "length (j_parts j) < 2 ^ 31"
    using k fm(2) m(3) by (simp_all add: flying_def)
  from f(3) k obtain x ys where x: "recs (w_rt w) = x # ys" "r_msg x = Some ?a" "r_partNo x = of_nat (k + 1)"
    "awaiting j (k + 1) s ys" by (auto simp: awaiting_Cons)
  have u: "unat (of_nat k :: u32) = k" using n by (simp add: unat_of_nat_u32)
  then have i: "unat (r_partNo x - 1) = k" by (simp add: x(3))
  from stored_confirm [OF f(2) n, of "clock env (w_trace w)"] obtain db' where
    db: "dbOutboundPartConfirmed (j_friend j) (j_id j) (of_nat (k + 1)) (clock env (w_trace w)) (w_db w) = Inr db'" "stored j db'"
      "\<forall>k'. k' \<noteq> jkey j \<longrightarrow> selMeta db' k' = selMeta (w_db w) k' \<and> selData db' k' = selData (w_db w) k'"
    by blast
  have jm: "friend_number m = j_friend j" "m_id m = j_id j" using m(2) by (simp_all add: job_of_def)
  have "flying (j_parts j) (k + 1) s (confirmPart k m)" by (rule confirmPart_flying [OF m(3) k])
  note conf = flyingD [OF this]
  have more: "numConfirmed m + 1 < numParts m \<longleftrightarrow> k + 1 < length (j_parts j)"
    using conf(4,5) by (simp add: word_less_nat_alt)
  have "unat (r_partNo x - 1) < length (fragments m)" using i n(1) fm(3) by simp
  note step = tryProcessReceipt_oldest [OF f(1) x(1,2) m(1) this, of db', unfolded jm x(3), OF db(1)]
  show thesis
    by (rule that [of x m db'])
      (use x m db confirmPart_flying [OF m(3) k] step in
        \<open>simp_all add: u more jm afterConfirm_def [symmetric] Let_def\<close>)
qed

text \<open>Not the last one: the window is refilled.\<close>

lemma flight_next:
  assumes env: "tox_receipts_ok env N" "reliable env (j_friend j) N" and fl: "flight env j k s w" and k: "k < s" "k + 1 < length (j_parts j)"
    and room: "length (sentOf (w_trace w)) + (length (j_parts j) - s) \<le> N"
  obtains x w' s' where "recs (w_rt w) = x # tl (recs (w_rt w))" "tryProcessReceipt env w (r_receipt x) = Inr (True, w')"
    "s' = max s (min (length (j_parts j)) (k + 1 + unat (fragmentsAtATime (w_params w))))" "flight env j (k + 1) s' w'"
    "sentOf (w_trace w') = sentOf (w_trace w) @ map (\<lambda>i. (j_friend j, j_type j, Some (j_parts j ! i))) [s..<s']"
    "clientOf (w_trace w') = clientOf (w_trace w)" "w_params w' = w_params w"
    "\<forall>k'. k' \<noteq> jkey j \<longrightarrow> selMeta (w_db w') k' = selMeta (w_db w) k' \<and> selData (w_db w') k' = selData (w_db w) k'"
proof -
  let ?a = "j_addr j" and ?ps = "j_parts j"
  have f: "0 < s" "rt_ok env (j_friend j) w" "ring (w_q w) [?a]" "genuine env (w_trace w)" using fl by (simp_all add: flight_def)
  obtain x m db' where r: "recs (w_rt w) = x # tl (recs (w_rt w))" "awaiting j (k + 1) s (tl (recs (w_rt w)))"
    "q_heap (w_q w) ?a = Some m" "job_of j m" "flying ?ps (k + 1) s (confirmPart k m)" "stored j db'"
    and frame: "\<forall>k'. k' \<noteq> jkey j \<longrightarrow> selMeta db' k' = selMeta (w_db w) k' \<and> selData db' k' = selData (w_db w) k'"
    and run: "tryProcessReceipt env w (r_receipt x) =
      bindR (if k + 1 < length ?ps then
               (let (on, w) = isFriendOnline env (afterConfirm env w ?a (confirmPart k m) db') (j_friend j)
                in if on then msgSendNextParts env w (Some ?a) else Inr w)
             else msgIsComplete (afterConfirm env w ?a (confirmPart k m) db') (Some ?a)) (\<lambda>w1.
      bindR (clearReceipt (w_rt w1) (receiptsLo (w_rt w))) (\<lambda>rt. Inr (True, w1\<lparr>w_rt := rt\<rparr>)))"
    by (rule flight_receipt [OF fl k(1)])
  let ?m1 = "confirmPart k m" and ?w1 = "afterConfirm env w ?a (confirmPart k m) db'"
  let ?w2 = "emit (ToxStatus (j_friend j) True) ?w1"
  have on: "isFriendOnline env ?w1 (j_friend j) = (True, ?w2)"
    using env(2) by (simp add: isFriendOnline_def reliable_def)
  have w2: "q_heap (w_q ?w2) ?a = Some ?m1" "w_rt ?w2 = w_rt w" "w_params ?w2 = w_params w" "w_db ?w2 = db'"
    "sentOf (w_trace ?w2) = sentOf (w_trace w)" "clientOf (w_trace ?w2) = clientOf (w_trace w)"
    by (simp_all add: afterConfirm_def)
  have rt2: "rt_ok env (j_friend j) ?w2" using f(2) w2(2) by (rule rt_ok_trace [where evs = "[Clock (clock env (w_trace w)), ToxStatus (j_friend j) True]"])
      (auto simp: afterConfirm_def)
  have gen: "genuine env (w_trace ?w2)"
    using f(4) by (simp add: afterConfirm_def) (metis append.assoc append_Cons append_Nil genuine_other(1,2))
  have fr: "reliable env (friend_number ?m1) N" "rt_ok env (friend_number ?m1) ?w2" "sentNum ?w2 + (length ?ps - s) \<le> N"
    using env(2) rt2 r(4) room w2(5) by (simp_all add: job_of_def)
  obtain w3 m3 s' where
    p: "msgSendNextParts env ?w2 (Some ?a) = Inr w3"
      "s' = max s (min (length ?ps) (k + 1 + unat (fragmentsAtATime (w_params w))))" "flying ?ps (k + 1) s' m3"
      "sentRange env ?a ?ps s s' ?w2 ?m1 w3 m3"
    using msgSendNextParts_flight [OF env(1) fr(1,3) gen fr(2) w2(1) r(5) f(1)] w2(3) by (auto simp: Let_def)
  from p(4) obtain fs ls nt rt evs new where gw: "genuine env (w_trace w3)" and g: "rt_ok env (friend_number ?m1) w3" "m3 = ?m1\<lparr>fragments := fs, lastSent := ls, numTransit := nt\<rparr>"
    "w3 = ?w2\<lparr>w_q := (w_q ?w2)\<lparr>q_heap := (q_heap (w_q ?w2))(?a \<mapsto> m3)\<rparr>, w_rt := rt, w_trace := w_trace ?w2 @ evs\<rparr>"
    "sentOf evs = map (\<lambda>i. (friend_number ?m1, m_type ?m1, Some (?ps ! i))) [s..<s']" "clientOf evs = []"
    "receiptsLo rt = receiptsLo (w_rt ?w2)" "recs rt = recs (w_rt ?w2) @ new"
    "map (\<lambda>x. (r_msg x, r_partNo x)) new = map (\<lambda>i. (Some ?a, of_nat (i + 1))) [s..<s']"
    unfolding sentRange_def by blast
  have w3: "w_rt w3 = rt" "w_db w3 = db'" "w_params w3 = w_params w" "q_heap (w_q w3) ?a = Some m3"
    by (simp_all add: g(3) afterConfirm_def)
  have "recs (w_rt w) \<noteq> []" using r(1) by (metis list.distinct(1))
  then have ne: "recs (w_rt w3) \<noteq> []" using g(7) w2(2) w3(1) by simp
  obtain rt' where c: "clearReceipt (w_rt w3) (receiptsLo (w_rt w3)) = Inr rt'" "recs rt' = tl (recs (w_rt w3))"
    "rt_ok env (j_friend j) (w3\<lparr>w_rt := rt'\<rparr>)" by (rule clear_oldest [OF g(1) ne]) (use r(4) in \<open>simp add: job_of_def\<close>)
  have go: "tryProcessReceipt env w (r_receipt x) = Inr (True, w3\<lparr>w_rt := rt'\<rparr>)"
    using run k(2) on p(1) c(1) w3(1) g(6) w2(2) by simp
  have "tl (recs (w_rt w3)) = tl (recs (w_rt w)) @ new" using g(7) w2(2) w3(1) r(1) by (metis tl_append2 list.distinct(1))
  then have aw: "awaiting j (k + 1) s' (recs rt')"
    using awaiting_append [OF r(2) g(8)] flyingD(1) [OF r(5)] p(2) c(2) by simp
  have "ring (w_q w3) [?a]"
    using f(3) by (rule ring_content) (simp_all add: g(2,3) afterConfirm_def nx_def pv_def r(3))
  then have "flight env j (k + 1) s' (w3\<lparr>w_rt := rt'\<rparr>)"
    using c(3) aw f(1) p(2,3) r(4,6) w3 gw by (simp add: flight_def job_of_def g(2))
  moreover have "sentOf (w_trace w3) = sentOf (w_trace w) @ map (\<lambda>i. (j_friend j, j_type j, Some (?ps ! i))) [s..<s']"
    "clientOf (w_trace w3) = clientOf (w_trace w)"
    using r(4) by (simp_all add: g(3,4,5) afterConfirm_def job_of_def)
  ultimately show thesis by (intro that [OF r(1) go p(2)]) (use frame w3 in simp_all)
qed

text \<open>The last one: the client gets its receipt, and the message is gone from the ring and the database.\<close>

lemma flight_last:
  assumes fl: "flight env j k (length (j_parts j)) w" and k: "k + 1 = length (j_parts j)"
  obtains x w' where "recs (w_rt w) = [x]" "tryProcessReceipt env w (r_receipt x) = Inr (True, w')"
    "ring (w_q w') []" "recs (w_rt w') = []" "sentOf (w_trace w') = sentOf (w_trace w)"
    "clientOf (w_trace w') = clientOf (w_trace w) @ [ClientReceipt (j_friend j) (j_receipt j)]"
    "db_inv (w_db w')" "selData (w_db w') (jkey j) = None"
    "\<forall>k'. k' \<noteq> jkey j \<longrightarrow> selMeta (w_db w') k' = selMeta (w_db w) k' \<and> selData (w_db w') k' = selData (w_db w) k'"
proof -
  let ?a = "j_addr j" and ?ps = "j_parts j"
  have f: "rt_ok env (j_friend j) w" "ring (w_q w) [?a]" using fl by (simp_all add: flight_def)
  obtain x m db' where r: "recs (w_rt w) = x # tl (recs (w_rt w))" "awaiting j (k + 1) (length ?ps) (tl (recs (w_rt w)))"
    "q_heap (w_q w) ?a = Some m" "job_of j m" "flying ?ps (k + 1) (length ?ps) (confirmPart k m)" "stored j db'"
    and frame: "\<forall>k'. k' \<noteq> jkey j \<longrightarrow> selMeta db' k' = selMeta (w_db w) k' \<and> selData db' k' = selData (w_db w) k'"
    and run: "tryProcessReceipt env w (r_receipt x) =
      bindR (if k + 1 < length ?ps then
               (let (on, w) = isFriendOnline env (afterConfirm env w ?a (confirmPart k m) db') (j_friend j)
                in if on then msgSendNextParts env w (Some ?a) else Inr w)
             else msgIsComplete (afterConfirm env w ?a (confirmPart k m) db') (Some ?a)) (\<lambda>w1.
      bindR (clearReceipt (w_rt w1) (receiptsLo (w_rt w))) (\<lambda>rt. Inr (True, w1\<lparr>w_rt := rt\<rparr>)))"
    by (rule flight_receipt [OF fl]) (use k in simp)
  let ?m1 = "confirmPart k m" and ?w1 = "afterConfirm env w ?a (confirmPart k m) db'"
  have "tl (recs (w_rt w)) = []" using r(2) unfolding k [symmetric] awaiting_None .
  with r(1) have x: "recs (w_rt w) = [x]" by metis
  have h1: "q_heap (w_q ?w1) ?a = Some ?m1" by (simp add: afterConfirm_def)
  have ring1: "ring (w_q ?w1) [?a]"
    using f(2) by (rule ring_content) (simp_all add: afterConfirm_def nx_def pv_def r(3))
  obtain q2 where q2: "msgsOutboundUnlink (w_q ?w1) (Some ?a) = Inr q2" "ring q2 []" "content q2 = content (w_q ?w1)"
    by (rule ring_unlink [OF ring1, of ?a]) (auto simp: unlinkedFrom_def)
  obtain pv nx where m2: "q_heap q2 ?a = Some (?m1\<lparr>m_prev := pv, m_next := nx\<rparr>)"
    by (rule content_at [OF q2(3) h1])
  have del: "msgOutboundDelete q2 (Some ?a) = Inr (q2\<lparr>q_heap := (q_heap q2)(?a := None)\<rparr>)"
    using flyingD(3,4) [OF r(5)] m2 by (simp add: msgOutboundDelete_def deref_def)
  define w2 where "w2 = ?w1\<lparr>w_trace := w_trace ?w1 @ [Client (ClientReceipt (j_friend j) (j_receipt j))],
    w_db := dbClearOutboundPending (j_friend j) (j_id j) db', w_q := q2\<lparr>q_heap := (q_heap q2)(?a := None)\<rparr>\<rparr>"
  have fin: "msgIsComplete ?w1 (Some ?a) = Inr w2"
    using r(4) q2(1) del
    by (simp add: msgIsComplete_def derefW_def deref_def job_of_def emit_def Let_def w2_def afterConfirm_def)
  have rt2: "w_rt w2 = w_rt w" by (simp add: w2_def afterConfirm_def)
  have ok2: "rt_ok env (j_friend j) w2" using f(1) rt2
    by (rule rt_ok_trace [where evs = "[Clock (clock env (w_trace w)), Client (ClientReceipt (j_friend j) (j_receipt j))]"])
      (auto simp: w2_def afterConfirm_def)
  have "recs (w_rt w2) \<noteq> []" using x rt2 by simp
  from clear_oldest [OF ok2 this] obtain rt where
    c: "clearReceipt (w_rt w2) (receiptsLo (w_rt w)) = Inr rt" "recs rt = []" "rt_ok env (j_friend j) (w2\<lparr>w_rt := rt\<rparr>)"
    unfolding rt2 x by auto
  have go: "tryProcessReceipt env w (r_receipt x) = Inr (True, w2\<lparr>w_rt := rt\<rparr>)"
    using run k fin c(1) by simp
  have inv: "db_inv db'" using r(6) by (simp add: stored_def)
  note cl = deleteData_effect [of "dbLock db'" 1 "j_friend j" "j_id j"]
  have db2: "db_inv (w_db w2)" "selMeta (w_db w2) = selMeta db'" "selData (w_db w2) = (selData db')(jkey j := None)"
    using cl inv by (simp_all add: w2_def dbClearOutboundPending_def)
  have ring2: "ring (w_q w2) []" using q2(2) by (simp add: w2_def ring_def cyc_def)
  show thesis
    by (rule that [OF x go])
      (use ring2 c db2 frame in \<open>simp_all add: w2_def afterConfirm_def\<close>)
qed

subsection \<open>From the first receipt to the last\<close>

text \<open>Receipts arrive, \<open>n\<close> of them, each for the fragment that has been waiting longest.\<close>

fun confirmOldest :: "env \<Rightarrow> u32 \<Rightarrow> nat \<Rightarrow> world \<Rightarrow> world result" where
  "confirmOldest env friend 0 w = Inr w"
| "confirmOldest env friend (Suc n) w =
     (case recs (w_rt w) of [] \<Rightarrow> Inr w
      | x # xs \<Rightarrow> bindR (friend_read_receipt_cb env w friend (r_receipt x)) (confirmOldest env friend n))"

text \<open>The end of the message: nothing of it is left but its meta row and its traces.\<close>

definition finished :: "job \<Rightarrow> nat \<Rightarrow> world \<Rightarrow> world \<Rightarrow> bool" where
  "finished j s w w' \<longleftrightarrow> ring (w_q w') [] \<and> recs (w_rt w') = [] \<and>
     sentOf (w_trace w') = sentOf (w_trace w) @ map (\<lambda>i. (j_friend j, j_type j, Some (j_parts j ! i))) [s..<length (j_parts j)] \<and>
     clientOf (w_trace w') = clientOf (w_trace w) @ [ClientReceipt (j_friend j) (j_receipt j)] \<and>
     db_inv (w_db w') \<and> selData (w_db w') (jkey j) = None \<and>
     (\<forall>k'. k' \<noteq> jkey j \<longrightarrow> selMeta (w_db w') k' = selMeta (w_db w) k' \<and> selData (w_db w') k' = selData (w_db w) k')"

lemma confirmOldest_step:
  assumes "recs (w_rt w) = x # xs" "tryProcessReceipt env w (r_receipt x) = Inr (True, w')"
  shows "confirmOldest env friend (Suc n) w = confirmOldest env friend n w'"
  using assms by (simp add: friend_read_receipt_cb_def)

lemma flight_completes:
  assumes env: "tox_receipts_ok env N" "reliable env (j_friend j) N" and F: "0 < unat (fragmentsAtATime prm)"
  shows "flight env j k s w \<Longrightarrow> w_params w = prm \<Longrightarrow> k < length (j_parts j) \<Longrightarrow>
    s = min (length (j_parts j)) (k + unat (fragmentsAtATime prm)) \<Longrightarrow>
    length (sentOf (w_trace w)) + (length (j_parts j) - s) \<le> N \<Longrightarrow>
    \<exists>w'. confirmOldest env friend (length (j_parts j) - k) w = Inr w' \<and> finished j s w w'"
proof (induction "length (j_parts j) - k" arbitrary: k s w)
  case 0
  then show ?case by simp
next
  case (Suc n)
  let ?n = "length (j_parts j)" and ?F = "unat (fragmentsAtATime prm)"
  have ks: "k < s" using Suc.prems(3,4) F by simp
  show ?case
  proof (cases "k + 1 = ?n")
    case True
    then have s: "s = ?n" using Suc.prems(4) F by simp
    from flight_last [OF Suc.prems(1)[unfolded s] True] obtain x w' where
      x: "recs (w_rt w) = [x]" "tryProcessReceipt env w (r_receipt x) = Inr (True, w')"
      and fin: "ring (w_q w') []" "recs (w_rt w') = []" "sentOf (w_trace w') = sentOf (w_trace w)"
        "clientOf (w_trace w') = clientOf (w_trace w) @ [ClientReceipt (j_friend j) (j_receipt j)]"
        "db_inv (w_db w')" "selData (w_db w') (jkey j) = None"
        "\<forall>k'. k' \<noteq> jkey j \<longrightarrow> selMeta (w_db w') k' = selMeta (w_db w) k' \<and> selData (w_db w') k' = selData (w_db w) k'" .
    have "?n - k = Suc 0" using True by simp
    then have "confirmOldest env friend (?n - k) w = Inr w'" using confirmOldest_step [OF x] by simp
    then show ?thesis using fin s by (auto simp: finished_def)
  next
    case False
    then have k: "k + 1 < ?n" using Suc.prems(3) by simp
    obtain x w1 s1 where st: "recs (w_rt w) = x # tl (recs (w_rt w))" "tryProcessReceipt env w (r_receipt x) = Inr (True, w1)"
      "s1 = max s (min ?n (k + 1 + unat (fragmentsAtATime (w_params w))))" "flight env j (k + 1) s1 w1"
      "sentOf (w_trace w1) = sentOf (w_trace w) @ map (\<lambda>i. (j_friend j, j_type j, Some (j_parts j ! i))) [s..<s1]"
      "clientOf (w_trace w1) = clientOf (w_trace w)" "w_params w1 = w_params w"
      "\<forall>k'. k' \<noteq> jkey j \<longrightarrow> selMeta (w_db w1) k' = selMeta (w_db w) k' \<and> selData (w_db w1) k' = selData (w_db w) k'"
      by (rule flight_next [OF env Suc.prems(1) ks k Suc.prems(5)])
    have s1: "s1 = min ?n (k + 1 + ?F)" "s \<le> s1" "s1 \<le> ?n"
      using st(3) Suc.prems(2,4) by simp_all
    have "n = ?n - (k + 1)" "length (sentOf (w_trace w1)) + (?n - s1) \<le> N"
      using Suc.hyps(2) Suc.prems(4,5) s1(2,3) by (simp_all add: st(5))
    from Suc.hyps(1) [OF this(1) st(4) _ k s1(1) this(2)] Suc.prems(2) st(7) obtain w' where
      ih: "confirmOldest env friend (?n - (k + 1)) w1 = Inr w'" "finished j s1 w1 w'" by auto
    have "?n - k = Suc (?n - (k + 1))" using k by simp
    then have "confirmOldest env friend (?n - k) w = Inr w'"
      using confirmOldest_step [OF st(1,2)] ih(1) by simp
    moreover have "finished j s w w'"
      using ih(2) st(5,6,8) by (auto simp: finished_def upt_split [OF s1(2,3)])
    ultimately show ?thesis by blast
  qed
qed

lemma selectPending_same:
  assumes "db_inv db" "db_inv db2" "selData db k = None" "selData db2 k = None"
    "\<forall>k'. k' \<noteq> k \<longrightarrow> selMeta db2 k' = selMeta db k' \<and> selData db2 k' = selData db k'"
  shows "set (selectPending db2) = set (selectPending db)"
  using assms(3-5) unfolding set_eq_iff selectPending_set [OF assms(1)] selectPending_set [OF assms(2)]
  by (metis option.distinct(1))

subsection \<open>The first window\<close>

definition jobFor :: "env \<Rightarrow> world \<Rightarrow> u32 \<Rightarrow> int \<Rightarrow> byte list \<Rightarrow> u32 \<Rightarrow> job" where
  "jobFor env w friend type message r = \<lparr>j_addr = w_brk w, j_parts = wireParts env w message, j_friend = friend,
     j_type = type, j_id = nextMsgId env w, j_receipt = r\<rparr>"

lemma jobFor_simps [simp]:
  "j_addr (jobFor env w friend type message r) = w_brk w" "j_parts (jobFor env w friend type message r) = wireParts env w message"
  "j_friend (jobFor env w friend type message r) = friend" "j_type (jobFor env w friend type message r) = type"
  "j_id (jobFor env w friend type message r) = nextMsgId env w" "j_receipt (jobFor env w friend type message r) = r"
  by (simp_all add: jobFor_def)

lemma longMsg_flying:
  assumes "length (wireParts env w message) < 2 ^ 31"
  shows "flying (wireParts env w message) 0 0 (longMsg env w friend message)"
proof -
  have "map f_data (fragments (longMsg env w friend message)) = map (\<lambda>i. Some (wireParts env w message ! i)) [0..<length (wireParts env w message)]"
    by (rule nth_equalityI) (simp_all add: newFragment_def)
  then show ?thesis using assms by (simp add: flying_def) (simp add: longMsg_def newMsgOutbound_def)
qed

lemma sentRange_sender_ok:
  assumes "sentRange env a ps s s' w m w' m'" "sender_ok env friend w xs" "a \<notin> set xs" "msg_sane m'" "friend_number m = friend"
  shows "sender_ok env friend w' xs"
proof -
  note s = sender_okD [OF assms(2)]
  from assms(1) obtain rt evs where g: "q_heap (w_q w) a = Some m" "rt_ok env (friend_number m) w'"
    "w' = w\<lparr>w_q := (w_q w)\<lparr>q_heap := (q_heap (w_q w))(a \<mapsto> m')\<rparr>, w_rt := rt, w_trace := w_trace w @ evs\<rparr>"
    unfolding sentRange_def by blast
  have "ring (w_q w') xs" by (rule ring_frame [OF s(1)]) (use assms(3) g(3) in auto)
  moreover have "heap_sane (w_q w')" using heap_sane_upd [OF s(2) assms(4)] by (simp add: g(3))
  moreover have "q_heap (w_q w') b = None" if "w_brk w \<le> b" for b
    using s(3) [OF that] g(1,3) by auto
  ultimately show ?thesis using s(5-9) g(2,3) assms(5) by (simp add: sender_ok_def)
qed

lemma stored_insert:
  assumes "engine_ok e" "db_inv db" "unat parts = length (j_parts j)" "length (j_parts j) < 2 ^ 31"
    "dbInsertOutboundMessage e (j_friend j) type (j_id j) tm parts bytes receipt db = Inr db'"
  shows "stored j db'" "k' \<noteq> jkey j \<Longrightarrow> selMeta db' k' = selMeta db k' \<and> selData db' k' = selData db k'"
proof -
  obtain m d where i: "db_inv db'" "selMeta db (jkey j) = None" "selMeta db' = (selMeta db)(jkey j \<mapsto> m)"
    "selData db' = (selData db)(jkey j \<mapsto> d)"
    "m = \<lparr>mt_outbound = 1, mt_friend_id = sint (j_friend j), mt_type = type, mt_frags_id = sint (j_id j),
          timestamp_first = sint tm, timestamp_last = sint tm, frags_done = 0, frags_num = sint parts\<rparr>"
    "dt_message d = Some bytes" "dt_confirmed d = Some (replicate (nat (sint parts)) 0)"
    "dt_receipt d = Some (sint receipt)"
    by (rule insertOutbound_effect [OF assms(1,2,5)])
  have "nat (sint parts) = length (j_parts j)" using assms(3,4) by (simp add: sint_u32)
  with i show "stored j db'" by (simp add: stored_def)
  show "k' \<noteq> jkey j \<Longrightarrow> selMeta db' k' = selMeta db k' \<and> selData db' k' = selData db k'" using i(3,4) by simp
qed

lemma long_flight:
  assumes env: "tox_receipts_ok env N" "engine_ok (db_engine env)" "reliable env friend N"
    and ok: "sender_ok env friend w []" "recs (w_rt w) = []" "genuine env (w_trace w)" and F: "0 < unat (fragmentsAtATime (w_params w))"
    and len: "message \<noteq> []" "length message \<le> maxBlob (db_engine env)"
    and mid: "lastMsgId w \<noteq> -1" "unat (nextMsgId env w) < 10 ^ 13"
    and fresh: "selMeta (w_db w) (key_of 1 friend (nextMsgId env w)) = None"
    and room: "length (sentOf (w_trace w)) + length (wireParts env w message) \<le> N"
  obtains r w1 s where "friend_send_message_long 1 env w friend type message = Inr (r, w1)" "in_range (w_params w) r"
    "s = min (length (wireParts env w message)) (unat (fragmentsAtATime (w_params w)))"
    "flight env (jobFor env w friend type message r) 0 s w1" "w_params w1 = w_params w"
    "sentOf (w_trace w1) = sentOf (w_trace w) @ map (\<lambda>i. (friend, 0, Some (wireParts env w message ! i))) [0..<s]"
    "clientOf (w_trace w1) = clientOf (w_trace w)" "0 < length (wireParts env w message)"
    "\<forall>k'. k' \<noteq> key_of 1 friend (nextMsgId env w) \<longrightarrow> selMeta (w_db w1) k' = selMeta (w_db w) k' \<and> selData (w_db w1) k' = selData (w_db w) k'"
proof -
  let ?a = "w_brk w" and ?s = "longStart env w friend message" and ?m = "longMsg env w friend message"
  let ?ps = "wireParts env w message" and ?F = "unat (fragmentsAtATime (w_params w))"
  define s where "s = min (length ?ps) ?F"
  note so = sender_okD [OF ok(1)]
  have blob: "maxBlob (db_engine env) < 2 ^ 31" using env(2) by (simp add: engine_ok_def)
  have len32: "length message < 2 ^ 32" using len(2) blob by simp
  have n: "length ?ps \<le> length message" by (rule length_wireParts [OF so(7)])
  then have n31: "length ?ps < 2 ^ 31" using len(2) blob by simp
  have "0 < pieceLen w message" using pieceSize_bounds(1) [OF so(7), of 63 "length message"] by (simp add: pieceLen_def)
  then have pos: "0 < length ?ps" using pieceCount_pos len(1) by (simp add: wireParts_def)
  note st = longStart_ok [OF ok(1) len32]
  have h0: "q_heap (w_q ?s) ?a = Some ?m" by simp
  have "length (sentOf (w_trace ?s)) + (length ?ps - 0) \<le> N" using room by simp
  from sendPass_flight [OF env(1,3) this _ sender_okD(4) [OF st(1)] h0 longMsg_flying [OF n31]] obtain w1 m1 where
    p: "sendPass env ?s (Some ?a) [0..<length ?ps] = Inr w1" "flying ?ps 0 s m1" "sentRange env ?a ?ps 0 s ?s ?m w1 m1"
    using ok(3) by (auto simp: Let_def s_def)
  from p(3) obtain fs ls nt rt evs new where gw: "genuine env (w_trace w1)" and g: "rt_ok env (friend_number ?m) w1" "m1 = ?m\<lparr>fragments := fs, lastSent := ls, numTransit := nt\<rparr>"
    "w1 = ?s\<lparr>w_q := (w_q ?s)\<lparr>q_heap := (q_heap (w_q ?s))(?a \<mapsto> m1)\<rparr>, w_rt := rt, w_trace := w_trace ?s @ evs\<rparr>"
    "sentOf evs = map (\<lambda>i. (friend_number ?m, m_type ?m, Some (?ps ! i))) [0..<s]" "clientOf evs = []"
    "recs rt = recs (w_rt ?s) @ new"
    "map (\<lambda>x. (r_msg x, r_partNo x)) new = map (\<lambda>i. (Some ?a, of_nat (i + 1))) [0..<s]"
    unfolding sentRange_def by blast
  note fl = flyingD [OF p(2)]
  have w1: "q_heap (w_q w1) ?a = Some m1" "w_db w1 = w_db w" "w_params w1 = w_params w" "w_rt w1 = rt"
    "w_trace w1 = w_trace w @ Clock (clock env (w_trace w)) # evs" by (simp_all add: g(3))
  have m1: "m_id m1 = nextMsgId env w" "friend_number m1 = friend" "numParts m1 = of_nat (length ?ps)" by (simp_all add: g(2))
  have s: "0 < s" using pos F by (simp add: s_def)
  then have transit: "numTransit m1 > 0" using fl(6) by (simp add: word_less_nat_alt)
  have ok1: "sender_ok env friend w1 []" by (rule sentRange_sender_ok [OF p(3) st(1,2) fl(7)]) simp
  have room1: "card (ringReceipts (w_q w1) []) < rangeSize (w_params w1)" "length ([] :: addr list) < 1"
    by (simp_all add: ringReceipts_def rangeSize_def)
  have fresh1: "selMeta (w_db w1) (key_of 1 friend (m_id m1)) = None" using fresh by (simp add: w1(2) m1(1))
  have parts1: "unat (numParts m1) \<le> length message" using n fl(4) by simp
  obtain r q' db' pv nx where acc:
    "acceptMessage 1 env w1 (Some ?a) friend type message = Inr (r, w1\<lparr>lastReceipt := r, w_q := q', w_db := db'\<rparr>)"
    "in_range (w_params w1) r" "sender_ok env friend (w1\<lparr>lastReceipt := r, w_q := q', w_db := db'\<rparr>) (linkedIn ?a [])"
    "q_heap q' ?a = Some (m1\<lparr>m_type := type, m_receipt := r, m_prev := pv, m_next := nx\<rparr>)"
    "dbInsertOutboundMessage (db_engine env) friend type (m_id m1) (m_id m1) (numParts m1) message r (w_db w1) = Inr db'"
    by (rule acceptMessage_effect [OF env(2) ok1 w1(1) _ room1 fresh1 len(2) parts1, of type]) simp_all
  let ?w2 = "w1\<lparr>lastReceipt := r, w_q := q', w_db := db'\<rparr>" and ?j = "jobFor env w friend type message r"
  have run: "friend_send_message_long 1 env w friend type message = Inr (r, ?w2)"
    unfolding friend_send_message_long_eq [OF so(6,7) len32 mid] p(1) bindR_Inr derefW_at [OF w1(1)]
    using transit acc(1) by simp
  have ins: "stored ?j db'"
    "\<And>k'. k' \<noteq> key_of 1 friend (nextMsgId env w) \<Longrightarrow> selMeta db' k' = selMeta (w_db w) k' \<and> selData db' k' = selData (w_db w) k'"
    using stored_insert [OF env(2) so(5), of "numParts m1" ?j type "m_id m1" message r db'] acc(5) fl(4) n31 w1(2) m1(1)
    by simp_all
  have "flying ?ps 0 s (m1\<lparr>m_type := type, m_receipt := r, m_prev := pv, m_next := nx\<rparr>)"
    using p(2) by (simp add: flying_def)
  moreover have "awaiting ?j 0 s (recs rt)" using g(6,7) ok(2) by (simp add: awaiting_def)
  ultimately have fl2: "flight env ?j 0 s ?w2"
    using s gw sender_okD(1,4) [OF acc(3)] ins(1) acc(4) m1 w1(4) by (simp add: flight_def linkedIn_def job_of_def)
  show thesis
    by (rule that [OF run _ s_def fl2]) (use acc(2) w1 g(4,5) ins(2) pos in simp_all)
qed

lemma delivered:
  assumes "tox_receipts_ok env (sentNum w + length (wireParts env w message))" "engine_ok (db_engine env)"
    "reliable env friend (sentNum w + length (wireParts env w message))"
    "sender_ok env friend w []" "recs (w_rt w) = []" "genuine env (w_trace w)" "0 < unat (fragmentsAtATime (w_params w))"
    "markerExists message = Inr False" "unat (maxMessageLength (w_params w)) < length message"
    "length message \<le> maxBlob (db_engine env)" "lastMsgId w \<noteq> -1" "unat (nextMsgId env w) < 10 ^ 13"
    "selMeta (w_db w) (key_of 1 friend (nextMsgId env w)) = None"
  shows "\<exists>r w1 w2. friend_send_message 1 env w friend type message = Inr (r, w1) \<and> in_range (w_params w) r \<and>
    confirmOldest env friend (length (wireParts env w message)) w1 = Inr w2 \<and>
    sentOf (w_trace w2) = sentOf (w_trace w) @
      map (\<lambda>i. (friend, if i < unat (fragmentsAtATime (w_params w)) then 0 else type, Some (wireParts env w message ! i)))
        [0..<length (wireParts env w message)] \<and>
    clientOf (w_trace w2) = clientOf (w_trace w) @ [ClientReceipt friend r] \<and>
    ring (w_q w2) [] \<and> recs (w_rt w2) = [] \<and> set (selectPending (w_db w2)) = set (selectPending (w_db w))"
proof -
  let ?ps = "wireParts env w message" and ?F = "unat (fragmentsAtATime (w_params w))"
  have so: "db_inv (w_db w)" using sender_okD(5) [OF assms(4)] .
  have ne: "message \<noteq> []" using assms(9) by auto
  obtain r w1 s where st: "friend_send_message_long 1 env w friend type message = Inr (r, w1)" "in_range (w_params w) r"
    "s = min (length ?ps) ?F" "flight env (jobFor env w friend type message r) 0 s w1" "w_params w1 = w_params w"
    "sentOf (w_trace w1) = sentOf (w_trace w) @ map (\<lambda>i. (friend, 0, Some (?ps ! i))) [0..<s]"
    "clientOf (w_trace w1) = clientOf (w_trace w)" "0 < length ?ps"
    "\<forall>k'. k' \<noteq> key_of 1 friend (nextMsgId env w) \<longrightarrow> selMeta (w_db w1) k' = selMeta (w_db w) k' \<and> selData (w_db w1) k' = selData (w_db w) k'"
    by (rule long_flight [OF assms(1-7) ne assms(10-13) order_refl])
  have run: "friend_send_message 1 env w friend type message = Inr (r, w1)"
    using st(1) assms(8,9) by (simp add: friend_send_message_def)
  let ?j = "jobFor env w friend type message r"
  have room: "length (sentOf (w_trace w1)) + (length (j_parts ?j) - s) \<le> length (sentOf (w_trace w)) + length ?ps"
    using st(3) by (simp add: st(6))
  have s: "s = min (length (j_parts ?j)) (0 + unat (fragmentsAtATime (w_params w)))" using st(3) by simp
  have pos: "0 < length (j_parts ?j)" using st(8) by simp
  have rel: "reliable env (j_friend ?j) (sentNum w + length ?ps)" using assms(3) by simp
  from flight_completes [OF assms(1) rel assms(7) st(4,5) pos s room, of friend] obtain w2 where
    w2: "confirmOldest env friend (length ?ps) w1 = Inr w2" "finished ?j s w1 w2" by auto
  have sent: "sentOf (w_trace w2) = sentOf (w_trace w) @ map (\<lambda>i. (friend, if i < ?F then 0 else type, Some (?ps ! i))) [0..<length ?ps]"
  proof -
    have "[0..<length ?ps] = [0..<s] @ [s..<length ?ps]" using st(3) by (intro upt_split) simp_all
    then show ?thesis using w2(2) st(3,6) by (auto simp: finished_def)
  qed
  have "set (selectPending (w_db w2)) = set (selectPending (w_db w))"
    using w2(2) st(9) data_needs_meta [OF so assms(13)]
    by (intro selectPending_same [OF so, where k = "key_of 1 friend (nextMsgId env w)"]) (simp_all add: finished_def)
  then show ?thesis
    using run st(2) w2 sent st(7) by (intro exI [of _ r] exI [of _ w1] exI [of _ w2]) (simp add: finished_def)
qed

subsection \<open>Properties\<close>


lemma env_default_reliable:
  assumes "n < 2 ^ 32"
  shows "reliable env_default friend n"
proof -
  have "tx_send env_default tr friend type d \<noteq> 0" if "length (sentOf tr) < n" for tr type d
  proof -
    have "given friend tr + 1 < 2 ^ 32" using given_le [of friend tr] that assms by simp
    then have "unat (of_nat (given friend tr + 1) :: u32) = given friend tr + 1" by (rule unat_of_nat_u32)
    then show ?thesis by (auto simp: env_default_def)
  qed
  then show ?thesis by (simp add: reliable_def) (simp add: env_default_def)
qed


end
