(* ===== verification/Machine.thy ===== *)
theory Machine
  imports Delivery
begin

section \<open>The library as a state machine\<close>

text \<open>
  All that can happen to the library, in any order: the client sets parameters, initialises and shuts
  down, sends messages; tox delivers messages and receipts; the background thread wakes up.  Each
  call that returns is a step from one \<open>world\<close> to the next; a call that faults ends the process.

  \<open>evolves\<close> is what every handler does to the world whatever its arguments: it keeps the tables of
  the database consistent, keeps the shape of the messages on the heap, only appends to the trace,
  and leaves the parameters and flags alone.  The invariant of the reachable worlds follows by rule
  induction.  It also shows that the background thread never does anything: \<open>toxInstance\<close> stays NULL.
\<close>

subsection \<open>What every handler keeps\<close>

definition frag_ok :: "msg_outbound \<Rightarrow> bool" where
  "frag_ok m \<longleftrightarrow> length (fragments m) = unat (numParts m)"

definition heap_ok :: "outq \<Rightarrow> addr \<Rightarrow> bool" where
  "heap_ok q brk \<longleftrightarrow> (\<forall>a m. q_heap q a = Some m \<longrightarrow> a < brk \<and> frag_ok m)"

definition lib_ok :: "env \<Rightarrow> world \<Rightarrow> bool" where
  "lib_ok env w \<longleftrightarrow> genuine env (w_trace w) \<and> db_inv (w_db w) \<and> heap_ok (w_q w) (w_brk w)"

definition evolves :: "env \<Rightarrow> world \<Rightarrow> world \<Rightarrow> bool" where
  "evolves env w w' \<longleftrightarrow> (lib_ok env w \<longrightarrow> lib_ok env w') \<and> (\<exists>evs. w_trace w' = w_trace w @ evs) \<and>
     toxInstance w' = toxInstance w \<and> w_params w' = w_params w \<and> markerMaxSizeEver w' = markerMaxSizeEver w \<and>
     initializedApi w' = initializedApi w \<and> initializedDb w' = initializedDb w"

named_theorems evolves_intros \<open>single changes of the world\<close>

lemma evolves_refl [evolves_intros]: "evolves env w w"
  by (simp add: evolves_def)

lemma evolves_trans [trans]: "evolves env w w' \<Longrightarrow> evolves env w' w'' \<Longrightarrow> evolves env w w''"
  by (auto simp: evolves_def)

lemma evolves_emit [evolves_intros]:
  "evolves env w (emit (Clock t) w)" "evolves env w (emit (ToxStatus friend on) w)" "evolves env w (emit (Client ev) w)"
  by (simp_all add: evolves_def emit_def lib_ok_def)

lemma evolves_emit_send [evolves_intros]:
  "evolves env w (emit (ToxSend friend type d (tx_send env (w_trace w) friend type d)) w)"
  by (simp add: emit_def evolves_def lib_ok_def genuine_snoc)

lemmas outside_defs = toxSend_def getCurrTimeMs_def isFriendOnline_def Let_def case_prod_conv

lemma evolves_statics [evolves_intros]:
  "evolves env w (w\<lparr>w_rt := rt\<rparr>)" "evolves env w (w\<lparr>lastMsgId := mid\<rparr>)" "evolves env w (w\<lparr>lastReceipt := r\<rparr>)"
  by (simp_all add: evolves_def lib_ok_def)

lemma evolves_db: "(db_inv (w_db w) \<Longrightarrow> db_inv db) \<Longrightarrow> evolves env w (w\<lparr>w_db := db\<rparr>)"
  by (simp add: evolves_def lib_ok_def)

lemma evolves_q: "(heap_ok (w_q w) (w_brk w) \<Longrightarrow> heap_ok q (w_brk w)) \<Longrightarrow> evolves env w (w\<lparr>w_q := q\<rparr>)"
  by (simp add: evolves_def lib_ok_def)

text \<open>Changes of the heap.\<close>

lemma updMsg_heap_ok:
  "updMsg q p f = Inr q' \<Longrightarrow> heap_ok q brk \<Longrightarrow> (\<And>m. frag_ok m \<Longrightarrow> frag_ok (f m)) \<Longrightarrow> heap_ok q' brk"
  by (auto simp: updMsg_def heap_ok_def split: option.splits if_splits)

lemma evolves_updMsgW: "updMsgW w p f = Inr w' \<Longrightarrow> (\<And>m. frag_ok m \<Longrightarrow> frag_ok (f m)) \<Longrightarrow> evolves env w w'"
proof -
  assume r: "updMsgW w p f = Inr w'" and f: "\<And>m. frag_ok m \<Longrightarrow> frag_ok (f m)"
  obtain q where q: "updMsg (w_q w) p f = Inr q" "w' = w\<lparr>w_q := q\<rparr>" using r by (auto simp: updMsgW_def bindR_eq_Inr)
  show "evolves env w w'" unfolding q(2) by (rule evolves_q) (rule updMsg_heap_ok [OF q(1) _ f])
qed

lemma evolves_allocMsg: "allocMsg w m = (p, w') \<Longrightarrow> frag_ok m \<Longrightarrow> evolves env w w'"
proof -
  assume a: "allocMsg w m = (p, w')" "frag_ok m"
  have "heap_ok (q\<lparr>q_heap := (q_heap q)(brk \<mapsto> m)\<rparr>) (brk + 1)" if "heap_ok q brk" for q brk
    using that a(2) unfolding heap_ok_def by (simp add: less_Suc_eq)
  with a(1) show ?thesis by (auto simp: allocMsg_def evolves_def lib_ok_def)
qed

lemma link_heap_ok: "msgsOutboundLink q p = Inr q' \<Longrightarrow> heap_ok q brk \<Longrightarrow> heap_ok q' brk"
proof -
  have "heap_ok (q\<lparr>msgsOutbound := a\<rparr>) brk = heap_ok q brk" for q a by (simp add: heap_ok_def)
  then show "msgsOutboundLink q p = Inr q' \<Longrightarrow> heap_ok q brk \<Longrightarrow> heap_ok q' brk"
    by (auto simp: msgsOutboundLink_def bindR_eq_Inr frag_ok_def split: if_splits dest!: updMsg_heap_ok)
qed

lemma unlink_heap_ok: "msgsOutboundUnlink q p = Inr q' \<Longrightarrow> heap_ok q brk \<Longrightarrow> heap_ok q' brk"
proof -
  have "heap_ok (q\<lparr>msgsOutbound := a\<rparr>) brk = heap_ok q brk" for q a by (simp add: heap_ok_def)
  then show "msgsOutboundUnlink q p = Inr q' \<Longrightarrow> heap_ok q brk \<Longrightarrow> heap_ok q' brk"
    by (auto simp: msgsOutboundUnlink_def bindR_eq_Inr frag_ok_def split: if_splits dest!: updMsg_heap_ok)
qed

lemma delete_heap_ok: "msgOutboundDelete q p = Inr q' \<Longrightarrow> heap_ok q brk \<Longrightarrow> heap_ok q' brk"
  by (auto simp: msgOutboundDelete_def bindR_eq_Inr heap_ok_def split: if_splits)

lemma deleteAll_heap_ok: "msgsOutboundDeleteAll fuel q = Inr q' \<Longrightarrow> heap_ok q brk \<Longrightarrow> heap_ok q' brk"
proof (induction fuel arbitrary: q)
  case (Suc fuel)
  show ?case
  proof (cases "msgsOutbound q = None")
    case False
    then obtain q1 q2 where "msgsOutboundUnlink q (msgsOutbound q) = Inr q1"
      "msgOutboundDelete q1 (msgsOutbound q) = Inr q2" "msgsOutboundDeleteAll fuel q2 = Inr q'"
      using Suc.prems(1) by (auto simp: bindR_eq_Inr Let_def)
    with Suc.IH Suc.prems(2) show ?thesis using unlink_heap_ok delete_heap_ok by blast
  qed (use Suc.prems in simp)
qed (auto split: if_splits)

text \<open>A message that is split has as many fragments as it says.\<close>

lemma splitLoop_length: "splitLoop mid parts len0 maxMarker maxLen k off rest = Inr fs \<Longrightarrow>
    fs = [] \<or> k + length fs \<le> unat parts"
proof (induction "length rest" arbitrary: k off rest fs rule: less_induct)
  case less
  show ?case
  proof (cases "rest = []")
    case True
    with less.prems show ?thesis by (simp add: splitLoop.simps)
  next
    case False
    let ?step = "if length rest \<ge> maxLen then maxLen else length rest"
    from less.prems False have maxLen: "maxLen \<noteq> 0" by (subst (asm) splitLoop.simps) (auto split: if_splits)
    with less.prems False obtain x gs where gs: "fs = x # gs" "k < unat parts"
      "splitLoop mid parts len0 maxMarker maxLen (k + 1) (off + of_nat ?step) (drop ?step rest) = Inr gs"
      by (subst (asm) splitLoop.simps) (auto simp: Let_def bindR_eq_Inr simp del: of_nat_add split: if_splits)
    have "length (drop ?step rest) < length rest" using maxLen False by (simp add: Suc_leI)
    from less.hyps [OF this gs(3)] gs(1,2) show ?thesis by auto
  qed
qed

lemma splitMessage_frag_ok: "splitMessage ever message maxLength mid = Inr m \<Longrightarrow> frag_ok m"
  by (auto simp: splitMessage_def frag_ok_def newMsgOutbound_def Let_def bindR_eq_Inr split: if_splits
      dest!: splitLoop_length)

subsection \<open>The handlers\<close>

lemma updFragment_frag_ok [simp]: "frag_ok (updFragment i f m) = frag_ok m"
  by (simp add: frag_ok_def updFragment_def)

lemma evolves_sendPart:
  assumes "msgSendPart env w p i = Inr (ok, w')"
  shows "evolves env w w'"
proof -
  obtain m f where m: "derefW w p = Inr m" "readAt (fragments m) i = Inr f"
    using assms by (auto simp: msgSendPart_def bindR_eq_Inr)
  let ?r = "tx_send env (w_trace w) (friend_number m) (m_type m) (f_data f)"
  let ?w1 = "emit (ToxSend (friend_number m) (m_type m) (f_data f) ?r) w"
  have e1: "evolves env w ?w1" by (rule evolves_intros)
  show ?thesis
  proof (cases "?r = 0")
    case True
    with assms e1 show ?thesis unfolding msgSendPart_def m bindR_Inr outside_defs by simp
  next
    case False
    then obtain w2 w3 rt where w: "updMsgW ?w1 p (updFragment i (\<lambda>f. f\<lparr>f_receipt := ?r, f_timesSent := f_timesSent f + 1\<rparr>)) = Inr w2"
      "w3 = emit (Clock (clock env (w_trace w2))) w2" "updMsgW (w3\<lparr>w_rt := rt\<rparr>) p (\<lambda>m. m\<lparr>numTransit := numTransit m + 1\<rparr>) = Inr w'"
      using assms unfolding msgSendPart_def m bindR_Inr outside_defs by (auto simp: bindR_eq_Inr)
    note e1
    also have "evolves env ?w1 w2" by (rule evolves_updMsgW [OF w(1)]) simp
    also have "evolves env w2 w3" unfolding w(2) by (rule evolves_intros)
    also have "evolves env w3 (w3\<lparr>w_rt := rt\<rparr>)" by (rule evolves_intros)
    also have "evolves env (w3\<lparr>w_rt := rt\<rparr>) w'" by (rule evolves_updMsgW [OF w(3)]) (simp add: frag_ok_def)
    finally show ?thesis .
  qed
qed

lemma evolves_sendPass: "sendPass env w p is = Inr w' \<Longrightarrow> evolves env w w'"
proof (induction "is" arbitrary: w)
  case (Cons i "is")
  show ?case
  proof (cases "sendPass env w p (i # is) = Inr w")
    case True
    with Cons.prems show ?thesis by (simp add: evolves_refl)
  next
    case False
    with Cons.prems obtain ok w1 w2 where w: "msgSendPart env w p i = Inr (ok, w1)"
      "(if ok then updMsgW w1 p (\<lambda>m. m\<lparr>lastSent := of_nat i\<rparr>) else Inr w1) = Inr w2" "sendPass env w2 p is = Inr w'"
      by (auto simp: bindR_eq_Inr split: if_splits)
    have "evolves env w w1" using w(1) by (rule evolves_sendPart)
    also have "evolves env w1 w2"
    proof (cases ok)
      case True
      with w(2) have "updMsgW w1 p (\<lambda>m. m\<lparr>lastSent := of_nat i\<rparr>) = Inr w2" by simp
      then show ?thesis by (rule evolves_updMsgW) (simp add: frag_ok_def)
    qed (use w(2) in \<open>simp add: evolves_refl\<close>)
    also have "evolves env w2 w'" using w(3) by (rule Cons.IH)
    finally show ?thesis .
  qed
qed (simp add: evolves_refl)

lemma evolves_retryPass: "retryPass env w p is = Inr w' \<Longrightarrow> evolves env w w'"
proof (induction "is" arbitrary: w)
  case (Cons i "is")
  have "w' = w \<or> (\<exists>w1. (w1 = w \<or> (\<exists>ok. msgSendPart env w p i = Inr (ok, w1))) \<and> retryPass env w1 p is = Inr w')"
    using Cons.prems by (auto simp: bindR_eq_Inr split: if_splits)
  then show ?case using evolves_refl evolves_sendPart evolves_trans Cons.IH by blast
qed (simp add: evolves_refl)

lemma evolves_nextParts: "msgSendNextParts env w p = Inr w' \<Longrightarrow> evolves env w w'"
  by (auto simp: msgSendNextParts_def bindR_eq_Inr intro: evolves_trans dest!: evolves_sendPass evolves_retryPass)

lemma evolves_accept:
  assumes "engine_ok (db_engine env)" "acceptMessage fuel env w p friend type message = Inr (r, w')"
  shows "evolves env w w'"
proof -
  obtain w1 rc w2 q db and m :: msg_outbound where w: "updMsgW w p (\<lambda>m. m\<lparr>m_type := type\<rparr>) = Inr w1"
    "updMsgW (w1\<lparr>lastReceipt := rc\<rparr>) p (\<lambda>m. m\<lparr>m_receipt := rc\<rparr>) = Inr w2" "msgsOutboundLink (w_q w2) p = Inr q"
    "dbInsertOutboundMessage (db_engine env) friend type (m_id m) (m_id m) (numParts m) message (m_receipt m) (w_db w2) = Inr db"
    "w2\<lparr>w_q := q, w_db := db\<rparr> = w'"
    using assms(2) unfolding acceptMessage_def bindR_eq_Inr sum.inject prod.inject
    by (elim exE conjE) (rule that)
  have "evolves env w w1" by (rule evolves_updMsgW [OF w(1)]) (simp add: frag_ok_def)
  also have "evolves env w1 (w1\<lparr>lastReceipt := rc\<rparr>)" by (rule evolves_intros)
  also have "evolves env (w1\<lparr>lastReceipt := rc\<rparr>) w2" by (rule evolves_updMsgW [OF w(2)]) (simp add: frag_ok_def)
  also have "evolves env w2 (w2\<lparr>w_q := q\<rparr>)" by (rule evolves_q) (rule link_heap_ok [OF w(3)])
  also have "evolves env (w2\<lparr>w_q := q\<rparr>) (w2\<lparr>w_q := q, w_db := db\<rparr>)"
    by (rule evolves_db) (use insertOutbound_effect [OF assms(1) _ w(4)] in simp)
  finally show ?thesis using w(5) by simp
qed

lemma evolves_send_long:
  assumes "engine_ok (db_engine env)" "friend_send_message_long fuel env w friend type message = Inr (r, w')"
  shows "evolves env w w'"
proof -
  let ?w1 = "emit (Clock (clock env (w_trace w))) w"
  obtain mid lastId m p w2 w3 where w:
    "splitMessage (markerMaxSizeEver (?w1\<lparr>lastMsgId := lastId\<rparr>)) message (ucast (maxMessageLength (w_params (?w1\<lparr>lastMsgId := lastId\<rparr>)))) mid = Inr m"
    "allocMsg (?w1\<lparr>lastMsgId := lastId\<rparr>) (m\<lparr>friend_number := friend\<rparr>) = (p, w2)"
    "sendPass env w2 p [0..<unat (numParts m)] = Inr w3"
    "acceptMessage fuel env w3 p friend type message = Inr (r, w') \<or> (\<exists>q. msgOutboundDelete (w_q w3) p = Inr q \<and> w' = w3\<lparr>w_q := q\<rparr>)"
    using assms(2) unfolding friend_send_message_long_def outside_defs
    by (auto simp: bindR_eq_Inr allocMsg_def split: if_splits)
  have "evolves env w ?w1" by (rule evolves_intros)
  also have "evolves env ?w1 (?w1\<lparr>lastMsgId := lastId\<rparr>)" by (rule evolves_intros)
  also have "evolves env (?w1\<lparr>lastMsgId := lastId\<rparr>) w2"
    using splitMessage_frag_ok [OF w(1)] by (intro evolves_allocMsg [OF w(2)]) (simp add: frag_ok_def)
  also have "evolves env w2 w3" using w(3) by (rule evolves_sendPass)
  also have "evolves env w3 w'"
  proof (rule disjE [OF w(4)])
    assume "\<exists>q. msgOutboundDelete (w_q w3) p = Inr q \<and> w' = w3\<lparr>w_q := q\<rparr>"
    then obtain q where q: "msgOutboundDelete (w_q w3) p = Inr q" "w' = w3\<lparr>w_q := q\<rparr>" by blast
    show ?thesis unfolding q(2) by (rule evolves_q) (rule delete_heap_ok [OF q(1)])
  qed (rule evolves_accept [OF assms(1)])
  finally show ?thesis .
qed

lemma evolves_send:
  "engine_ok (db_engine env) \<Longrightarrow> friend_send_message fuel env w friend type message = Inr (r, w') \<Longrightarrow> evolves env w w'"
  by (auto simp: friend_send_message_def bindR_eq_Inr outside_defs split: if_splits
      intro: evolves_intros evolves_send_long)

lemma dbClear_inv: "db_inv db \<Longrightarrow> db_inv (dbClearOutboundPending friend mid db)"
  using deleteData_effect(1) [of "dbLock db"] by (simp add: dbClearOutboundPending_def)

lemma dbConfirmed_inv: "dbOutboundPartConfirmed friend mid partNo tm db = Inr db' \<Longrightarrow> db_inv db \<Longrightarrow> db_inv db'"
  by (metis partConfirmed_effect partConfirmed_faults sum.inject(2))

lemma evolves_complete:
  assumes "msgIsComplete w p = Inr w'"
  shows "evolves env w w'"
proof -
  obtain m :: msg_outbound and q1 q2 where m: "derefW w p = Inr m" and q:
    "msgsOutboundUnlink (w_q w) p = Inr q1" "msgOutboundDelete q1 p = Inr q2"
    "w' = (emit (Client (ClientReceipt (friend_number m) (m_receipt m))) w)
      \<lparr>w_db := dbClearOutboundPending (friend_number m) (m_id m) (w_db w), w_q := q2\<rparr>"
    using assms by (auto simp: msgIsComplete_def bindR_eq_Inr Let_def emit_def)
  let ?w1 = "emit (Client (ClientReceipt (friend_number m) (m_receipt m))) w"
  let ?w2 = "?w1\<lparr>w_db := dbClearOutboundPending (friend_number m) (m_id m) (w_db w)\<rparr>"
  have "evolves env w ?w1" by (rule evolves_intros)
  also have "evolves env ?w1 ?w2" by (rule evolves_db) (simp add: emit_def dbClear_inv)
  also have "evolves env ?w2 w'"
    unfolding q(3) by (rule evolves_q) (auto simp: emit_def intro: unlink_heap_ok [OF q(1)] delete_heap_ok [OF q(2)])
  finally show ?thesis .
qed

lemma evolves_afterConfirm:
  assumes "(if numConfirmed m < numParts m then case isFriendOnline env w friend of (on, w) \<Rightarrow> if on then msgSendNextParts env w p else Inr w
     else msgIsComplete w p) = Inr w'"
  shows "evolves env w w'"
proof (cases "numConfirmed m < numParts m")
  case True
  let ?w1 = "emit (ToxStatus friend (tx_online env (w_trace w) friend)) w"
  have "evolves env w ?w1" by (rule evolves_intros)
  also have "evolves env ?w1 w'"
    using assms True evolves_nextParts [of env ?w1 p w'] evolves_refl [of env w']
    unfolding outside_defs by (simp split: if_splits)
  finally show ?thesis .
next
  case False
  with assms show ?thesis by (simp add: evolves_complete)
qed

lemma evolves_tryReceipt:
  assumes "tryProcessReceipt env w receipt = Inr (fin, w')"
  shows "evolves env w w'"
proof -
  obtain found where found: "lookupReceipt (w_rt w) receipt = Inr found"
    using assms by (auto simp: tryProcessReceipt_def bindR_eq_Inr)
  show ?thesis
  proof (cases found)
    case None
    with assms found show ?thesis by (simp add: tryProcessReceipt_def evolves_refl)
  next
    case (Some recIdx)
    obtain r :: receipt_record and m m' :: msg_outbound and w1 db w2 rt where w:
      "updMsgW w (r_msg r) (\<lambda>m. (updFragment (unat (r_partNo r - 1)) (\<lambda>f. f\<lparr>f_receipt := 0, f_confirmed := 1, f_data := None\<rparr>) m)
         \<lparr>numConfirmed := numConfirmed m + 1, numTransit := numTransit m - 1\<rparr>) = Inr w1"
      "dbOutboundPartConfirmed (friend_number m) (m_id m) (r_partNo r) (clock env (w_trace w1))
         (w_db (emit (Clock (clock env (w_trace w1))) w1)) = Inr db"
      "(if numConfirmed m' < numParts m'
        then case isFriendOnline env ((emit (Clock (clock env (w_trace w1))) w1)\<lparr>w_db := db\<rparr>) (friend_number m')
             of (on, w) \<Rightarrow> if on then msgSendNextParts env w (r_msg r) else Inr w
        else msgIsComplete ((emit (Clock (clock env (w_trace w1))) w1)\<lparr>w_db := db\<rparr>) (r_msg r)) = Inr w2"
      "w2\<lparr>w_rt := rt\<rparr> = w'"
      using assms unfolding tryProcessReceipt_def found Some bindR_Inr option.case getCurrTimeMs_def Let_def case_prod_conv
        bindR_eq_Inr sum.inject prod.inject
      by (elim exE conjE) (rule that)
    let ?w1 = "emit (Clock (clock env (w_trace w1))) w1"
    have "evolves env w w1" by (rule evolves_updMsgW [OF w(1)]) (simp add: frag_ok_def updFragment_def)
    also have "evolves env w1 ?w1" by (rule evolves_intros)
    also have "evolves env ?w1 (?w1\<lparr>w_db := db\<rparr>)" by (rule evolves_db) (rule dbConfirmed_inv [OF w(2)])
    also have "evolves env (?w1\<lparr>w_db := db\<rparr>) w2" by (rule evolves_afterConfirm [OF w(3)])
    also have "evolves env w2 (w2\<lparr>w_rt := rt\<rparr>)" by (rule evolves_intros)
    finally show ?thesis using w(4) by simp
  qed
qed

lemma evolves_receipt: "friend_read_receipt_cb env w friend receipt = Inr w' \<Longrightarrow> evolves env w w'"
  by (auto simp: friend_read_receipt_cb_def bindR_eq_Inr split: if_splits
      intro: evolves_trans [OF evolves_tryReceipt] evolves_intros)

lemma genuine_clients: "genuine env (tr @ map Client evs) = genuine env tr"
  by (induction evs rule: rev_induct) (simp_all flip: append_assoc)

lemma evolves_message:
  assumes "engine_ok (db_engine env)" "length message < 2 ^ 31" "libMessage env friend type message w = Inr (u, w')"
  shows "evolves env w w'"
proof -
  let ?upd = "\<lambda>w db evs. w\<lparr>w_db := db, w_trace := w_trace w @ map Client evs\<rparr>"
  obtain frag w1 now db evs where w: "isFragment message = Inr frag" "w1 = (if frag then emit (Clock (clock env (w_trace w))) w else w)"
    "friend_message_cb (db_engine env) friend type message now (w_db w1) = Inr (db, evs)" "w' = ?upd w1 db evs"
    using assms(3) by (auto simp: libMessage_def bindR_eq_Inr outside_defs split: if_splits)
  have "evolves env w w1" unfolding w(2) by (simp add: evolves_intros)
  also have "evolves env w1 w'"
  proof -
    have "db_inv db" if inv: "db_inv (w_db w1)"
    proof (cases frag)
      case False
      with w(1,3) inv show ?thesis by (simp add: friend_message_cb_def)
    next
      case True
      then obtain mi :: marker_info and out where mi: "dbInsertInboundFragment (db_engine env) friend type (mi_id mi) (mi_partNo mi) (mi_numParts mi)
          (mi_off mi) (mi_sz mi) (drop (unat (mi_size mi)) message) now (w_db w1) = Inr (db, out)"
        using w(1,3) by (auto simp: friend_message_cb_def processInFragment_def bindR_eq_Inr split: option.splits)
      show ?thesis by (rule insertInbound_outcome(1) [OF assms(1) inv _ mi]) (use assms(2) in simp)
    qed
    then show ?thesis by (simp add: w(4) evolves_def lib_ok_def genuine_clients)
  qed
  finally show ?thesis .
qed

lemma evolves_resendLoop: "resendLoop fuel env now i w = Inr w' \<Longrightarrow> evolves env w w'"
proof (induction fuel arbitrary: i w)
  case (Suc fuel)
  have "w' = w \<or> resendLoop fuel env now (i + 1) w = Inr w' \<or>
    (\<exists>rt p j w1 ok w2. updMsgW (w\<lparr>w_rt := rt\<rparr>) p (\<lambda>m. m\<lparr>numTransit := numTransit m - 1, numLoss := numLoss m + 1\<rparr>) = Inr w1 \<and>
       msgSendPart env w1 p j = Inr (ok, w2) \<and> resendLoop fuel env now (i + 1) w2 = Inr w')"
    using Suc.prems by (auto simp: bindR_eq_Inr Let_def split: if_splits)
  then consider "w' = w" | "resendLoop fuel env now (i + 1) w = Inr w'"
    | rt p j w1 ok w2 where "updMsgW (w\<lparr>w_rt := rt\<rparr>) p (\<lambda>m. m\<lparr>numTransit := numTransit m - 1, numLoss := numLoss m + 1\<rparr>) = Inr w1"
      "msgSendPart env w1 p j = Inr (ok, w2)" "resendLoop fuel env now (i + 1) w2 = Inr w'" by blast
  then show ?case
  proof cases
    case 3
    have "evolves env w (w\<lparr>w_rt := rt\<rparr>)" by (rule evolves_intros)
    also have "evolves env (w\<lparr>w_rt := rt\<rparr>) w1" by (rule evolves_updMsgW [OF 3(1)]) (simp add: frag_ok_def)
    also have "evolves env w1 w2" using 3(2) by (rule evolves_sendPart)
    also have "evolves env w2 w'" using 3(3) by (rule Suc.IH)
    finally show ?thesis .
  qed (simp_all add: evolves_refl Suc.IH)
qed simp

lemma evolves_sendMoreLoop: "sendMoreLoop fuel env p w = Inr w' \<Longrightarrow> evolves env w w'"
proof (induction fuel arbitrary: p w)
  case (Suc fuel)
  obtain m :: msg_outbound where m: "derefW w p = Inr m" using Suc.prems by (auto simp: bindR_eq_Inr)
  let ?f = "friend_number m"
  let ?w1 = "emit (ToxStatus ?f (tx_online env (w_trace w) ?f)) w"
  obtain w2 where w: "(if tx_online env (w_trace w) ?f then msgSendNextParts env ?w1 p else Inr ?w1) = Inr w2"
    "w' = w2 \<or> (\<exists>p'. sendMoreLoop fuel env p' w2 = Inr w')"
    using Suc.prems unfolding sendMoreLoop.simps m bindR_Inr outside_defs by (auto simp: bindR_eq_Inr split: if_splits)
  have "evolves env w ?w1" by (rule evolves_intros)
  also have "evolves env ?w1 w2"
    using w(1) evolves_nextParts [of env ?w1 p w2] by (auto simp: Let_def evolves_refl split: if_splits)
  also have "evolves env w2 w'" using w(2) Suc.IH evolves_refl by blast
  finally show ?case .
qed simp

lemma evolves_periodic: "doPeriodic fuel env w = Inr w' \<Longrightarrow> evolves env w w'"
proof -
  have r: "resendExpiredReceipts fuel env w = Inr w1 \<Longrightarrow> evolves env w w1" for w1
    using evolves_resendLoop evolves_intros(3) [of env w] evolves_trans
    unfolding resendExpiredReceipts_def outside_defs by (auto split: if_splits simp: evolves_refl) (metis evolves_emit(1) evolves_trans)
  have s: "sendMore fuel env w1 = Inr w' \<Longrightarrow> evolves env w1 w'" for w1
    by (auto simp: sendMore_def evolves_refl intro: evolves_sendMoreLoop split: if_splits)
  show "doPeriodic fuel env w = Inr w' \<Longrightarrow> evolves env w w'"
    by (auto simp: doPeriodic_def bindR_eq_Inr evolves_refl split: if_splits intro: evolves_trans [OF r s])
qed

lemma evolves_threadRound: "threadRound fuel env w = Inr w' \<Longrightarrow> evolves env w w'"
  by (auto simp: threadRound_def evolves_refl intro: evolves_periodic split: if_splits)

subsection \<open>Pending messages, initialisation and shutdown\<close>

lemma evolves_discard: "discardPending p a w = Inr w' \<Longrightarrow> evolves env w w'"
proof -
  assume "discardPending p a w = Inr w'"
  then obtain q where q: "msgOutboundDelete (w_q w) a = Inr q"
    "w' = w\<lparr>w_q := q, w_db := dbClearOutboundPending (pd_friend p) (pd_id p) (w_db w)\<rparr>"
    by (auto simp: discardPending_def bindR_eq_Inr)
  have "evolves env w (w\<lparr>w_q := q\<rparr>)" by (rule evolves_q) (rule delete_heap_ok [OF q(1)])
  also have "evolves env (w\<lparr>w_q := q\<rparr>) w'" unfolding q(2) by (rule evolves_db) (simp add: dbClear_inv)
  finally show ?thesis .
qed

text \<open>A change of one message whose contents are known.\<close>

lemma evolves_updMsgW_at:
  assumes "updMsgW w (Some a) f = Inr w'" "q_heap (w_q w) a = Some m" "frag_ok (f m)"
  shows "evolves env w w'"
proof -
  have w': "w' = w\<lparr>w_q := (w_q w)\<lparr>q_heap := (q_heap (w_q w))(a \<mapsto> f m)\<rparr>\<rparr>"
    using assms(1,2) by (auto simp: updMsgW_def updMsg_def bindR_eq_Inr)
  show ?thesis unfolding w' by (rule evolves_q) (use assms(2,3) in \<open>auto simp: heap_ok_def\<close>)
qed

lemma markConfirmed_length [simp]: "length (markConfirmed c fs) = min (length fs) (length c)"
  by (simp add: markConfirmed_def)

lemma evolves_loadOne:
  assumes "loadPendingSentMessage p w = Inr w'"
  shows "evolves env w w'"
proof -
  obtain m where m: "splitMessage (markerMaxSizeEver w) (pd_message p) (ucast (maxMessageLength (w_params w))) (pd_id p) = Inr m"
    using assms by (auto simp: loadPendingSentMessage_def bindR_eq_Inr)
  let ?a = "w_brk w"
  obtain w1 where w1: "allocMsg w m = (Some ?a, w1)" "q_heap (w_q w1) ?a = Some m" by (simp add: allocMsg_def)
  have e1: "evolves env w w1" by (rule evolves_allocMsg [OF w1(1) splitMessage_frag_ok [OF m]])
  note load = assms [unfolded loadPendingSentMessage_def m bindR_Inr w1(1) Let_def case_prod_conv]
  show ?thesis
  proof (cases "numParts m \<noteq> pd_numParts p \<or> unat (numParts m) \<noteq> length (pd_confirmed p)")
    case True
    with load have "discardPending p (Some ?a) w1 = Inr w'" by simp
    with e1 show ?thesis using evolves_discard evolves_trans by blast
  next
    case False
    with load obtain w2 where w2: "updMsgW w1 (Some ?a) (\<lambda>m. m\<lparr>fragments := markConfirmed (pd_confirmed p) (fragments m),
        numConfirmed := numConfirmed m + of_nat (length (filter (\<lambda>b. b \<noteq> 0) (pd_confirmed p)))\<rparr>) = Inr w2"
      "discardPending p (Some ?a) w2 = Inr w' \<or> (\<exists>w3 q. updMsgW w2 (Some ?a) (\<lambda>m. m\<lparr>friend_number := pd_friend p, fromDb := 1\<rparr>) = Inr w3 \<and>
         msgsOutboundLink (w_q w3) (Some ?a) = Inr q \<and> w' = w3\<lparr>w_q := q\<rparr>)"
      by (auto simp: bindR_eq_Inr split: if_splits)
    note e1
    also have "evolves env w1 w2"
      using splitMessage_frag_ok [OF m] False by (intro evolves_updMsgW_at [OF w2(1) w1(2)]) (simp add: frag_ok_def)
    also have "evolves env w2 w'"
    proof (rule disjE [OF w2(2)])
      assume "\<exists>w3 q. updMsgW w2 (Some ?a) (\<lambda>m. m\<lparr>friend_number := pd_friend p, fromDb := 1\<rparr>) = Inr w3 \<and>
         msgsOutboundLink (w_q w3) (Some ?a) = Inr q \<and> w' = w3\<lparr>w_q := q\<rparr>"
      then obtain w3 q where w3: "updMsgW w2 (Some ?a) (\<lambda>m. m\<lparr>friend_number := pd_friend p, fromDb := 1\<rparr>) = Inr w3"
        "msgsOutboundLink (w_q w3) (Some ?a) = Inr q" "w' = w3\<lparr>w_q := q\<rparr>" by blast
      have "evolves env w2 w3" by (rule evolves_updMsgW [OF w3(1)]) (simp add: frag_ok_def)
      also have "evolves env w3 w'" unfolding w3(3) by (rule evolves_q) (rule link_heap_ok [OF w3(2)])
      finally show ?thesis .
    qed (rule evolves_discard)
    finally show ?thesis .
  qed
qed

lemma evolves_loadLoop: "loadPendingLoop ps w = Inr w' \<Longrightarrow> evolves env w w'"
proof (induction ps arbitrary: w)
  case (Cons p ps)
  then obtain w1 where "loadPendingSentMessage p w = Inr w1" "loadPendingLoop ps w1 = Inr w'" by (auto simp: bindR_eq_Inr)
  then show ?case using evolves_loadOne Cons.IH evolves_trans by blast
qed (simp add: evolves_refl)

lemma evolves_loadPending:
  assumes "loadPendingSentMessages w = Inr w'"
  shows "evolves env w w'"
proof -
  obtain w1 where w1: "loadPendingLoop (selectPending (w_db w)) (w\<lparr>w_db := dbLock (w_db w)\<rparr>) = Inr w1"
    "w' = w1\<lparr>w_db := dbUnlock (w_db w1)\<rparr>"
    using assms by (auto simp: loadPendingSentMessages_def bindR_eq_Inr)
  have "evolves env w (w\<lparr>w_db := dbLock (w_db w)\<rparr>)" by (rule evolves_db) simp
  also have "evolves env (w\<lparr>w_db := dbLock (w_db w)\<rparr>) w1" using w1(1) by (rule evolves_loadLoop)
  also have "evolves env w1 w'" unfolding w1(2) by (rule evolves_db) simp
  finally show ?thesis .
qed

subsection \<open>The step relation\<close>

text \<open>The tables in a database file, as an earlier run left them.\<close>

definition tables_ok :: "meta_row list \<Rightarrow> data_row list \<Rightarrow> bool" where
  "tables_ok metaRows dataRows \<longleftrightarrow> db_inv (db0\<lparr>fragmented_meta := metaRows, fragmented_data := dataRows\<rparr>)"

inductive lib_step :: "env \<Rightarrow> world \<Rightarrow> world \<Rightarrow> bool" for env where
  set_parameters: "lib_step env w (set_parameters p w)"
| init_api: "initialize_api w = Inr w' \<Longrightarrow> lib_step env w w'"
| init_db: "tables_ok metaRows dataRows \<Longrightarrow> initialize_db metaRows dataRows lockCb w = Inr w' \<Longrightarrow> lib_step env w w'"
| init_memory: "initialize_db_inmemory w = Inr w' \<Longrightarrow> lib_step env w w'"
| shutdown: "uninitialize fuel w = Inr w' \<Longrightarrow> lib_step env w w'"
| new: "tox_new fuel w = Inr (tox, w') \<Longrightarrow> lib_step env w w'"
| kill: "tox_kill fuel tox w = Inr w' \<Longrightarrow> lib_step env w w'"
| send: "friend_send_message fuel env w friend type message = Inr (r, w') \<Longrightarrow> lib_step env w w'"
| message: "length message < 2 ^ 31 \<Longrightarrow> libMessage env friend type message w = Inr (u, w') \<Longrightarrow> lib_step env w w'"
| receipt: "friend_read_receipt_cb env w friend receipt = Inr w' \<Longrightarrow> lib_step env w w'"
| thread: "threadRound fuel env w = Inr w' \<Longrightarrow> lib_step env w w'"

inductive reachable :: "env \<Rightarrow> world \<Rightarrow> bool" for env where
  start: "reachable env world0"
| step: "reachable env w \<Longrightarrow> lib_step env w w' \<Longrightarrow> reachable env w'"

definition machine_inv :: "env \<Rightarrow> world \<Rightarrow> bool" where
  "machine_inv env w \<longleftrightarrow> lib_ok env w \<and> toxInstance w = None \<and>
     (initializedApi w \<and> initializedDb w \<longrightarrow> markerMaxSizeEver w = markerMaxSizeEverValue)"

lemma machine_inv_evolves: "evolves env w w' \<Longrightarrow> machine_inv env w \<Longrightarrow> machine_inv env w'"
  by (simp add: evolves_def machine_inv_def)

text \<open>\<open>tox_defragmenter_new\<close> and \<open>tox_defragmenter_kill\<close> never return.\<close>

lemma tox_new_never: "tox_new fuel w \<noteq> Inr x"
  by (induction fuel arbitrary: x) (auto simp: bindR_eq_Inr)

lemma tox_kill_never: "tox_kill fuel tox w \<noteq> Inr x"
  by (induction fuel arbitrary: x) (auto simp: bindR_eq_Inr)

lemma whenReady_inv:
  assumes "initializeWhenReady w = Inr w'" "lib_ok env w" "toxInstance w = None"
  shows "machine_inv env w'"
proof (cases "initializedApi w \<and> initializedDb w")
  case False
  with assms show ?thesis by (auto simp: initializeWhenReady_def machine_inv_def)
next
  case True
  let ?w = "w\<lparr>w_rt := receiptsInitialize, lastReceipt := receiptRangeLo (w_params w)\<rparr>"
  obtain w1 where w1: "loadPendingSentMessages ?w = Inr w1" "w' = w1\<lparr>markerMaxSizeEver := markerMaxSizeEverValue\<rparr>"
    using assms(1) True by (auto simp: initializeWhenReady_def initialize_def bindR_eq_Inr)
  have "evolves env ?w w1" using w1(1) by (rule evolves_loadPending)
  then have "lib_ok env w1" "toxInstance w1 = None" using assms(2,3) by (simp_all add: evolves_def lib_ok_def)
  then show ?thesis by (simp add: w1(2) machine_inv_def lib_ok_def)
qed

lemma initDb_tables:
  "initDb db = Inr db' \<Longrightarrow> fragmented_meta db' = fragmented_meta db \<and> fragmented_data db' = fragmented_data db"
  by (auto simp: initDb_def readDbName_def createSchema_def dbLock_def dbUnlock_def Let_def split: if_splits)

lemma step_inv:
  assumes "engine_ok (db_engine env)"
  shows "lib_step env w w' \<Longrightarrow> machine_inv env w \<Longrightarrow> machine_inv env w'"
proof (induction rule: lib_step.induct)
  case (set_parameters w p)
  then show ?case by (simp add: set_parameters_def machine_inv_def lib_ok_def)
next
  case (init_api w w')
  have "lib_ok env (w\<lparr>initializedApi := True\<rparr>)" "toxInstance (w\<lparr>initializedApi := True\<rparr>) = None"
    using init_api.prems by (simp_all add: machine_inv_def lib_ok_def)
  then show ?case using init_api.hyps whenReady_inv by (auto simp: initialize_api_def)
next
  case (init_db metaRows dataRows lockCb w w')
  obtain db where db: "dbInitialize metaRows dataRows lockCb (w_db w) = Inr db"
    "initializeWhenReady (w\<lparr>w_db := db, initializedDb := True\<rparr>) = Inr w'"
    using init_db.hyps(2) by (auto simp: initialize_db_def bindR_eq_Inr)
  have "db_inv db"
  proof -
    have "fragmented_meta db = metaRows" "fragmented_data db = dataRows"
      using initDb_tables [OF db(1) [unfolded dbInitialize_def]] by simp_all
    then show ?thesis
      using init_db.hyps(1) db_inv_cong [of db "db0\<lparr>fragmented_meta := metaRows, fragmented_data := dataRows\<rparr>"]
      by (simp add: tables_ok_def)
  qed
  then have "lib_ok env (w\<lparr>w_db := db, initializedDb := True\<rparr>)" "toxInstance (w\<lparr>w_db := db, initializedDb := True\<rparr>) = None"
    using init_db.prems by (simp_all add: machine_inv_def lib_ok_def)
  with db(2) show ?case by (rule whenReady_inv)
next
  case (init_memory w w')
  obtain db where db: "dbInitializeInMemory (w_db w) = Inr db"
    "initializeWhenReady (w\<lparr>w_db := db, initializedDb := True\<rparr>) = Inr w'"
    using init_memory.hyps by (auto simp: initialize_db_inmemory_def bindR_eq_Inr)
  have "fragmented_meta db = []" "fragmented_data db = []"
    using initDb_tables [OF db(1) [unfolded dbInitializeInMemory_def]] by simp_all
  then have "db_inv db" by (simp add: db_inv_def)
  then have "lib_ok env (w\<lparr>w_db := db, initializedDb := True\<rparr>)" "toxInstance (w\<lparr>w_db := db, initializedDb := True\<rparr>) = None"
    using init_memory.prems by (simp_all add: machine_inv_def lib_ok_def)
  with db(2) show ?case by (rule whenReady_inv)
next
  case (shutdown fuel w w')
  then obtain q where q: "msgsOutboundDeleteAll fuel (w_q w) = Inr q"
    "w' = w\<lparr>w_q := q, w_rt := receiptsUninitialize (w_rt w), w_db := dbUninitialize (w_db w), initializedApi := False, initializedDb := False\<rparr>"
    by (auto simp: uninitialize_def uninitializeMain_def bindR_eq_Inr)
  have "db_inv (dbUninitialize (w_db w))" by (simp add: dbUninitialize_def db_inv_def)
  with shutdown.prems q deleteAll_heap_ok [OF q(1)] show ?case by (simp add: machine_inv_def lib_ok_def)
next
  case (new fuel w tox w')
  then show ?case using tox_new_never by blast
next
  case (kill fuel tox w w')
  then show ?case using tox_kill_never by blast
next
  case (send fuel w friend type message r w')
  then show ?case using evolves_send [OF assms] machine_inv_evolves by blast
next
  case (message m friend type w u w')
  then show ?case using evolves_message [OF assms] machine_inv_evolves by blast
next
  case (receipt w friend receipt w')
  then show ?case using evolves_receipt machine_inv_evolves by blast
next
  case (thread fuel w w')
  then show ?case using evolves_threadRound machine_inv_evolves by blast
qed

lemma reachable_inv:
  assumes "engine_ok (db_engine env)"
  shows "reachable env w \<Longrightarrow> machine_inv env w"
proof (induction rule: reachable.induct)
  case start
  show ?case by (simp add: machine_inv_def lib_ok_def world0_def db0_inv heap_ok_def)
next
  case (step w w')
  then show ?case using step_inv [OF assms] by blast
qed


text \<open>C25. The background thread never resends anything: \<open>tox_defragmenter_new\<close> and \<open>tox_defragmenter_kill\<close> call themselves and never return, so \<open>toxInstance\<close> stays NULL in every reachable state and each round of the thread leaves the library as it is.\<close>

theorem thread_never_works:
  assumes "engine_ok (db_engine env)" "reachable env w"
  shows "(\<forall>fuel x. tox_new fuel w \<noteq> Inr x) \<and> (\<forall>fuel tox x. tox_kill fuel tox w \<noteq> Inr x) \<and>
    toxInstance w = None \<and> threadRound fuel env w = Inr w"
  using reachable_inv [OF assms] tox_new_never tox_kill_never by (auto simp: machine_inv_def threadRound_def)

text \<open>The library initialised with a database in memory.\<close>

lemma reachable_initialised:
  "\<exists>w. reachable env w \<and> initializedApi w \<and> initializedDb w"
proof -
  obtain w1 where w1: "initialize_api world0 = Inr w1" "initializedApi w1" "w_db w1 = db0" "initializedDb w1 = False"
    by (simp add: initialize_api_def initializeWhenReady_def world0_def)
  obtain w2 where w2: "initialize_db_inmemory w1 = Inr w2" "initializedApi w2" "initializedDb w2"
    using w1(2-4) by (simp add: initialize_db_inmemory_def dbInitializeInMemory_def initDb_def readDbName_def createSchema_def
        dbLock_def dbUnlock_def db0_def initializeWhenReady_def initialize_def loadPendingSentMessages_def selectPending_def)
  have "reachable env w2"
    by (rule reachable.step [OF reachable.step [OF reachable.start lib_step.init_api [OF w1(1)]] lib_step.init_memory [OF w2(1)]])
  with w2 show ?thesis by blast
qed


theorem thread_never_works_witness:
  "\<exists>w. reachable env_default w \<and> initializedApi w \<and> initializedDb w \<and> threadRound 1 env_default w = Inr w"
proof -
  obtain w where w: "reachable env_default w" "initializedApi w" "initializedDb w" using reachable_initialised by blast
  have "engine_ok (db_engine env_default)" by (simp add: env_default_def engine_default_ok)
  from thread_never_works [OF this w(1)] w show ?thesis by blast
qed

end
