(* ===== verification/Resume.thy ===== *)
theory Resume
  imports Machine
begin

section \<open>Pending messages after a restart, and sending on\<close>

text \<open>
  What happens to the messages that are not completely acknowledged: \<open>loadPendingSentMessage\<close> puts a
  stored one back into the ring, with its confirmed parts marked, or discards it; \<open>sendMore\<close> goes
  once around the ring and sends on.
\<close>

subsection \<open>Loading a pending message\<close>

definition confirmedCount :: "pending \<Rightarrow> u32" where
  "confirmedCount p = of_nat (length (filter (\<lambda>b. b \<noteq> 0) (pd_confirmed p)))"

text \<open>What is stored fits what \<open>splitMessage\<close> makes of the message now, and something is left to send.\<close>

definition resumable :: "pending \<Rightarrow> msg_outbound \<Rightarrow> bool" where
  "resumable p m \<longleftrightarrow> numParts m = pd_numParts p \<and> unat (numParts m) = length (pd_confirmed p) \<and>
     pd_numConfirmed p = confirmedCount p \<and> confirmedCount p < pd_numParts p"

definition resumed :: "pending \<Rightarrow> msg_outbound \<Rightarrow> msg_outbound" where
  "resumed p m = m\<lparr>fragments := markConfirmed (pd_confirmed p) (fragments m), numConfirmed := confirmedCount p,
     friend_number := pd_friend p, fromDb := 1\<rparr>"

lemma splitMessage_new:
  "splitMessage ever message maxLength mid = Inr m \<Longrightarrow> m_receipt m = 0 \<and> m_type m = 0 \<and> numConfirmed m = 0 \<and>
     numTransit m = 0 \<and> lastSent m = 0 \<and> m_id m = mid"
  by (auto simp: splitMessage_def newMsgOutbound_def Let_def bindR_eq_Inr split: if_splits)

lemma discard_effect:
  assumes "q_heap (w_q w) a = Some m" "unat (numParts m) \<le> length (fragments m)"
  shows "discardPending p (Some a) w = Inr (w\<lparr>w_q := (w_q w)\<lparr>q_heap := (q_heap (w_q w))(a := None)\<rparr>,
    w_db := dbClearOutboundPending (pd_friend p) (pd_id p) (w_db w)\<rparr>)"
  using assms by (simp add: discardPending_def msgOutboundDelete_def deref_def)

lemma load_discards:
  assumes "splitMessage (markerMaxSizeEver w) (pd_message p) (ucast (maxMessageLength (w_params w))) (pd_id p) = Inr m"
    and "q_heap (w_q w) (w_brk w) = None" "\<not> resumable p m"
  shows "loadPendingSentMessage p w =
    Inr (w\<lparr>w_brk := w_brk w + 1, w_db := dbClearOutboundPending (pd_friend p) (pd_id p) (w_db w)\<rparr>)"
proof -
  let ?a = "w_brk w"
  define w1 where "w1 = w\<lparr>w_q := (w_q w)\<lparr>q_heap := (q_heap (w_q w))(?a \<mapsto> m)\<rparr>, w_brk := ?a + 1\<rparr>"
  have w1: "allocMsg w m = (Some ?a, w1)" "q_heap (w_q w1) ?a = Some m" by (simp_all add: allocMsg_def w1_def)
  have frags: "length (fragments m) = unat (numParts m)" using splitMessage_frag_ok [OF assms(1)] by (simp add: frag_ok_def)
  have old: "(q_heap (w_q w1))(?a := None) = q_heap (w_q w)" using assms(2) by (auto simp: w1_def)
  show ?thesis
  proof (cases "numParts m \<noteq> pd_numParts p \<or> unat (numParts m) \<noteq> length (pd_confirmed p)")
    case True
    then have "loadPendingSentMessage p w = discardPending p (Some ?a) w1"
      by (simp add: loadPendingSentMessage_def assms(1) w1(1))
    also have "\<dots> = Inr (w1\<lparr>w_q := (w_q w1)\<lparr>q_heap := (q_heap (w_q w1))(?a := None)\<rparr>,
        w_db := dbClearOutboundPending (pd_friend p) (pd_id p) (w_db w1)\<rparr>)"
      by (rule discard_effect [OF w1(2)]) (simp add: frags)
    finally show ?thesis unfolding old by (simp add: w1_def)
  next
    case False
    let ?f = "\<lambda>m. m\<lparr>fragments := markConfirmed (pd_confirmed p) (fragments m), numConfirmed := numConfirmed m + confirmedCount p\<rparr>"
    let ?w2 = "w1\<lparr>w_q := (w_q w1)\<lparr>q_heap := (q_heap (w_q w1))(?a \<mapsto> ?f m)\<rparr>\<rparr>"
    have u: "updMsgW w1 (Some ?a) ?f = Inr ?w2" by (rule updMsgW_at [OF w1(2)])
    have "loadPendingSentMessage p w = discardPending p (Some ?a) ?w2"
      unfolding loadPendingSentMessage_def confirmedCount_def [symmetric] assms(1) bindR_Inr Let_def w1(1) prod.case
      using False assms(3) by (auto simp: resumable_def u)
    also have "\<dots> = Inr (?w2\<lparr>w_q := (w_q ?w2)\<lparr>q_heap := (q_heap (w_q ?w2))(?a := None)\<rparr>,
        w_db := dbClearOutboundPending (pd_friend p) (pd_id p) (w_db ?w2)\<rparr>)"
      by (rule discard_effect [of _ _ "?f m"]) (use False frags in simp_all)
    finally show ?thesis using old by (simp add: w1_def)
  qed
qed

lemma load_links:
  assumes split: "splitMessage (markerMaxSizeEver w) (pd_message p) (ucast (maxMessageLength (w_params w))) (pd_id p) = Inr m"
    and q: "ring (w_q w) xs" "q_heap (w_q w) (w_brk w) = None" "w_brk w \<notin> set xs" and ok: "resumable p m"
  obtains q' pv nx where
    "loadPendingSentMessage p w = Inr (w\<lparr>w_q := q', w_brk := w_brk w + 1\<rparr>)" "ring q' (linkedIn (w_brk w) xs)"
    "q_heap q' (w_brk w) = Some ((resumed p m)\<lparr>m_prev := pv, m_next := nx\<rparr>)"
    "\<And>b. b \<noteq> w_brk w \<Longrightarrow> content q' b = content (w_q w) b"
proof -
  let ?a = "w_brk w" and ?q = "w_q w"
  define w1 where "w1 = w\<lparr>w_q := ?q\<lparr>q_heap := (q_heap ?q)(?a \<mapsto> m)\<rparr>, w_brk := ?a + 1\<rparr>"
  have w1: "allocMsg w m = (Some ?a, w1)" "q_heap (w_q w1) ?a = Some m" by (simp_all add: allocMsg_def w1_def)
  let ?f = "\<lambda>m. m\<lparr>fragments := markConfirmed (pd_confirmed p) (fragments m), numConfirmed := numConfirmed m + confirmedCount p\<rparr>"
  let ?g = "\<lambda>m. m\<lparr>friend_number := pd_friend p, fromDb := 1\<rparr>"
  let ?w2 = "w1\<lparr>w_q := (w_q w1)\<lparr>q_heap := (q_heap (w_q w1))(?a \<mapsto> ?f m)\<rparr>\<rparr>"
  let ?w3 = "?w2\<lparr>w_q := (w_q ?w2)\<lparr>q_heap := (q_heap (w_q ?w2))(?a \<mapsto> ?g (?f m))\<rparr>\<rparr>"
  have u1: "updMsgW w1 (Some ?a) ?f = Inr ?w2" by (rule updMsgW_at [OF w1(2)])
  have u2: "updMsgW ?w2 (Some ?a) ?g = Inr ?w3" by (rule updMsgW_at) simp
  let ?q3 = "?q\<lparr>q_heap := (q_heap ?q)(?a \<mapsto> ?g (?f m))\<rparr>"
  have q3: "w_q ?w3 = ?q3" by (simp add: w1_def)
  have "ring ?q3 xs" using q(1) by (rule ring_frame) (use q(3) in auto)
  then obtain q' where q': "msgsOutboundLink ?q3 (Some ?a) = Inr q'" "ring q' (linkedIn ?a xs)" "content q' = content ?q3"
    by (rule ring_link [OF _ _ q(3)]) simp
  have "?g (?f m) = resumed p m" using splitMessage_new [OF split] by (simp add: resumed_def)
  then have "q_heap ?q3 ?a = Some (resumed p m)" by simp
  from content_at [OF q'(3) this] obtain pv nx where m': "q_heap q' ?a = Some ((resumed p m)\<lparr>m_prev := pv, m_next := nx\<rparr>)" .
  have "loadPendingSentMessage p w = bindR (msgsOutboundLink (w_q ?w3) (Some ?a)) (\<lambda>q. Inr (?w3\<lparr>w_q := q\<rparr>))"
    unfolding loadPendingSentMessage_def confirmedCount_def [symmetric] split bindR_Inr Let_def w1(1) prod.case
    using ok by (auto simp: resumable_def u1 u2)
  then have "loadPendingSentMessage p w = Inr (w\<lparr>w_q := q', w_brk := w_brk w + 1\<rparr>)"
    unfolding q3 q'(1) by (simp add: w1_def)
  then show thesis
    by (rule that [OF _ q'(2) m']) (use fun_cong [OF q'(3)] in \<open>simp add: content_def\<close>)
qed

subsection \<open>Restart\<close>

text \<open>The messages that are selected when only one is pending.\<close>

lemma filter_key:
  "distinct (map key rows) \<Longrightarrow> filter (\<lambda>r. key r = k) rows = (case lookupBy key rows k of None \<Rightarrow> [] | Some r \<Rightarrow> [r])"
proof (induction rows)
  case (Cons r rows)
  show ?case
  proof (cases "key r = k")
    case True
    have "key x \<noteq> k" if "x \<in> set rows" for x using imageI [OF that, of key] True Cons.prems by auto
    then have "filter (\<lambda>r. key r = k) rows = []" by (simp add: filter_empty_conv)
    then show ?thesis using True by (simp add: lookupBy_def)
  qed (use Cons in \<open>simp add: lookupBy_def\<close>)
qed (simp add: lookupBy_def)

lemma selectPending_one:
  assumes inv: "db_inv db" and k: "fst k = 1" "selMeta db k = Some m" "selData db k = Some d"
    and only: "\<And>k' m' d'. fst k' = 1 \<Longrightarrow> selMeta db k' = Some m' \<Longrightarrow> selData db k' = Some d' \<Longrightarrow> k' = k"
  shows "selectPending db = [pendingRow m d]"
proof -
  let ?metas = "filter (\<lambda>m. mt_outbound m = 1) (fragmented_meta db)"
  let ?rows = "\<lambda>m. map (pendingRow m) (filter (\<lambda>d. data_key d = meta_key m) (fragmented_data db))"
  have dist: "distinct (map meta_key (fragmented_meta db))" "distinct (map data_key (fragmented_data db))"
    using inv by (simp_all add: db_inv_def)
  have m: "m \<in> set (fragmented_meta db)" "meta_key m = k" using k(2) by (auto simp: selMeta_def dest: lookupBy_SomeD)
  then have out: "mt_outbound m = 1" using k(1) by (auto simp: meta_key_def)
  have "m \<in> set ?metas" using m(1) out by simp
  then obtain us vs where split: "?metas = us @ m # vs" by (meson split_list)
  have "distinct ?metas" using dist(1) by (simp add: distinct_map)
  then have notin: "m \<notin> set us" "m \<notin> set vs" by (simp_all add: split)
  have "?rows m' = []" if "m' \<in> set ?metas" "m' \<noteq> m" for m'
  proof (cases "selData db (meta_key m')")
    case None
    then show ?thesis using filter_key [OF dist(2), of "meta_key m'"] by (simp add: selData_def)
  next
    case (Some d')
    have m': "m' \<in> set (fragmented_meta db)" "mt_outbound m' = 1" using that(1) by simp_all
    have "selMeta db (meta_key m') = Some m'" unfolding selMeta_def by (rule lookupBy_unique [OF dist(1) m'(1)])
    moreover have "fst (meta_key m') = 1" using m'(2) by (simp add: meta_key_def)
    ultimately have "meta_key m' = k" using only Some by blast
    then have "Some m' = Some m" using k(2) \<open>selMeta db (meta_key m') = Some m'\<close> by simp
    with that(2) show ?thesis by simp
  qed
  then have none: "concat (map ?rows us) = []" "concat (map ?rows vs) = []"
    using notin by (auto simp: split concat_eq_Nil_conv)
  have "?rows m = [pendingRow m d]" using filter_key [OF dist(2), of k] k(3) m(2) by (simp add: selData_def)
  then show ?thesis
    unfolding selectPending_def split by (simp only: map_append concat_append list.map concat.simps none append_Nil append_Nil2)
qed

lemma confirmed_card:
  assumes "\<forall>(partNo, t)\<in>set cs. 1 \<le> unat (partNo :: u32) \<and> unat partNo \<le> n" "distinct (map fst cs)"
  shows "length (filter (\<lambda>b. b \<noteq> 0) (map (\<lambda>i. if i + 1 \<in> unat ` fst ` set cs then 1 else (0 :: byte)) [0..<n])) = length cs"
proof -
  let ?S = "unat ` fst ` set cs"
  let ?A = "{i. i < n \<and> i + 1 \<in> ?S}"
  have "length (filter (\<lambda>b. b \<noteq> 0) (map (\<lambda>i. if i + 1 \<in> ?S then 1 else (0 :: byte)) [0..<n])) =
      length (filter (\<lambda>i. i + 1 \<in> ?S) [0..<n])" by (simp add: filter_map o_def)
  also have "\<dots> = card ?A"
    by (subst distinct_card [symmetric]) (simp_all add: conj_commute)
  finally have len: "length (filter (\<lambda>b. b \<noteq> 0) (map (\<lambda>i. if i + 1 \<in> ?S then 1 else (0 :: byte)) [0..<n])) = card ?A" .
  have "Suc ` ?A = ?S"
  proof
    show "?S \<subseteq> Suc ` ?A"
    proof
      fix x assume x: "x \<in> ?S"
      then have "1 \<le> x" "x \<le> n" using assms(1) by auto
      then have "x = Suc (x - 1)" "x - 1 < n" by simp_all
      with x show "x \<in> Suc ` ?A" by (intro image_eqI [of _ _ "x - 1"]) simp_all
    qed
    show "Suc ` ?A \<subseteq> ?S" by (rule image_subsetI) simp
  qed
  then have "card ?A = card ?S" using card_image [of Suc ?A] by simp
  moreover have "card ?S = card (fst ` set cs)" by (rule card_image) (simp add: inj_on_def word_unat_eq_iff)
  moreover have "card (fst ` set cs) = length cs" using distinct_card [OF assms(2)] by simp
  ultimately show ?thesis using len by simp
qed

lemma restart_load:
  assumes "ring (w_q w) []" "q_heap (w_q w) (w_brk w) = None" "selectPending (w_db w) = [p]"
    "splitMessage (markerMaxSizeEver w) (pd_message p) (ucast (maxMessageLength (w_params w))) (pd_id p) = Inr m" "resumable p m"
  obtains w' pv nx where "initialize w = Inr w'" "ring (w_q w') [w_brk w]" "w_db w' = w_db w" "w_trace w' = w_trace w"
    "q_heap (w_q w') (w_brk w) = Some ((resumed p m)\<lparr>m_prev := pv, m_next := nx\<rparr>)" "w_rt w' = receiptsInitialize"
    "w_params w' = w_params w"
proof -
  let ?w = "w\<lparr>w_rt := receiptsInitialize, lastReceipt := receiptRangeLo (w_params w)\<rparr>"
  let ?wl = "?w\<lparr>w_db := dbLock (w_db w)\<rparr>"
  obtain q' pv nx where l: "loadPendingSentMessage p ?wl = Inr (?wl\<lparr>w_q := q', w_brk := w_brk ?wl + 1\<rparr>)"
    "ring q' (linkedIn (w_brk ?wl) [])" "q_heap q' (w_brk ?wl) = Some ((resumed p m)\<lparr>m_prev := pv, m_next := nx\<rparr>)"
    by (rule load_links [of ?wl p m "[]"]) (use assms in simp_all)
  have "loadPendingSentMessages ?w = Inr (?w\<lparr>w_q := q', w_brk := w_brk w + 1\<rparr>)"
    using l(1) assms(3) by (simp add: loadPendingSentMessages_def)
  then have "initialize w = Inr (?w\<lparr>w_q := q', w_brk := w_brk w + 1, markerMaxSizeEver := markerMaxSizeEverValue\<rparr>)"
    by (simp add: initialize_def)
  then show thesis by (rule that) (use l(2,3) in \<open>simp_all add: linkedIn_def\<close>)
qed

text \<open>What the loaded message is, and what the rest of the state.\<close>

definition restored :: "world \<Rightarrow> world \<Rightarrow> u32 \<Rightarrow> u64 \<Rightarrow> msg_outbound \<Rightarrow> (u32 \<times> u64) list \<Rightarrow> msg_outbound \<Rightarrow> bool" where
  "restored w w' friend mid m cs m' \<longleftrightarrow> q_heap (w_q w') (w_brk w) = Some m' \<and> friend_number m' = friend \<and> m_id m' = mid \<and>
     numParts m' = numParts m \<and> numConfirmed m' = of_nat (length cs) \<and> length (fragments m') = unat (numParts m) \<and>
     (\<forall>i<unat (numParts m). let c = i + 1 \<in> unat ` fst ` set cs in
        f_confirmed (fragments m' ! i) = (if c then 1 else 0) \<and>
        f_data (fragments m' ! i) = (if c then None else f_data (fragments m ! i))) \<and>
     m_receipt m' = 0 \<and> m_type m' = 0 \<and> lastSent m' = 0 \<and> numTransit m' = 0"

lemma restart_restores:
  assumes "engine_ok e" "db_inv db" "selectPending db = []" "unat parts < 2 ^ 31"
    "dbInsertOutboundMessage e friend type mid tm parts bytes receipt db = Inr db1"
    "\<forall>(partNo, t)\<in>set cs. 1 \<le> unat partNo \<and> unat partNo \<le> unat parts" "distinct (map fst cs)" "length cs < unat parts"
    "confirmParts friend mid cs db1 = Inr (w_db w)"
    "ring (w_q w) []" "q_heap (w_q w) (w_brk w) = None"
    "splitMessage (markerMaxSizeEver w) bytes (ucast (maxMessageLength (w_params w))) mid = Inr m" "numParts m = parts"
  obtains w' m' where "initialize w = Inr w'" "ring (w_q w') [w_brk w]" "w_db w' = w_db w" "w_trace w' = w_trace w"
    "w_rt w' = receiptsInitialize" "w_params w' = w_params w" "restored w w' friend mid m cs m'"
proof -
  let ?k = "key_of 1 friend mid" and ?bits = "map (\<lambda>i. if i + 1 \<in> unat ` fst ` set cs then 1 else (0 :: byte)) [0..<unat parts]"
  obtain db2 mt d where c: "confirmParts friend mid cs db1 = Inr db2" and r: "db_inv db2" "selMeta db ?k = None"
    "selMeta db2 = (selMeta db)(?k \<mapsto> mt)" "selData db2 = (selData db)(?k \<mapsto> d)"
    "pendingRow mt d = \<lparr>pd_friend = friend, pd_type = type, pd_id = mid, pd_tm1 = tm,
        pd_tm2 = word_of_int (timestamp_last mt), pd_numConfirmed = of_nat (length cs), pd_numParts = parts,
        pd_message = bytes, pd_confirmed = ?bits, pd_receipt = sint receipt\<rparr>"
    by (rule insert_confirm_effect [OF assms(1,2,4,5,6)])
  have db2: "db2 = w_db w" using c assms(9) by simp
  let ?p = "pendingRow mt d"
  have only: "k' = ?k" if k': "fst k' = 1" "selMeta db2 k' = Some m'" "selData db2 k' = Some d'" for k' m' d'
  proof (rule ccontr)
    assume "k' \<noteq> ?k"
    then have "selMeta db k' = Some m'" "selData db k' = Some d'" using k'(2,3) r(3,4) by simp_all
    with k'(1) have "pendingRow m' d' \<in> set (selectPending db)" unfolding selectPending_set [OF assms(2)] by blast
    with assms(3) show False by simp
  qed
  have "selectPending db2 = [?p]"
    by (rule selectPending_one [OF r(1) _ _ _ only]) (simp_all add: r(3,4) key_of_def)
  then have sel: "selectPending (w_db w) = [?p]" by (simp add: db2)
  have count: "confirmedCount ?p = of_nat (length cs)"
    using confirmed_card [OF assms(6,7)] by (simp only: confirmedCount_def r(5) pending.simps)
  have "(of_nat (length cs) :: u32) < parts"
    using assms(4,8) by (simp add: word_less_nat_alt unat_of_nat_u32)
  then have res: "resumable ?p m" using assms(13) by (simp add: resumable_def count) (simp add: r(5))
  have split: "splitMessage (markerMaxSizeEver w) (pd_message ?p) (ucast (maxMessageLength (w_params w))) (pd_id ?p) = Inr m"
    using assms(12) by (simp add: r(5))
  obtain w' pv nx where w': "initialize w = Inr w'" "ring (w_q w') [w_brk w]" "w_db w' = w_db w" "w_trace w' = w_trace w"
    "q_heap (w_q w') (w_brk w) = Some ((resumed ?p m)\<lparr>m_prev := pv, m_next := nx\<rparr>)" "w_rt w' = receiptsInitialize"
    "w_params w' = w_params w"
    by (rule restart_load [OF assms(10,11) sel split res])
  have len: "length (fragments m) = unat parts" using splitMessage_frag_ok [OF assms(12)] assms(13) by (simp add: frag_ok_def)
  have frag: "\<forall>i<unat parts. f_confirmed (markConfirmed ?bits (fragments m) ! i) = (if i + 1 \<in> unat ` fst ` set cs then 1 else 0) \<and>
      f_data (markConfirmed ?bits (fragments m) ! i) = (if i + 1 \<in> unat ` fst ` set cs then None else f_data (fragments m ! i))"
    using len by (simp add: markConfirmed_def)
  let ?m' = "(resumed ?p m)\<lparr>m_prev := pv, m_next := nx\<rparr>"
  have "fragments ?m' = markConfirmed ?bits (fragments m)" "friend_number ?m' = friend" "numConfirmed ?m' = of_nat (length cs)"
    "numParts ?m' = parts" "m_id ?m' = mid" "m_receipt ?m' = 0" "m_type ?m' = 0"
    "lastSent ?m' = 0" "numTransit ?m' = 0"
    using splitMessage_new [OF assms(12)] assms(13) by (simp_all add: resumed_def count) (simp_all add: r(5))
  moreover have "length (markConfirmed ?bits (fragments m)) = unat parts" by (simp add: len)
  ultimately have "restored w w' friend mid m cs ?m'"
    unfolding restored_def using w'(5) frag by (simp only: Let_def simp_thms assms(13))
  then show thesis using that w'(1-4,6,7) by blast
qed

text \<open>C15. Over a restart, a pending message survives, but not all of it.  A message was stored, some of its
  parts, not all, were confirmed, and no other message is pending.  Splitting it again with the
  parameters and with the \<open>markerMaxSizeEver\<close> of the new process, which is 0 at a real start and not
  the 63 of the process that stored it, returns and gives as many parts as were stored.  Then
  \<open>initialize\<close> returns and the message is the only one in the ring, with its friend and id, its
  confirmed parts marked and their data freed, and the other fragments those of the new splitting; but
  its receipt number is 0 and its type normal, whatever they were.  (Without the second condition the
  message is discarded, or the splitting overruns its buffer.)\<close>

theorem restart_resumes:
  assumes "engine_ok e" "db_inv db" "selectPending db = []" "unat parts < 2 ^ 31"
    "dbInsertOutboundMessage e friend type mid tm parts bytes receipt db = Inr db1"
    "\<forall>(partNo, t)\<in>set cs. 1 \<le> unat partNo \<and> unat partNo \<le> unat parts" "distinct (map fst cs)" "length cs < unat parts"
    "confirmParts friend mid cs db1 = Inr (w_db w)"
    "ring (w_q w) []" "q_heap (w_q w) (w_brk w) = None"
    "splitMessage (markerMaxSizeEver w) bytes (ucast (maxMessageLength (w_params w))) mid = Inr m" "numParts m = parts"
  shows "\<exists>w' m'. initialize w = Inr w' \<and> ring (w_q w') [w_brk w] \<and> w_db w' = w_db w \<and> w_trace w' = w_trace w \<and>
    q_heap (w_q w') (w_brk w) = Some m' \<and> friend_number m' = friend \<and> m_id m' = mid \<and> numParts m' = parts \<and>
    numConfirmed m' = of_nat (length cs) \<and> length (fragments m') = unat parts \<and>
    (\<forall>i<unat parts. let c = i + 1 \<in> unat ` fst ` set cs in
       f_confirmed (fragments m' ! i) = (if c then 1 else 0) \<and>
       f_data (fragments m' ! i) = (if c then None else f_data (fragments m ! i))) \<and>
    m_receipt m' = 0 \<and> m_type m' = 0"
proof -
  obtain w' m' where "initialize w = Inr w'" "ring (w_q w') [w_brk w]" "w_db w' = w_db w" "w_trace w' = w_trace w"
    "restored w w' friend mid m cs m'"
    by (rule restart_restores [OF assms])
  then show ?thesis
    unfolding restored_def assms(13) by - (elim conjE, intro exI [of _ w'] exI [of _ m'] conjI, assumption+)
qed

text \<open>A message of 60 bytes in two parts, of which the second has been confirmed.\<close>

lemma split_60: "\<exists>m. splitMessage 0 (replicate 60 0x61) 75 1500000000000 = Inr m \<and> numParts m = 2"
  by (simp add: splitMessage_def splitMaxMarker_def markerMaxSizeBytes_def numDigits_def numDigitsLoop.simps Let_def
      splitLoop.simps length_markerPrint newMsgOutbound_def) (simp add: decDigits.simps)

lemma split_60_data: "splitMessage 0 (replicate 60 0x61) 75 1500000000000 = Inr m \<Longrightarrow> f_data (fragments m ! 0) \<noteq> None"
  by (simp add: splitMessage_def splitMaxMarker_def markerMaxSizeBytes_def numDigits_def numDigitsLoop.simps Let_def
      splitLoop.simps length_markerPrint newMsgOutbound_def bindR_eq_Inr split: if_splits) (auto simp: newFragment_def)

lemma restarted_60:
  obtains w :: world and m db1 where "w_trace w = []" "w_params w = params_default\<lparr>maxMessageLength := 75\<rparr>"
    "dbInsertOutboundMessage engine_default 7 0 1500000000000 5 2 (replicate 60 0x61) 9 db0 = Inr db1"
    "confirmParts 7 1500000000000 [(2, 6)] db1 = Inr (w_db w)" "ring (w_q w) []" "q_heap (w_q w) (w_brk w) = None"
    "splitMessage (markerMaxSizeEver w) (replicate 60 0x61) (ucast (maxMessageLength (w_params w))) 1500000000000 = Inr m"
    "numParts m = 2" "markerMaxSizeEver w = 0"
proof -
  let ?b = "replicate 60 0x61 :: byte list" and ?p = "params_default\<lparr>maxMessageLength := 75\<rparr>"
  have cs: "\<forall>(partNo, t)\<in>set [(2 :: u32, 6 :: u64)]. 1 \<le> unat partNo \<and> unat partNo \<le> unat (2 :: u32)" by simp
  obtain db1 where db1: "dbInsertOutboundMessage engine_default 7 0 1500000000000 5 2 ?b 9 db0 = Inr db1"
    by (simp add: dbInsertOutboundMessage_def db0_inv data_needs_meta [OF db0_inv(1)] sint_small
        engine_default_def selData_def db0_def lookupBy_def selMeta_def Let_def)
  obtain db2 where db2: "confirmParts 7 1500000000000 [(2, 6)] db1 = Inr db2"
    by (rule insert_confirm_effect [OF engine_default_ok db0_inv(1) _ db1 cs]) simp_all
  obtain m where m: "splitMessage 0 ?b 75 1500000000000 = Inr m" "numParts m = 2" using split_60 by blast
  let ?w = "world0\<lparr>w_params := ?p, w_db := db2\<rparr>"
  show thesis by (rule that [of ?w db1 m]) (use db1 db2 m in \<open>simp_all add: world0_def ring_def cyc_def\<close>)
qed

theorem restart_resumes_witness:
  "\<exists>w w' m'. markerMaxSizeEver w = 0 \<and> initialize w = Inr w' \<and> ring (w_q w') [w_brk w] \<and> q_heap (w_q w') (w_brk w) = Some m' \<and>
    friend_number m' = 7 \<and> numConfirmed m' = 1 \<and> f_data (fragments m' ! 0) \<noteq> None \<and> f_data (fragments m' ! 1) = None \<and>
    m_receipt m' = 0"
proof -
  obtain w :: world and m db1 where w: "w_trace w = []" "w_params w = params_default\<lparr>maxMessageLength := 75\<rparr>"
    "dbInsertOutboundMessage engine_default 7 0 1500000000000 5 2 (replicate 60 0x61) 9 db0 = Inr db1"
    "confirmParts 7 1500000000000 [(2, 6)] db1 = Inr (w_db w)" "ring (w_q w) []" "q_heap (w_q w) (w_brk w) = None"
    "splitMessage (markerMaxSizeEver w) (replicate 60 0x61) (ucast (maxMessageLength (w_params w))) 1500000000000 = Inr m"
    "numParts m = 2" "markerMaxSizeEver w = 0" by (rule restarted_60)
  have none: "selectPending db0 = []" by (simp add: selectPending_def db0_def)
  obtain w' m' where w': "initialize w = Inr w'" "ring (w_q w') [w_brk w]" "q_heap (w_q w') (w_brk w) = Some m'"
    "friend_number m' = 7" "numConfirmed m' = of_nat (length [(2 :: u32, 6 :: u64)])" "m_receipt m' = 0"
    "\<forall>i<unat (2 :: u32). let c = i + 1 \<in> unat ` fst ` set [(2 :: u32, 6 :: u64)] in
       f_confirmed (fragments m' ! i) = (if c then 1 else 0) \<and> f_data (fragments m' ! i) = (if c then None else f_data (fragments m ! i))"
  proof -
    have "unat (2 :: u32) < 2 ^ 31" "\<forall>(partNo, t)\<in>set [(2 :: u32, 6 :: u64)]. 1 \<le> unat partNo \<and> unat partNo \<le> unat (2 :: u32)"
      "distinct (map fst [(2 :: u32, 6 :: u64)])" "length [(2 :: u32, 6 :: u64)] < unat (2 :: u32)" by simp_all
    from restart_resumes [OF engine_default_ok db0_inv(1) none this(1) w(3) this(2-4) w(4-8)] show thesis
      by (elim exE conjE) (rule that; assumption)
  qed
  have "f_data (fragments m ! 0) \<noteq> None" using w(2,7,9) split_60_data by simp
  then show ?thesis using w' w(9) by (intro exI [of _ w] exI [of _ w'] exI [of _ m']) (simp add: Let_def)
qed

lemma sendPass_first:
  assumes "sendPass env w p (i # is) = Inr w2" "derefW w p = Inr m" "numTransit m < fragmentsAtATime (w_params w)"
    "msgSendPart env w p i = Inr (ok, w1)"
  shows "evolves env w1 w2"
proof -
  obtain w3 where w3: "(if ok then updMsgW w1 p (\<lambda>m. m\<lparr>lastSent := of_nat i\<rparr>) else Inr w1) = Inr w3"
    "sendPass env w3 p is = Inr w2"
    using assms by (auto simp: bindR_eq_Inr)
  have "evolves env w1 w3"
  proof (cases ok)
    case True
    then have "updMsgW w1 p (\<lambda>m. m\<lparr>lastSent := of_nat i\<rparr>) = Inr w3" using w3(1) by simp
    then show ?thesis by (rule evolves_updMsgW) (simp add: frag_ok_def)
  next
    case False
    then show ?thesis using w3(1) by (simp add: evolves_refl)
  qed
  then show ?thesis using evolves_sendPass [OF w3(2)] by (rule evolves_trans)
qed

text \<open>The first thing that \<open>msgSendNextParts\<close> does with a message of which no part is in transit: it sends part 1.\<close>

lemma sends_second_part:
  assumes "tox_receipts_ok env n" "rt_ok env (friend_number m) w" "q_heap (w_q w) a = Some m" "msg_sane m"
    "sentNum w + 2 * unat (numParts m) \<le> n"
    "lastSent m = 0" "1 < unat (numParts m)" "f_data (fragments m ! 1) = None" "numTransit m < fragmentsAtATime (w_params w)"
  shows "\<exists>w' m' r evs. msgSendNextParts env w (Some a) = Inr w' \<and> q_heap (w_q w') a = Some m' \<and> m_next m' = m_next m \<and>
    msgsOutbound (w_q w') = msgsOutbound (w_q w) \<and>
    w_trace w' = w_trace w @ ToxSend (friend_number m) (m_type m) None r # evs"
proof -
  obtain w' m' new where w': "msgSendNextParts env w (Some a) = Inr w'" "sent_parts env a UNIV m w m' w' new"
    by (rule msgSendNextParts_effect [OF assms(1-5)])
  obtain fs ls where "m' = m\<lparr>fragments := fs, lastSent := ls, numTransit := numTransit m + of_nat (length new)\<rparr>"
    using w'(2) unfolding sent_parts_def by blast
  then have keep: "q_heap (w_q w') a = Some m'" "m_next m' = m_next m" "msgsOutbound (w_q w') = msgsOutbound (w_q w)"
    using sent_parts_world(1,2) [OF w'(2)] by simp_all
  have parts: "[unat (lastSent m + 1)..<unat (numParts m)] = 1 # [2..<unat (numParts m)]"
    using assms(6,7) by (simp add: upt_conv_Cons numeral_2_eq_2)
  have i: "1 < length (fragments m)" using assms(4,7) by (simp add: msg_sane_def)
  have room: "sentNum w < n" using assms(5,7) by simp
  obtain ok w1 where s: "msgSendPart env w (Some a) 1 = Inr (ok, w1)"
    "\<exists>r evs. w_trace w1 = w_trace w @ ToxSend (friend_number m) (m_type m) None r # evs"
    using msgSendPart_run [OF assms(1) room assms(2,3) i] assms(8)
    by (cases "tx_send env (w_trace w) (friend_number m) (m_type m) None = 0") auto
  obtain w2 and m2 :: msg_outbound where p: "sendPass env w (Some a) [unat (lastSent m + 1)..<unat (numParts m)] = Inr w2"
    "retryPass env w2 (Some a) [0..<unat (numParts m2)] = Inr w'"
    using w'(1) by (auto simp: msgSendNextParts_def derefW_at [OF assms(3)] bindR_eq_Inr)
  have "evolves env w1 w2"
    using p(1) unfolding parts by (rule sendPass_first [OF _ derefW_at [OF assms(3)] assms(9) s(1)])
  moreover have "evolves env w2 w'" using p(2) by (rule evolves_retryPass)
  ultimately have "\<exists>evs. w_trace w' = w_trace w1 @ evs" by (auto simp: evolves_def)
  then show ?thesis using s(2) w'(1) keep by auto
qed



subsection \<open>Sending on\<close>

text \<open>Whom \<open>isFriendOnline\<close> has been asked about.\<close>

fun statusOf :: "event list \<Rightarrow> u32 list" where
  "statusOf [] = []"
| "statusOf (ToxStatus friend on # tr) = friend # statusOf tr"
| "statusOf (ev # tr) = statusOf tr"

lemma statusOf_append [simp]: "statusOf (tr @ tr') = statusOf tr @ statusOf tr'"
  by (induction tr rule: statusOf.induct) simp_all

lemma updMsgW_trace: "updMsgW w p f = Inr w' \<Longrightarrow> w_trace w' = w_trace w"
  by (auto simp: updMsgW_def bindR_eq_Inr)

lemma status_msgSendPart: "msgSendPart env w p i = Inr (ok, w') \<Longrightarrow> statusOf (w_trace w') = statusOf (w_trace w)"
  by (auto simp: msgSendPart_def outside_defs bindR_eq_Inr dest!: updMsgW_trace split: if_splits)

lemma status_sendPass: "sendPass env w p is = Inr w' \<Longrightarrow> statusOf (w_trace w') = statusOf (w_trace w)"
proof (induction "is" arbitrary: w)
  case (Cons i "is")
  then show ?case
    by (auto simp: bindR_eq_Inr dest!: status_msgSendPart updMsgW_trace Cons.IH split: if_splits)
qed simp

lemma status_retryPass: "retryPass env w p is = Inr w' \<Longrightarrow> statusOf (w_trace w') = statusOf (w_trace w)"
proof (induction "is" arbitrary: w)
  case (Cons i "is")
  then show ?case
    by (auto simp: bindR_eq_Inr dest!: status_msgSendPart Cons.IH split: if_splits)
qed simp

lemma status_msgSendNextParts: "msgSendNextParts env w p = Inr w' \<Longrightarrow> statusOf (w_trace w') = statusOf (w_trace w)"
  by (auto simp: msgSendNextParts_def bindR_eq_Inr dest!: status_sendPass status_retryPass)

definition friendAt :: "world \<Rightarrow> addr \<Rightarrow> u32" where
  "friendAt w a = (case q_heap (w_q w) a of None \<Rightarrow> 0 | Some m \<Rightarrow> friend_number m)"

text \<open>What a visit may do to the message at \<open>a\<close>: send parts of it, within the window.\<close>

definition visited :: "world \<Rightarrow> world \<Rightarrow> addr \<Rightarrow> bool" where
  "visited w w' a \<longleftrightarrow> (\<exists>m m' n. q_heap (w_q w) a = Some m \<and> q_heap (w_q w') a = Some m' \<and>
     (\<exists>fs ls nt. m' = m\<lparr>fragments := fs, lastSent := ls, numTransit := nt\<rparr>) \<and>
     map f_data (fragments m') = map f_data (fragments m) \<and> window_ok m m' (fragmentsAtATime (w_params w)) n)"

lemma rt_ok_status: "rt_ok env friend w \<Longrightarrow> rt_ok env friend (emit (ToxStatus f on) w)"
  by (erule rt_ok_trace [where evs = "[ToxStatus f on]"]) auto

text \<open>
  The receipts in the table are those of one \<open>friend\<close>, so a message to someone else must not be sent: its
  friend is not online.  A visit makes at most two attempts for each part of the message.
\<close>

definition quiet :: "env \<Rightarrow> u32 \<Rightarrow> u32 \<Rightarrow> bool" where
  "quiet env friend other \<longleftrightarrow> other = friend \<or> (\<forall>tr. \<not> tx_online env tr other)"

definition attemptsAt :: "world \<Rightarrow> addr \<Rightarrow> nat" where
  "attemptsAt w a = (case q_heap (w_q w) a of None \<Rightarrow> 0 | Some m \<Rightarrow> 2 * unat (numParts m))"

text \<open>One visit.\<close>

lemma visit:
  assumes env: "tox_receipts_ok env n" "quiet env friend (friend_number m)" "sentNum w + attemptsAt w a \<le> n"
    and w: "rt_ok env friend w" "ring (w_q w) xs" "heap_sane (w_q w)" "q_heap (w_q w) a = Some m"
    and on: "isFriendOnline env w (friend_number m) = (on, w1)"
  obtains w2 m2 where "(if on then msgSendNextParts env w1 (Some a) else Inr w1) = Inr w2" "q_heap (w_q w2) a = Some m2"
    "m_next m2 = m_next m" "visited w w2 a" "\<And>b. b \<noteq> a \<Longrightarrow> q_heap (w_q w2) b = q_heap (w_q w) b"
    "rt_ok env friend w2" "ring (w_q w2) xs" "heap_sane (w_q w2)" "w_params w2 = w_params w" "msgsOutbound (w_q w2) = msgsOutbound (w_q w)"
    "statusOf (w_trace w2) = statusOf (w_trace w) @ [friend_number m]" "sentNum w2 \<le> sentNum w + attemptsAt w a"
proof -
  have w1: "w1 = emit (ToxStatus (friend_number m) on) w" "on = tx_online env (w_trace w) (friend_number m)"
    using on by (auto simp: isFriendOnline_def Let_def)
  have ok1: "rt_ok env friend w1" "q_heap (w_q w1) a = Some m" using rt_ok_status [OF w(1)] w(4) by (simp_all add: w1(1))
  have sane: "msg_sane m" using w(3,4) by (auto simp: heap_sane_def ran_def)
  show thesis
  proof (cases on)
    case False
    have "visited w w1 a"
    proof -
      have "m = m\<lparr>fragments := fragments m, lastSent := lastSent m, numTransit := numTransit m\<rparr>" by simp
      then have "\<exists>fs ls nt. m = m\<lparr>fragments := fs, lastSent := ls, numTransit := nt\<rparr>" by blast
      then show ?thesis using w(4) unfolding visited_def by (intro exI [of _ m] exI [of _ "0 :: nat"]) (simp add: w1(1))
    qed
    then show ?thesis using w ok1(1) False by (intro that [of w1 m]) (simp_all add: w1(1))
  next
    case True
    then have same: "friend_number m = friend" using env(2) w1(2) by (auto simp: quiet_def)
    have room: "sentNum w1 + 2 * unat (numParts m) \<le> n" using env(3) w(4) by (simp add: w1(1) attemptsAt_def)
    obtain w2 m2 new where r: "msgSendNextParts env w1 (Some a) = Inr w2" "sent_parts env a UNIV m w1 m2 w2 new"
      "window_ok m m2 (fragmentsAtATime (w_params w1)) (length new)" "msg_sane m2" "sentNum w2 \<le> sentNum w1 + 2 * unat (numParts m)"
      by (rule msgSendNextParts_effect [OF env(1) _ ok1(2) sane room]) (use ok1(1) same in simp)
    note g = sent_parts_world [OF r(2)]
    obtain fs ls where m2: "m2 = m\<lparr>fragments := fs, lastSent := ls, numTransit := numTransit m + of_nat (length new)\<rparr>"
      "map f_data (fragments m2) = map f_data (fragments m)" using r(2) unfolding sent_parts_def by blast
    have q2: "w_q w2 = (w_q w)\<lparr>q_heap := (q_heap (w_q w))(a \<mapsto> m2)\<rparr>" using g(1,2) by (simp add: w1(1))
    have "visited w w2 a"
      unfolding visited_def using w(4) g(1) m2 r(3) by (intro exI [of _ m] exI [of _ m2] exI [of _ "length new"]) (auto simp: w1(1))
    moreover have "ring (w_q w2) xs" unfolding q2 by (rule ring_upd [OF w(2,4)]) (simp_all add: m2(1))
    moreover have "heap_sane (w_q w2)" unfolding q2 using w(3) r(4) by (rule heap_sane_upd)
    moreover have "statusOf (w_trace w2) = statusOf (w_trace w) @ [friend_number m]"
      using status_msgSendNextParts [OF r(1)] by (simp add: w1(1))
    moreover have "sentNum w2 \<le> sentNum w + attemptsAt w a" using r(5) w(4) by (simp add: w1(1) attemptsAt_def)
    ultimately show ?thesis using True r(1) g(2,3,7) q2 m2(1) same by (intro that [of w2 m2]) (simp_all add: w1(1))
  qed
qed

lemma visited_frame:
  assumes "visited w1 w2 a" "q_heap (w_q w) a = q_heap (w_q w1) a" "w_params w = w_params w1"
    "q_heap (w_q w') a = q_heap (w_q w2) a"
  shows "visited w w' a"
  using assms by (simp add: visited_def)

lemma sendMoreLoop_runs:
  assumes env: "tox_receipts_ok env n"
  shows "rt_ok env friend w \<Longrightarrow> ring (w_q w) (pre @ z # zs) \<Longrightarrow> heap_sane (w_q w) \<Longrightarrow> length (z # zs) \<le> fuel \<Longrightarrow>
    \<forall>a\<in>set (z # zs). quiet env friend (friendAt w a) \<Longrightarrow> sentNum w + sum_list (map (attemptsAt w) (z # zs)) \<le> n \<Longrightarrow>
    \<exists>w'. sendMoreLoop fuel env (Some z) w = Inr w' \<and> rt_ok env friend w' \<and> ring (w_q w') (pre @ z # zs) \<and> heap_sane (w_q w') \<and>
      statusOf (w_trace w') = statusOf (w_trace w) @ map (friendAt w) (z # zs) \<and>
      (\<forall>b\<in>set (z # zs). visited w w' b) \<and> (\<forall>b. b \<notin> set (z # zs) \<longrightarrow> q_heap (w_q w') b = q_heap (w_q w) b)"
proof (induction zs arbitrary: w pre z fuel)
  case (Nil w pre z)
  obtain f where f: "fuel = Suc f" using Nil.prems(4) by (cases fuel) simp_all
  obtain m where m: "q_heap (w_q w) z = Some m" using ring_alloc [OF Nil.prems(2), of z] by auto
  have q: "quiet env friend (friend_number m)" "sentNum w + attemptsAt w z \<le> n" using Nil.prems(5,6) m by (simp_all add: friendAt_def)
  obtain on w1 where on: "isFriendOnline env w (friend_number m) = (on, w1)" by (cases "isFriendOnline env w (friend_number m)")
  obtain w2 :: world and m2 :: msg_outbound where v: "(if on then msgSendNextParts env w1 (Some z) else Inr w1) = Inr w2" "q_heap (w_q w2) z = Some m2"
    "m_next m2 = m_next m" "visited w w2 z" "\<And>b. b \<noteq> z \<Longrightarrow> q_heap (w_q w2) b = q_heap (w_q w) b"
    "rt_ok env friend w2" "ring (w_q w2) (pre @ [z])" "heap_sane (w_q w2)" "w_params w2 = w_params w" "msgsOutbound (w_q w2) = msgsOutbound (w_q w)"
    "statusOf (w_trace w2) = statusOf (w_trace w) @ [friend_number m]" "sentNum w2 \<le> sentNum w + attemptsAt w z"
    by (rule visit [OF env q(1,2) Nil.prems(1-3) m on], rule that, assumption+)
  have "m_next m2 = msgsOutbound (w_q w2)"
    using ring_next [OF Nil.prems(2)] Nil.prems(2) m v(3,10) by (cases pre) (simp_all add: nx_def ring_def)
  then have "sendMoreLoop fuel env (Some z) w = Inr w2"
    using v(1) by (simp add: f derefW_at [OF m] on derefW_at [OF v(2)])
  then show ?case using v(4-8,11) m by (intro exI [of _ w2]) (simp add: friendAt_def)
next
  case (Cons y ys w pre z)
  obtain f where f: "fuel = Suc f" "length (y # ys) \<le> f" using Cons.prems(4) by (cases fuel) simp_all
  obtain m where m: "q_heap (w_q w) z = Some m" using ring_alloc [OF Cons.prems(2), of z] by auto
  have q: "quiet env friend (friend_number m)" "sentNum w + attemptsAt w z \<le> n" using Cons.prems(5,6) m by (simp_all add: friendAt_def)
  obtain on w1 where on: "isFriendOnline env w (friend_number m) = (on, w1)" by (cases "isFriendOnline env w (friend_number m)")
  obtain w2 :: world and m2 :: msg_outbound where v: "(if on then msgSendNextParts env w1 (Some z) else Inr w1) = Inr w2" "q_heap (w_q w2) z = Some m2"
    "m_next m2 = m_next m" "visited w w2 z" "\<And>b. b \<noteq> z \<Longrightarrow> q_heap (w_q w2) b = q_heap (w_q w) b"
    "rt_ok env friend w2" "ring (w_q w2) (pre @ z # y # ys)" "heap_sane (w_q w2)" "w_params w2 = w_params w" "msgsOutbound (w_q w2) = msgsOutbound (w_q w)"
    "statusOf (w_trace w2) = statusOf (w_trace w) @ [friend_number m]" "sentNum w2 \<le> sentNum w + attemptsAt w z"
    by (rule visit [OF env q(1,2) Cons.prems(1-3) m on], rule that, assumption+)
  have dist: "z \<notin> set (y # ys)" "hd (pre @ [z]) \<noteq> y" using Cons.prems(2) by (cases pre; auto simp: ring_def)+
  have "m_next m2 = Some y" using ring_next [OF Cons.prems(2)] m v(3) by (simp add: nx_def)
  moreover have "msgsOutbound (w_q w2) \<noteq> Some y" using Cons.prems(2) v(10) dist(2) by (cases pre) (simp_all add: ring_def)
  ultimately have go: "sendMoreLoop fuel env (Some z) w = sendMoreLoop f env (Some y) w2"
    using v(1) by (simp add: f(1) derefW_at [OF m] on derefW_at [OF v(2)])
  have keep: "q_heap (w_q w2) b = q_heap (w_q w) b" if "b \<in> set (y # ys)" for b using that dist(1) by (intro v(5)) blast
  then have maps: "map (friendAt w2) (y # ys) = map (friendAt w) (y # ys)" "map (attemptsAt w2) (y # ys) = map (attemptsAt w) (y # ys)"
    by (intro map_cong refl; simp add: friendAt_def attemptsAt_def)+
  have same: "friendAt w2 b = friendAt w b" if "b \<in> set (y # ys)" for b using keep [OF that] by (simp add: friendAt_def)
  have more: "\<forall>a\<in>set (y # ys). quiet env friend (friendAt w2 a)" "sentNum w2 + sum_list (map (attemptsAt w2) (y # ys)) \<le> n"
    using Cons.prems(5,6) v(12) same unfolding maps(2) by simp_all
  have "ring (w_q w2) ((pre @ [z]) @ y # ys)" using v(7) by simp
  from Cons.IH [OF v(6) this v(8) f(2) more] obtain w' where w': "sendMoreLoop f env (Some y) w2 = Inr w'" "rt_ok env friend w'"
    "ring (w_q w') (pre @ z # y # ys)" "heap_sane (w_q w')" "statusOf (w_trace w') = statusOf (w_trace w2) @ map (friendAt w2) (y # ys)"
    "\<forall>b\<in>set (y # ys). visited w2 w' b" "\<forall>b. b \<notin> set (y # ys) \<longrightarrow> q_heap (w_q w') b = q_heap (w_q w2) b" by auto
  have "friendAt w z = friend_number m" using m by (simp add: friendAt_def)
  then have st: "statusOf (w_trace w') = statusOf (w_trace w) @ map (friendAt w) (z # y # ys)"
    unfolding w'(5) v(11) maps(1) by simp
  have here: "visited w w' z" by (rule visited_frame [OF v(4)]) (use w'(7) dist(1) in simp_all)
  have later: "visited w w' b" if "b \<in> set (y # ys)" for b
  proof -
    have "b \<noteq> z" using that dist(1) by blast
    then have "q_heap (w_q w) b = q_heap (w_q w2) b" by (rule v(5) [symmetric])
    then show ?thesis by (rule visited_frame [OF bspec [OF w'(6) that]]) (simp_all only: v(9))
  qed
  have vis: "\<forall>b\<in>set (z # y # ys). visited w w' b"
  proof
    fix b assume "b \<in> set (z # y # ys)"
    then show "visited w w' b" using here later by (cases "b = z") simp_all
  qed
  have frame: "\<forall>b. b \<notin> set (z # y # ys) \<longrightarrow> q_heap (w_q w') b = q_heap (w_q w) b" using w'(7) v(5) by simp
  have run: "sendMoreLoop fuel env (Some z) w = Inr w'" using go w'(1) by (rule trans)
  show ?case using run w'(2-4) st vis frame by (intro exI conjI)
qed

text \<open>C16. \<open>sendMore\<close> ends after one round: it asks about the friend of each message of the ring once, in the
  order of the ring, and each message is still there, with only parts sent that its window allows; as many
  rounds of fuel as there are messages are enough.  This is for the case that only one friend is online
  and that the receipts awaited are of messages to this friend; tox numbers the messages to him in
  ascending order.  The ring may hold messages to others, who are asked for and found offline.\<close>

theorem sendMore_round:
  assumes "tox_receipts_ok env (sentNum w + sum_list (map (attemptsAt w) xs))" "rt_ok env friend w" "ring (w_q w) xs"
    "heap_sane (w_q w)" "length xs \<le> fuel" "\<forall>a\<in>set xs. quiet env friend (friendAt w a)"
  shows "\<exists>w'. sendMore fuel env w = Inr w' \<and> ring (w_q w') xs \<and> rt_ok env friend w' \<and>
    statusOf (w_trace w') = statusOf (w_trace w) @ map (friendAt w) xs \<and>
    (\<forall>a\<in>set xs. visited w w' a) \<and> (\<forall>a. a \<notin> set xs \<longrightarrow> q_heap (w_q w') a = q_heap (w_q w) a)"
proof (cases xs)
  case Nil
  then show ?thesis using assms(2,3) by (simp add: sendMore_def ring_def)
next
  case (Cons z zs)
  then have "sendMore fuel env w = sendMoreLoop fuel env (Some z) w" using assms(3) by (simp add: sendMore_def ring_def)
  then show ?thesis using sendMoreLoop_runs [OF assms(1,2), of "[]" z zs fuel] assms(3-6) Cons by auto
qed

lemma tox_receipts_online: "tox_receipts_ok (env\<lparr>tx_online := g\<rparr>) n = tox_receipts_ok env n"
  by (simp add: tox_receipts_ok_def genuine_def)

text \<open>A ring with messages of two parts to two friends, of whom only the first is online.\<close>

definition ringOfTwoFriends :: outq where
  "ringOfTwoFriends = \<lparr>q_heap =
     [1 \<mapsto> (newMsgOutbound 1 2 [newFragment [0x61], newFragment [0x62]])\<lparr>m_prev := Some 2, m_next := Some 2\<rparr>,
      2 \<mapsto> (newMsgOutbound 2 2 [newFragment [0x63], newFragment [0x64]])\<lparr>m_prev := Some 1, m_next := Some 1, friend_number := 5\<rparr>],
     msgsOutbound = Some 1\<rparr>"

lemma ring_ringOfTwoFriends: "ring ringOfTwoFriends [1, 2]" "heap_sane ringOfTwoFriends"
  by (simp add: ringOfTwoFriends_def ring_def cyc_def linked_def nx_def pv_def)
    (auto simp: ringOfTwoFriends_def heap_sane_def ran_def msg_sane_def newMsgOutbound_def split: if_splits)

theorem sendMore_round_witness:
  "\<exists>w'. sendMore 2 (env_default\<lparr>tx_online := \<lambda>tr f. f = 0\<rparr>) (world_ready\<lparr>w_q := ringOfTwoFriends\<rparr>) = Inr w' \<and>
     ring (w_q w') [1, 2] \<and> statusOf (w_trace w') = [0, 5]"
proof -
  let ?w = "world_ready\<lparr>w_q := ringOfTwoFriends\<rparr>" and ?env = "env_default\<lparr>tx_online := \<lambda>tr f. f = 0\<rparr>"
  have w: "rt_ok ?env 0 ?w" "ring (w_q ?w) [1, 2]" "heap_sane (w_q ?w)" "length [1, 2 :: addr] \<le> 2"
    using ring_ringOfTwoFriends by (simp_all add: rt_ok_def world_ready_def world0_def receiptsInitialize_dense)
  have f: "friendAt ?w 1 = 0" "friendAt ?w 2 = 5" "attemptsAt ?w 1 = 4" "attemptsAt ?w 2 = 4" "w_trace ?w = []"
    by (simp_all add: friendAt_def attemptsAt_def ringOfTwoFriends_def newMsgOutbound_def world_ready_def world0_def)
  have "tox_receipts_ok ?env (sentNum ?w + sum_list (map (attemptsAt ?w) [1, 2]))"
    unfolding tox_receipts_online by (rule env_default_ok(1)) (simp add: f del: One_nat_def)
  moreover have "\<forall>a\<in>set [1, 2]. quiet ?env 0 (friendAt ?w a)" by (simp add: f quiet_def)
  ultimately show ?thesis using sendMore_round [OF _ w] f by auto
qed

end
