(* ===== verification/Resend.thy ===== *)
theory Resend
  imports Resume
begin

section \<open>Sending expired parts again\<close>

text \<open>
  \<open>resendExpiredReceipts\<close>: what it sends, and what becomes of a part whose second sending fails.
  The theorems are about the functions as they are written; in the program as it is nobody calls them,
  because \<open>toxInstance\<close> is never set, see theory \<open>Machine\<close>.
\<close>

subsection \<open>A part that is out of reach\<close>

text \<open>
  A part that is behind \<open>lastSent\<close>, has a receipt number and is not in the receipt table: the first pass
  of \<open>msgSendNextParts\<close> begins behind it, the second skips it, no record of it can expire or be
  acknowledged.  \<open>stuck\<close> holds also when the message has been freed.
\<close>

definition sealed :: "nat \<Rightarrow> fragment \<Rightarrow> msg_outbound \<Rightarrow> bool" where
  "sealed i f m \<longleftrightarrow> i < length (fragments m) \<and> fragments m ! i = f \<and> i < unat (lastSent m + 1)"

definition sealedAt :: "addr \<Rightarrow> nat \<Rightarrow> fragment \<Rightarrow> outq \<Rightarrow> bool" where
  "sealedAt a i f q \<longleftrightarrow> (\<forall>m. q_heap q a = Some m \<longrightarrow> sealed i f m)"

definition awaits :: "addr \<Rightarrow> nat \<Rightarrow> receipt_record \<Rightarrow> bool" where
  "awaits a i x \<longleftrightarrow> r_receipt x \<noteq> 0 \<and> r_msg x = Some a \<and> unat (r_partNo x - 1) = i"

definition stuck :: "addr \<Rightarrow> nat \<Rightarrow> fragment \<Rightarrow> world \<Rightarrow> bool" where
  "stuck a i f w \<longleftrightarrow> a < w_brk w \<and> sealedAt a i f (w_q w) \<and> (\<forall>x\<in>set (rt_receipts (w_rt w)). \<not> awaits a i x)"

lemma stuckD: "stuck a i f w \<Longrightarrow> q_heap (w_q w) a = Some m \<Longrightarrow> sealed i f m"
  by (simp add: stuck_def sealedAt_def)

lemma stuck_cong:
  "w_brk w' = w_brk w \<Longrightarrow> w_q w' = w_q w \<Longrightarrow> w_rt w' = w_rt w \<Longrightarrow> stuck a i f w' = stuck a i f w"
  by (simp add: stuck_def)

lemma stuck_emit [simp]: "stuck a i f (emit ev w) = stuck a i f w"
  by (rule stuck_cong) (simp_all add: emit_def)

lemma stuck_upd [simp]:
  "stuck a i f (w\<lparr>w_db := db\<rparr>) = stuck a i f w" "stuck a i f (w\<lparr>lastReceipt := r\<rparr>) = stuck a i f w"
  "stuck a i f (w\<lparr>lastMsgId := mid\<rparr>) = stuck a i f w" "stuck a i f (w\<lparr>w_trace := tr\<rparr>) = stuck a i f w"
  by (rule stuck_cong; simp)+

lemma stuck_table: "stuck a i f w \<Longrightarrow> (\<And>x. x \<in> set (rt_receipts rt) \<Longrightarrow> awaits a i x \<Longrightarrow> x \<in> set (rt_receipts (w_rt w))) \<Longrightarrow>
    stuck a i f (w\<lparr>w_rt := rt\<rparr>)"
  by (auto simp: stuck_def)

text \<open>Changes of the heap.\<close>

lemma updMsg_sealed:
  "updMsg q p g = Inr q' \<Longrightarrow> sealedAt a i f q \<Longrightarrow> (\<And>m. p = Some a \<Longrightarrow> sealed i f m \<Longrightarrow> sealed i f (g m)) \<Longrightarrow> sealedAt a i f q'"
  by (auto simp: updMsg_def sealedAt_def split: option.splits if_splits)

lemma stuck_q: "stuck a i f w \<Longrightarrow> (sealedAt a i f (w_q w) \<Longrightarrow> sealedAt a i f q) \<Longrightarrow> stuck a i f (w\<lparr>w_q := q\<rparr>)"
  by (simp add: stuck_def)

lemma stuck_updMsgW:
  assumes "updMsgW w p g = Inr w'" "stuck a i f w" "\<And>m. p = Some a \<Longrightarrow> sealed i f m \<Longrightarrow> sealed i f (g m)"
  shows "stuck a i f w'"
proof -
  obtain q where q: "updMsg (w_q w) p g = Inr q" "w' = w\<lparr>w_q := q\<rparr>" using assms(1) by (auto simp: updMsgW_def bindR_eq_Inr)
  show ?thesis unfolding q(2) by (rule stuck_q [OF assms(2)]) (rule updMsg_sealed [OF q(1) _ assms(3)])
qed

lemma sealed_simps [simp]:
  "j \<noteq> i \<Longrightarrow> sealed i f (updFragment j g m) = sealed i f m"
  "sealed i f (m\<lparr>numTransit := n\<rparr>) = sealed i f m" "sealed i f (m\<lparr>numConfirmed := n\<rparr>) = sealed i f m"
  "sealed i f (m\<lparr>numLoss := n\<rparr>) = sealed i f m"
  "sealed i f (m\<lparr>m_next := p\<rparr>) = sealed i f m" "sealed i f (m\<lparr>m_prev := p\<rparr>) = sealed i f m"
  "sealed i f (m\<lparr>m_type := t\<rparr>) = sealed i f m" "sealed i f (m\<lparr>m_receipt := r\<rparr>) = sealed i f m"
  by (auto simp: sealed_def updFragment_def)

text \<open>Adding a record brings no other record into the table; clearing brings none.\<close>

lemma growLoop_records: "growLoop t = Inr t' \<Longrightarrow> set (rt_receipts t') \<subseteq> insert rr0 (set (rt_receipts t))"
proof (induction t rule: growLoop.induct)
  case (1 t)
  show ?case
  proof (cases "receiptsHi t + 16 > receiptsAlloc t")
    case True
    then have "receiptsAlloc t \<noteq> 0" "growLoop (growTable t) = Inr t'"
      using "1.prems" by (subst (asm) growLoop.simps, simp split: if_splits)+
    with True "1.IH" show ?thesis by fastforce
  next
    case False
    then have "t' = t" using "1.prems" by (subst (asm) growLoop.simps) simp
    then show ?thesis by blast
  qed
qed

lemma moveUp_records: "moveUp rs k n d = Inr rs' \<Longrightarrow> set rs' \<subseteq> insert rr0 (set rs)"
  using set_take_subset [of k rs] set_drop_subset [of "n + d" rs] set_take_subset [of "n - k" "drop k rs"] set_drop_subset [of k rs]
  by (fastforce simp: moveUp_def split: if_splits)

lemma writeAt_records: "writeAt rs k x = Inr rs' \<Longrightarrow> set rs' \<subseteq> insert x (set rs)"
  by (simp add: writeAt_eq_Inr set_update_subset_insert)

lemma addReceipt_records:
  assumes "addReceipt t new = Inr t'"
  shows "set (rt_receipts t') \<subseteq> insert new (insert rr0 (set (rt_receipts t)))"
proof -
  define grown where "grown = (if receiptsHi t = receiptsAlloc t then growTable t else t)"
  have grown: "set (rt_receipts grown) \<subseteq> insert rr0 (set (rt_receipts t))" by (auto simp: grown_def)
  obtain above :: bool and t2 where t2: "t2\<lparr>receiptsNum := receiptsNum t2 + 1\<rparr> = t'"
    and r: "(if above then bindR (writeAt (rt_receipts grown) (receiptsHi grown) new) (\<lambda>rs.
        Inr (grown\<lparr>rt_receipts := rs, receiptsHi := receiptsHi grown + 1\<rparr>))
      else bindR (findReceipt t (r_receipt new)) (\<lambda>i.
        bindR (readAt (rt_receipts t) (nat (i + 1))) (\<lambda>r.
          if r_receipt r \<noteq> 0 then
            bindR (growLoop t) (\<lambda>t1.
            bindR (moveUp (rt_receipts t1) (nat (i + 1)) (receiptsHi t1) 16) (\<lambda>rs.
            bindR (writeAt rs (nat (i + 1)) new) (\<lambda>rs.
            Inr (t1\<lparr>rt_receipts := rs\<rparr>))))
          else
            bindR (writeAt (rt_receipts t) (nat (i + 1)) new) (\<lambda>rs. Inr (t\<lparr>rt_receipts := rs\<rparr>))))) = Inr t2"
    using assms unfolding addReceipt_def Let_def grown_def [symmetric] bindR_eq_Inr [of _ _ t'] sum.inject
    by (elim exE conjE) (rule that)
  have "set (rt_receipts t2) \<subseteq> insert new (insert rr0 (set (rt_receipts t)))"
  proof (cases above)
    case True
    with r grown show ?thesis by (auto simp: bindR_eq_Inr dest!: writeAt_records)
  next
    case False
    with r have "\<exists>k. (\<exists>t1 rs1 rs. growLoop t = Inr t1 \<and> moveUp (rt_receipts t1) k (receiptsHi t1) 16 = Inr rs1 \<and>
        writeAt rs1 k new = Inr rs \<and> rt_receipts t2 = rs) \<or> (\<exists>rs. writeAt (rt_receipts t) k new = Inr rs \<and> rt_receipts t2 = rs)"
      unfolding if_not_P [OF False] bindR_eq_Inr
      by (elim exE conjE) (split if_splits, auto simp: bindR_eq_Inr, blast)
    then show ?thesis
    proof (elim exE disjE conjE)
      fix k t1 rs1 rs
      assume w: "growLoop t = Inr t1" "moveUp (rt_receipts t1) k (receiptsHi t1) 16 = Inr rs1" "writeAt rs1 k new = Inr rs"
        "rt_receipts t2 = rs"
      have "set rs1 \<subseteq> insert rr0 (insert rr0 (set (rt_receipts t)))"
        using moveUp_records [OF w(2)] insert_mono [OF growLoop_records [OF w(1)]] by (rule order_trans)
      from order_trans [OF writeAt_records [OF w(3)] insert_mono [OF this]] show ?thesis by (simp add: w(4))
    next
      fix k rs
      assume w: "writeAt (rt_receipts t) k new = Inr rs" "rt_receipts t2 = rs"
      show ?thesis using order_trans [OF writeAt_records [OF w(1)] insert_mono [OF subset_insertI]] by (simp only: w(2))
    qed
  qed
  then show ?thesis using t2 by auto
qed

lemma clearReceipt_records:
  assumes "clearReceipt t k = Inr t'" "x \<in> set (rt_receipts t')" "r_receipt x \<noteq> 0"
  shows "x \<in> set (rt_receipts t)"
proof -
  have "rt_receipts t' = (rt_receipts t)[k := (rt_receipts t ! k)\<lparr>r_receipt := 0\<rparr>]"
    using assms(1) by (auto simp: clearReceipt_def bindR_eq_Inr Let_def readAt_eq_Inr split: if_splits)
  with assms(2,3) show ?thesis by (auto dest!: subsetD [OF set_update_subset_insert])
qed

lemma stuck_add:
  assumes "stuck a i f w" "addReceipt (w_rt w) x = Inr rt" "\<not> awaits a i x"
  shows "stuck a i f (w\<lparr>w_rt := rt\<rparr>)"
proof (rule stuck_table [OF assms(1)])
  fix y assume "y \<in> set (rt_receipts rt)" "awaits a i y"
  moreover have "\<not> awaits a i rr0" by (simp add: awaits_def)
  ultimately show "y \<in> set (rt_receipts (w_rt w))" using addReceipt_records [OF assms(2)] assms(3) by blast
qed

subsection \<open>No handler reaches it\<close>

lemma stuck_sendPart:
  assumes "msgSendPart env w p j = Inr (ok, w')" "stuck a i f w" "p \<noteq> Some a \<or> j \<noteq> i" "j < 2 ^ 32"
  shows "stuck a i f w'"
proof -
  obtain m g where m: "derefW w p = Inr m" "readAt (fragments m) j = Inr g"
    using assms(1) by (auto simp: msgSendPart_def bindR_eq_Inr)
  let ?r = "tx_send env (w_trace w) (friend_number m) (m_type m) (f_data g)"
  let ?w1 = "emit (ToxSend (friend_number m) (m_type m) (f_data g) ?r) w"
  have s1: "stuck a i f ?w1" using assms(2) by simp
  show ?thesis
  proof (cases "?r = 0")
    case True
    with assms(1) s1 show ?thesis unfolding msgSendPart_def m bindR_Inr outside_defs by simp
  next
    case False
    then obtain w2 w3 rt x where w: "updMsgW ?w1 p (updFragment j (\<lambda>f. f\<lparr>f_receipt := ?r, f_timesSent := f_timesSent f + 1\<rparr>)) = Inr w2"
      "w3 = emit (Clock (clock env (w_trace w2))) w2"
      "x = \<lparr>r_receipt = ?r, r_msg = p, r_partNo = of_nat (j + 1), r_timestamp = clock env (w_trace w2)\<rparr>"
      "addReceipt (w_rt w3) x = Inr rt" "updMsgW (w3\<lparr>w_rt := rt\<rparr>) p (\<lambda>m. m\<lparr>numTransit := numTransit m + 1\<rparr>) = Inr w'"
      using assms(1) unfolding msgSendPart_def m bindR_Inr outside_defs by (auto simp: bindR_eq_Inr)
    have x: "\<not> awaits a i x" using assms(3,4) by (auto simp: awaits_def w(3) unat_of_nat)
    have "stuck a i f w2" by (rule stuck_updMsgW [OF w(1) s1]) (use assms(3) in auto)
    then have "stuck a i f w3" by (simp add: w(2))
    from stuck_add [OF this w(4) x] show ?thesis by (rule stuck_updMsgW [OF w(5)]) simp
  qed
qed

lemma stuck_sendPass:
  "sendPass env w p is = Inr w' \<Longrightarrow> stuck a i f w \<Longrightarrow> \<forall>j\<in>set is. j < 2 ^ 32 - 1 \<and> (p = Some a \<longrightarrow> i < j) \<Longrightarrow> stuck a i f w'"
proof (induction "is" arbitrary: w)
  case (Cons j "is")
  show ?case
  proof (cases "sendPass env w p (j # is) = Inr w")
    case True
    with Cons.prems show ?thesis by simp
  next
    case False
    with Cons.prems obtain ok w1 w2 where w: "msgSendPart env w p j = Inr (ok, w1)"
      "(if ok then updMsgW w1 p (\<lambda>m. m\<lparr>lastSent := of_nat j\<rparr>) else Inr w1) = Inr w2" "sendPass env w2 p is = Inr w'"
      by (auto simp: bindR_eq_Inr split: if_splits)
    have j: "j < 2 ^ 32 - 1" "p = Some a \<Longrightarrow> i < j" using Cons.prems(3) by simp_all
    have "stuck a i f w1" using w(1) Cons.prems(2) by (rule stuck_sendPart) (use j in auto)
    have "of_nat j + 1 = (of_nat (Suc j) :: u32)" by simp
    then have "unat (of_nat j + 1 :: u32) = j + 1" using j(1) by (simp only: unat_of_nat) simp
    then have sealed: "sealed i f m \<Longrightarrow> p = Some a \<Longrightarrow> sealed i f (m\<lparr>lastSent := of_nat j\<rparr>)" for m
      using j(2) by (simp add: sealed_def)
    have "stuck a i f w2"
    proof (cases ok)
      case True
      with w(2) have "updMsgW w1 p (\<lambda>m. m\<lparr>lastSent := of_nat j\<rparr>) = Inr w2" by simp
      then show ?thesis using \<open>stuck a i f w1\<close> by (rule stuck_updMsgW) (rule sealed)
    qed (use w(2) \<open>stuck a i f w1\<close> in simp)
    with w(3) show ?thesis by (rule Cons.IH) (use Cons.prems(3) in simp)
  qed
qed simp

lemma stuck_retryPass:
  "retryPass env w p is = Inr w' \<Longrightarrow> stuck a i f w \<Longrightarrow> f_receipt f \<noteq> 0 \<Longrightarrow> \<forall>j\<in>set is. j < 2 ^ 32 \<Longrightarrow> stuck a i f w'"
proof (induction "is" arbitrary: w)
  case (Cons j "is")
  obtain m :: msg_outbound where m: "derefW w p = Inr m" using Cons.prems(1) by (auto simp: bindR_eq_Inr)
  show ?case
  proof (cases "numTransit m < fragmentsAtATime (w_params w) \<and> numTransit m + numConfirmed m < numParts m")
    case False
    with Cons.prems(1,2) m show ?thesis by (simp split: if_splits)
  next
    case True
    with Cons.prems(1) m obtain g w1 where g: "readAt (fragments m) j = Inr g"
      "(if f_receipt g = 0 \<and> f_confirmed g = 0 then bindR (msgSendPart env w p j) (\<lambda>(ok, w). Inr w) else Inr w) = Inr w1"
      "retryPass env w1 p is = Inr w'" by (auto simp: bindR_eq_Inr)
    have "stuck a i f w1"
    proof (cases "f_receipt g = 0 \<and> f_confirmed g = 0")
      case False
      with g(2) Cons.prems(2) show ?thesis by auto
    next
      case zero: True
      then obtain ok where ok: "msgSendPart env w p j = Inr (ok, w1)" using g(2) by (auto simp: bindR_eq_Inr)
      have "p \<noteq> Some a \<or> j \<noteq> i"
      proof (rule ccontr)
        assume "\<not> (p \<noteq> Some a \<or> j \<noteq> i)"
        then have "p = Some a" "j = i" by simp_all
        then have "q_heap (w_q w) a = Some m" using m by (simp add: derefW_def deref_def split: option.splits)
        from stuckD [OF Cons.prems(2) this] g(1) zero Cons.prems(3) \<open>j = i\<close> show False
          by (simp add: sealed_def readAt_eq_Inr)
      qed
      with ok Cons.prems(2) show ?thesis by (rule stuck_sendPart) (use Cons.prems(4) in simp)
    qed
    with g(3) show ?thesis by (rule Cons.IH) (use Cons.prems(3,4) in simp_all)
  qed
qed simp

lemma stuck_nextParts:
  assumes "msgSendNextParts env w p = Inr w'" "stuck a i f w" "f_receipt f \<noteq> 0"
  shows "stuck a i f w'"
proof -
  obtain m m2 :: msg_outbound and w1 where m: "derefW w p = Inr m"
    "sendPass env w p [unat (lastSent m + 1)..<unat (numParts m)] = Inr w1" "retryPass env w1 p [0..<unat (numParts m2)] = Inr w'"
    using assms(1) by (auto simp: msgSendNextParts_def bindR_eq_Inr)
  have n: "unat k < 2 ^ 32" for k :: u32 using unsigned_less [of k] by simp
  have "i < unat (lastSent m + 1)" if "p = Some a"
    using stuckD [OF assms(2), of m] m(1) that by (simp add: derefW_def deref_def sealed_def split: option.splits)
  then have "stuck a i f w1" using n [of "numParts m"] by (intro stuck_sendPass [OF m(2) assms(2)]) auto
  from m(3) this assms(3) show ?thesis by (rule stuck_retryPass) (use n [of "numParts m2"] in auto)
qed

lemma link_sealed: "msgsOutboundLink q p = Inr q' \<Longrightarrow> sealedAt a i f q \<Longrightarrow> sealedAt a i f q'"
proof -
  have "sealedAt a i f (q\<lparr>msgsOutbound := b\<rparr>) = sealedAt a i f q" for q b by (simp add: sealedAt_def)
  then show "msgsOutboundLink q p = Inr q' \<Longrightarrow> sealedAt a i f q \<Longrightarrow> sealedAt a i f q'"
    by (auto simp: msgsOutboundLink_def bindR_eq_Inr split: if_splits dest!: updMsg_sealed)
qed

lemma unlink_sealed: "msgsOutboundUnlink q p = Inr q' \<Longrightarrow> sealedAt a i f q \<Longrightarrow> sealedAt a i f q'"
proof -
  have "sealedAt a i f (q\<lparr>msgsOutbound := b\<rparr>) = sealedAt a i f q" for q b by (simp add: sealedAt_def)
  then show "msgsOutboundUnlink q p = Inr q' \<Longrightarrow> sealedAt a i f q \<Longrightarrow> sealedAt a i f q'"
    by (auto simp: msgsOutboundUnlink_def bindR_eq_Inr split: if_splits dest!: updMsg_sealed)
qed

lemma delete_sealed: "msgOutboundDelete q p = Inr q' \<Longrightarrow> sealedAt a i f q \<Longrightarrow> sealedAt a i f q'"
  by (auto simp: msgOutboundDelete_def bindR_eq_Inr sealedAt_def split: if_splits)

lemma stuck_accept:
  assumes "acceptMessage fuel env w p friend type message = Inr (r, w')" "stuck a i f w"
  shows "stuck a i f w'"
proof -
  obtain w1 rc w2 q db and m :: msg_outbound where w: "updMsgW w p (\<lambda>m. m\<lparr>m_type := type\<rparr>) = Inr w1"
    "updMsgW (w1\<lparr>lastReceipt := rc\<rparr>) p (\<lambda>m. m\<lparr>m_receipt := rc\<rparr>) = Inr w2" "msgsOutboundLink (w_q w2) p = Inr q"
    "w2\<lparr>w_q := q, w_db := db\<rparr> = w'"
    using assms(1) unfolding acceptMessage_def bindR_eq_Inr sum.inject prod.inject
    by (elim exE conjE) (rule that)
  have "stuck a i f w1" by (rule stuck_updMsgW [OF w(1) assms(2)]) simp
  then have "stuck a i f (w1\<lparr>lastReceipt := rc\<rparr>)" by simp
  then have "stuck a i f w2" by (rule stuck_updMsgW [OF w(2)]) simp
  then have "stuck a i f (w2\<lparr>w_q := q\<rparr>)" by (rule stuck_q) (rule link_sealed [OF w(3)])
  then show ?thesis by (simp flip: w(4))
qed

lemma stuck_send:
  assumes "friend_send_message fuel env w friend type message = Inr (r, w')" "stuck a i f w"
  shows "stuck a i f w'"
proof (cases "friend_send_message_long fuel env w friend type message = Inr (r, w')")
  case False
  with assms show ?thesis by (auto simp: friend_send_message_def bindR_eq_Inr outside_defs split: if_splits)
next
  case True
  let ?w1 = "emit (Clock (clock env (w_trace w))) w"
  obtain lastId m p w2 w3 where w: "allocMsg (?w1\<lparr>lastMsgId := lastId\<rparr>) m = (p, w2)"
    "sendPass env w2 p [0..<unat (numParts m)] = Inr w3"
    "acceptMessage fuel env w3 p friend type message = Inr (r, w') \<or> (\<exists>q. msgOutboundDelete (w_q w3) p = Inr q \<and> w' = w3\<lparr>w_q := q\<rparr>)"
  proof -
    obtain mid lastId m p w2 w3 where w: "allocMsg (?w1\<lparr>lastMsgId := lastId\<rparr>) (m\<lparr>friend_number := friend\<rparr>) = (p, w2)"
      "sendPass env w2 p [0..<unat (numParts m)] = Inr w3"
      "acceptMessage fuel env w3 p friend type message = Inr (r, w') \<or> (\<exists>q. msgOutboundDelete (w_q w3) p = Inr q \<and> w' = w3\<lparr>w_q := q\<rparr>)"
      using True unfolding friend_send_message_long_def outside_defs
      by (auto simp: bindR_eq_Inr allocMsg_def split: if_splits)
    then show thesis by (intro that [of lastId "m\<lparr>friend_number := friend\<rparr>" p w2 w3]) simp_all
  qed
  have "a < w_brk w" using assms(2) by (simp add: stuck_def)
  then have p: "p \<noteq> Some a" "stuck a i f w2"
    using w(1) assms(2) by (auto simp: allocMsg_def stuck_def sealedAt_def emit_def)
  have "unat (numParts m) < 2 ^ 32" using unsigned_less [of "numParts m"] by simp
  then have s3: "stuck a i f w3" using p(1) by (intro stuck_sendPass [OF w(2) p(2)]) auto
  show ?thesis
    using w(3) stuck_accept [OF _ s3] stuck_q [OF s3] delete_sealed by blast
qed

lemma stuck_complete:
  assumes "msgIsComplete w p = Inr w'" "stuck a i f w"
  shows "stuck a i f w'"
proof -
  obtain m :: msg_outbound and q1 q2 where q: "msgsOutboundUnlink (w_q w) p = Inr q1" "msgOutboundDelete q1 p = Inr q2"
    "w' = (emit (Client (ClientReceipt (friend_number m) (m_receipt m))) w)\<lparr>w_db := dbClearOutboundPending (friend_number m) (m_id m) (w_db w), w_q := q2\<rparr>"
    using assms(1) by (auto simp: msgIsComplete_def bindR_eq_Inr Let_def emit_def)
  show ?thesis
    unfolding q(3) by (rule stuck_q) (use assms(2) unlink_sealed [OF q(1)] delete_sealed [OF q(2)] in simp_all)
qed

lemma stuck_tryReceipt:
  assumes "tryProcessReceipt env w receipt = Inr (fin, w')" "stuck a i f w" "f_receipt f \<noteq> 0" "receipt \<noteq> 0"
  shows "stuck a i f w'"
proof -
  obtain found where found: "lookupReceipt (w_rt w) receipt = Inr found"
    using assms(1) by (auto simp: tryProcessReceipt_def bindR_eq_Inr)
  show ?thesis
  proof (cases found)
    case None
    with assms(1,2) found show ?thesis by (simp add: tryProcessReceipt_def)
  next
    case (Some k)
    obtain r :: receipt_record and m m' :: msg_outbound and w1 db w2 rt where w: "readAt (rt_receipts (w_rt w)) k = Inr r"
      "updMsgW w (r_msg r) (\<lambda>m. (updFragment (unat (r_partNo r - 1)) (\<lambda>f. f\<lparr>f_receipt := 0, f_confirmed := 1, f_data := None\<rparr>) m)
         \<lparr>numConfirmed := numConfirmed m + 1, numTransit := numTransit m - 1\<rparr>) = Inr w1"
      "(if numConfirmed m' < numParts m'
        then case isFriendOnline env ((emit (Clock (clock env (w_trace w1))) w1)\<lparr>w_db := db\<rparr>) (friend_number m')
             of (on, w) \<Rightarrow> if on then msgSendNextParts env w (r_msg r) else Inr w
        else msgIsComplete ((emit (Clock (clock env (w_trace w1))) w1)\<lparr>w_db := db\<rparr>) (r_msg r)) = Inr w2"
      "clearReceipt (w_rt w2) k = Inr rt" "w2\<lparr>w_rt := rt\<rparr> = w'"
      using assms(1) unfolding tryProcessReceipt_def found Some bindR_Inr option.case getCurrTimeMs_def Let_def case_prod_conv
        bindR_eq_Inr sum.inject prod.inject
      by (elim exE conjE) (rule that)
    have "r_receipt r = receipt" "r \<in> set (rt_receipts (w_rt w))"
      using lookupReceipt_sound [OF found [unfolded Some]] w(1) by auto
    then have other: "r_msg r \<noteq> Some a \<or> unat (r_partNo r - 1) \<noteq> i" using assms(2,4) by (auto simp: stuck_def awaits_def)
    let ?w1 = "(emit (Clock (clock env (w_trace w1))) w1)\<lparr>w_db := db\<rparr>"
    have "stuck a i f w1" by (rule stuck_updMsgW [OF w(2) assms(2)]) (use other in auto)
    then have s1: "stuck a i f ?w1" by simp
    have "stuck a i f w2"
    proof (cases "numConfirmed m' < numParts m'")
      case True
      let ?w3 = "emit (ToxStatus (friend_number m') (tx_online env (w_trace ?w1) (friend_number m'))) ?w1"
      have "stuck a i f ?w3" using s1 by (simp only: stuck_emit)
      then show ?thesis using w(3) True stuck_nextParts [of env ?w3 "r_msg r" w2, OF _ _ assms(3)]
        unfolding outside_defs by (auto simp del: stuck_emit split: if_splits)
    next
      case False
      with w(3) have "msgIsComplete ?w1 (r_msg r) = Inr w2" by simp
      then show ?thesis using s1 by (rule stuck_complete)
    qed
    then have "stuck a i f (w2\<lparr>w_rt := rt\<rparr>)"
      by (rule stuck_table) (rule clearReceipt_records [OF w(4)], simp_all add: awaits_def)
    then show ?thesis by (simp only: w(5))
  qed
qed

lemma stuck_receipt:
  "friend_read_receipt_cb env w friend receipt = Inr w' \<Longrightarrow> stuck a i f w \<Longrightarrow> f_receipt f \<noteq> 0 \<Longrightarrow> receipt \<noteq> 0 \<Longrightarrow> stuck a i f w'"
  by (auto simp: friend_read_receipt_cb_def bindR_eq_Inr split: if_splits dest: stuck_tryReceipt)

lemma stuck_message: "libMessage env friend type message w = Inr (u, w') \<Longrightarrow> stuck a i f w \<Longrightarrow> stuck a i f w'"
  by (auto simp: libMessage_def bindR_eq_Inr outside_defs stuck_def emit_def split: if_splits)

lemma stuck_resendLoop: "resendLoop fuel env now k w = Inr w' \<Longrightarrow> stuck a i f w \<Longrightarrow> stuck a i f w'"
proof (induction fuel arbitrary: k w)
  case (Suc fuel)
  show ?case
  proof (cases "resendLoop fuel env now (k + 1) w = Inr w' \<or> w' = w")
    case True
    with Suc show ?thesis by blast
  next
    case False
    with Suc.prems(1) obtain r :: receipt_record and w1 ok w2 where w: "readAt (rt_receipts (w_rt w)) k = Inr r" "r_receipt r \<noteq> 0"
      "updMsgW (w\<lparr>w_rt := (w_rt w)\<lparr>rt_receipts := (rt_receipts (w_rt w))[k := r\<lparr>r_receipt := 0\<rparr>], receiptsNum := receiptsNum (w_rt w) - 1\<rparr>\<rparr>)
         (r_msg r) (\<lambda>m. m\<lparr>numTransit := numTransit m - 1, numLoss := numLoss m + 1\<rparr>) = Inr w1"
      "msgSendPart env w1 (r_msg r) (unat (r_partNo r - 1)) = Inr (ok, w2)" "resendLoop fuel env now (k + 1) w2 = Inr w'"
      by (auto simp: bindR_eq_Inr Let_def split: if_splits)
    have "r \<in> set (rt_receipts (w_rt w))" using w(1) by (auto simp: readAt_eq_Inr)
    then have other: "r_msg r \<noteq> Some a \<or> unat (r_partNo r - 1) \<noteq> i" using Suc.prems(2) w(2) by (auto simp: stuck_def awaits_def)
    have "stuck a i f w1"
    proof (rule stuck_updMsgW [OF w(3) stuck_table [OF Suc.prems(2)]])
      fix x
      assume "x \<in> set (rt_receipts ((w_rt w)\<lparr>rt_receipts := (rt_receipts (w_rt w))[k := r\<lparr>r_receipt := 0\<rparr>], receiptsNum := receiptsNum (w_rt w) - 1\<rparr>))"
        and "awaits a i x"
      then show "x \<in> set (rt_receipts (w_rt w))" by (auto simp: awaits_def dest!: subsetD [OF set_update_subset_insert])
    qed simp
    then have "stuck a i f w2" using unsigned_less [of "r_partNo r - 1"] by (intro stuck_sendPart [OF w(4) _ other]) simp_all
    with w(5) show ?thesis by (rule Suc.IH)
  qed
qed simp

lemma stuck_sendMoreLoop: "sendMoreLoop fuel env p w = Inr w' \<Longrightarrow> stuck a i f w \<Longrightarrow> f_receipt f \<noteq> 0 \<Longrightarrow> stuck a i f w'"
proof (induction fuel arbitrary: p w)
  case (Suc fuel)
  obtain m :: msg_outbound where m: "derefW w p = Inr m" using Suc.prems by (auto simp: bindR_eq_Inr)
  let ?on = "tx_online env (w_trace w) (friend_number m)"
  let ?w1 = "emit (ToxStatus (friend_number m) ?on) w"
  obtain w2 where w: "(if ?on then msgSendNextParts env ?w1 p else Inr ?w1) = Inr w2"
    "w' = w2 \<or> (\<exists>p'. sendMoreLoop fuel env p' w2 = Inr w')"
    using Suc.prems(1) unfolding sendMoreLoop.simps m bindR_Inr outside_defs by (auto simp: bindR_eq_Inr split: if_splits)
  have "stuck a i f ?w1" using Suc.prems(2) by simp
  then have "stuck a i f w2" using w(1) stuck_nextParts [OF _ _ Suc.prems(3)] by (auto simp del: stuck_emit split: if_splits)
  then show ?case using w(2) Suc.IH Suc.prems(3) by blast
qed simp

lemma stuck_periodic:
  assumes "doPeriodic fuel env w = Inr w'" "stuck a i f w" "f_receipt f \<noteq> 0"
  shows "stuck a i f w'"
proof -
  have r: "resendExpiredReceipts fuel env w = Inr w1 \<Longrightarrow> stuck a i f w1" for w1
    using assms(2) by (auto simp: resendExpiredReceipts_def outside_defs split: if_splits dest: stuck_resendLoop)
  have s: "sendMore fuel env w1 = Inr w' \<Longrightarrow> stuck a i f w1 \<Longrightarrow> stuck a i f w'" for w1
    using assms(3) by (auto simp: sendMore_def dest: stuck_sendMoreLoop split: if_splits)
  show ?thesis using assms(1,2) by (auto simp: doPeriodic_def bindR_eq_Inr split: if_splits dest: r s)
qed

text \<open>What can happen after a start: periodic work, calls of the client, and what tox delivers, in any order.
  Message numbers of tox are not 0.\<close>

inductive goes_on :: "env \<Rightarrow> world \<Rightarrow> world \<Rightarrow> bool" for env where
  now: "goes_on env w w"
| periodic: "goes_on env w w1 \<Longrightarrow> doPeriodic fuel env w1 = Inr w2 \<Longrightarrow> goes_on env w w2"
| send: "goes_on env w w1 \<Longrightarrow> friend_send_message fuel env w1 friend type message = Inr (r, w2) \<Longrightarrow> goes_on env w w2"
| receipt: "goes_on env w w1 \<Longrightarrow> receipt \<noteq> 0 \<Longrightarrow> friend_read_receipt_cb env w1 friend receipt = Inr w2 \<Longrightarrow> goes_on env w w2"
| message: "goes_on env w w1 \<Longrightarrow> libMessage env friend type message w1 = Inr (u, w2) \<Longrightarrow> goes_on env w w2"

lemma stuck_goes_on: "goes_on env w w' \<Longrightarrow> stuck a i f w \<Longrightarrow> f_receipt f \<noteq> 0 \<Longrightarrow> stuck a i f w'"
  by (induction rule: goes_on.induct) (blast intro: stuck_periodic stuck_send stuck_receipt stuck_message)+

definition expired :: "params \<Rightarrow> u64 \<Rightarrow> receipt_record \<Rightarrow> bool" where
  "expired p t x \<longleftrightarrow> r_receipt x \<noteq> 0 \<and> r_timestamp x + ucast (receiptExpirationTimeMs p) < t"

lemma resend_refused:
  assumes "\<forall>tr friend type d. tx_send env tr friend type d = 0"
  shows "resendLoop fuel env t k w = Inr w' \<Longrightarrow> a < w_brk w \<Longrightarrow> sealedAt a i f (w_q w) \<Longrightarrow>
    \<forall>j < length (rt_receipts (w_rt w)). awaits a i (rt_receipts (w_rt w) ! j) \<longrightarrow>
      k \<le> j \<and> j < receiptsHi (w_rt w) \<and> expired (w_params w) t (rt_receipts (w_rt w) ! j) \<Longrightarrow>
    stuck a i f w'"
proof (induction fuel arbitrary: k w)
  case (Suc fuel)
  let ?rs = "rt_receipts (w_rt w)"
  show ?case
  proof (cases "k < receiptsHi (w_rt w)")
    case False
    have "\<not> awaits a i x" if x: "x \<in> set ?rs" for x
    proof -
      obtain j where "j < length ?rs" "x = ?rs ! j" using x by (metis in_set_conv_nth)
      then show ?thesis using Suc.prems(4) False by force
    qed
    then show ?thesis using Suc.prems(1-3) False by (simp add: stuck_def)
  next
    case True
    obtain r where r: "k < length ?rs" "r = ?rs ! k" using Suc.prems(1) True by (auto simp: bindR_eq_Inr readAt_eq_Inr)
    show ?thesis
    proof (cases "expired (w_params w) t r")
      case False
      then have "resendLoop fuel env t (k + 1) w = Inr w'" using Suc.prems(1) True r by (auto simp: expired_def)
      moreover have "\<forall>j < length ?rs. awaits a i (?rs ! j) \<longrightarrow> k + 1 \<le> j \<and> j < receiptsHi (w_rt w) \<and> expired (w_params w) t (?rs ! j)"
        using Suc.prems(4) False r by (metis Suc_eq_plus1 not_less_eq_eq le_antisym)
      ultimately show ?thesis using Suc.IH Suc.prems(2,3) by blast
    next
      case exp: True
      define w0 where "w0 = w\<lparr>w_rt := (w_rt w)\<lparr>rt_receipts := ?rs[k := r\<lparr>r_receipt := 0\<rparr>], receiptsNum := receiptsNum (w_rt w) - 1\<rparr>\<rparr>"
      obtain w1 ok w2 where w: "updMsgW w0 (r_msg r) (\<lambda>m. m\<lparr>numTransit := numTransit m - 1, numLoss := numLoss m + 1\<rparr>) = Inr w1"
        "msgSendPart env w1 (r_msg r) (unat (r_partNo r - 1)) = Inr (ok, w2)" "resendLoop fuel env t (k + 1) w2 = Inr w'"
        using Suc.prems(1) True r exp by (auto simp: expired_def w0_def bindR_eq_Inr Let_def)
      have same: "w_rt w1 = w_rt w0" "w_brk w1 = w_brk w0" "w_params w1 = w_params w0" using w(1) by (auto simp: updMsgW_def bindR_eq_Inr)
      have "sealedAt a i f (w_q w1)"
      proof -
        obtain q where "updMsg (w_q w0) (r_msg r) (\<lambda>m. m\<lparr>numTransit := numTransit m - 1, numLoss := numLoss m + 1\<rparr>) = Inr q"
          "w_q w1 = q" using w(1) by (auto simp: updMsgW_def bindR_eq_Inr)
        then show ?thesis using Suc.prems(3) updMsg_sealed [of "w_q w0" "r_msg r" _ q a i f] by (simp add: w0_def)
      qed
      moreover have w2: "w_q w2 = w_q w1" "w_rt w2 = w_rt w1" "w_brk w2 = w_brk w1" "w_params w2 = w_params w1"
        using w(2) assms by (auto simp: msgSendPart_def bindR_eq_Inr outside_defs emit_def)
      moreover have "\<forall>j < length (rt_receipts (w_rt w0)). awaits a i (rt_receipts (w_rt w0) ! j) \<longrightarrow>
          k + 1 \<le> j \<and> j < receiptsHi (w_rt w0) \<and> expired (w_params w) t (rt_receipts (w_rt w0) ! j)"
      proof (intro allI impI)
        fix j
        assume j: "j < length (rt_receipts (w_rt w0))" "awaits a i (rt_receipts (w_rt w0) ! j)"
        then have "j \<noteq> k" using r by (auto simp: w0_def awaits_def)
        then show "k + 1 \<le> j \<and> j < receiptsHi (w_rt w0) \<and> expired (w_params w) t (rt_receipts (w_rt w0) ! j)"
          using j Suc.prems(4) by (force simp: w0_def)
      qed
      ultimately show ?thesis using Suc.IH [OF w(3)] Suc.prems(2) same by (simp add: w0_def)
    qed
  qed
qed simp

text \<open>C29. A part whose second sending fails is lost to the message.  Take a part that has been sent and lies not
  beyond \<open>lastSent\<close>, and let tox refuse everything while \<open>resendExpiredReceipts\<close> runs: the record of the
  part is cleared but its receipt number stays, and then, whatever happens, as long as the message exists
  the part is never sent again and never confirmed.\<close>

theorem failed_resend_strands_part:
  assumes "\<forall>tr friend type d. tx_send env tr friend type d = 0"
    "q_heap (w_q w) a = Some m" "a < w_brk w" "i < length (fragments m)" "i < unat (lastSent m + 1)" "f_receipt (fragments m ! i) \<noteq> 0"
    "receiptsNum (w_rt w) \<noteq> 0"
    "\<forall>j < length (rt_receipts (w_rt w)). awaits a i (rt_receipts (w_rt w) ! j) \<longrightarrow> receiptsLo (w_rt w) \<le> j \<and>
       j < receiptsHi (w_rt w) \<and> expired (w_params w) (clock env (w_trace w)) (rt_receipts (w_rt w) ! j)"
    "resendExpiredReceipts fuel env w = Inr w1" "goes_on env' w1 w2" "q_heap (w_q w2) a = Some m'"
  shows "fragments m' ! i = fragments m ! i \<and> (\<forall>x\<in>set (rt_receipts (w_rt w2)). \<not> awaits a i x)"
proof -
  let ?f = "fragments m ! i" and ?w = "emit (Clock (clock env (w_trace w))) w"
  have "resendLoop fuel env (clock env (w_trace w)) (receiptsLo (w_rt w)) ?w = Inr w1"
    using assms(7,9) by (simp add: resendExpiredReceipts_def getCurrTimeMs_def Let_def)
  moreover have "sealedAt a i ?f (w_q ?w)" using assms(2,4,5) by (simp add: sealedAt_def sealed_def)
  ultimately have "stuck a i ?f w1"
    using assms(3,8) by (intro resend_refused [OF assms(1), of fuel "clock env (w_trace w)" "receiptsLo (w_rt w)" ?w]) (simp_all add: emit_def)
  from stuck_goes_on [OF assms(10) this assms(6)] assms(11) show ?thesis by (simp add: stuck_def sealedAt_def sealed_def)
qed

text \<open>A message of one part that waits for its receipt, and tox while the friend is offline.\<close>

definition world_waiting :: world where
  "world_waiting = world_ready\<lparr>w_brk := 2, w_q := \<lparr>q_heap = [1 \<mapsto> (newMsgOutbound 7 1 [(newFragment [0x68])\<lparr>f_receipt := 5, f_timesSent := 1\<rparr>])
       \<lparr>m_prev := Some 1, m_next := Some 1, numTransit := 1\<rparr>], msgsOutbound = Some 1\<rparr>,
     w_rt := \<lparr>rt_receipts = \<lparr>r_receipt = 5, r_msg = Some 1, r_partNo = 1, r_timestamp = 0\<rparr> # replicate 31 rr0,
       receiptsLo = 0, receiptsHi = 1, receiptsNum = 1, receiptsAlloc = 32\<rparr>\<rparr>"

definition env_offline :: env where
  "env_offline = env_default\<lparr>tx_send := \<lambda>tr friend type d. 0, tx_online := \<lambda>tr friend. False\<rparr>"

theorem failed_resend_strands_part_witness:
  "\<exists>w1 w2 m. resendExpiredReceipts 3 env_offline world_waiting = Inr w1 \<and> doPeriodic 3 env_default w1 = Inr w2 \<and>
     q_heap (w_q w2) 1 = Some m \<and> numTransit m = 0 \<and> numConfirmed m = 0 \<and> f_timesSent (fragments m ! 0) = 1 \<and> f_confirmed (fragments m ! 0) = 0"
proof -
  let ?w = world_waiting
  let ?m = "(newMsgOutbound 7 1 [(newFragment [0x68])\<lparr>f_receipt := 5, f_timesSent := 1\<rparr>])\<lparr>m_prev := Some 1, m_next := Some 1, numTransit := 1\<rparr>"
  have m: "q_heap (w_q ?w) 1 = Some ?m" by (simp add: world_waiting_def)
  have awaits: "\<forall>j < length (rt_receipts (w_rt ?w)). awaits 1 0 (rt_receipts (w_rt ?w) ! j) \<longrightarrow> receiptsLo (w_rt ?w) \<le> j \<and>
       j < receiptsHi (w_rt ?w) \<and> expired (w_params ?w) (clock env_offline (w_trace ?w)) (rt_receipts (w_rt ?w) ! j)"
    by (auto simp: world_waiting_def awaits_def expired_def nth_Cons' world_ready_def world0_def params_default_def env_offline_def env_default_def)
  obtain w1 where w1: "resendExpiredReceipts 3 env_offline ?w = Inr w1" "q_heap (w_q w1) 1 = Some (?m\<lparr>numTransit := 0, numLoss := 1\<rparr>)"
    "msgsOutbound (w_q w1) = Some 1" "receiptsNum (w_rt w1) = 0" "initializedApi w1" "initializedDb w1" "w_params w1 = params_default"
    by (simp add: resendExpiredReceipts_def outside_defs numeral_3_eq_3 world_waiting_def world_ready_def world0_def params_default_def
        env_offline_def env_default_def emit_def updMsgW_def updMsg_def msgSendPart_def derefW_def deref_def newMsgOutbound_def newFragment_def)
  obtain w2 where w2: "doPeriodic 3 env_default w1 = Inr w2" "q_heap (w_q w2) 1 = Some (?m\<lparr>numTransit := 0, numLoss := 1\<rparr>)"
    using w1(2-7) by (simp add: doPeriodic_def resendExpiredReceipts_def outside_defs numeral_3_eq_3 sendMore_def emit_def derefW_def deref_def
        msgSendNextParts_def newMsgOutbound_def newFragment_def env_default_def params_default_def)
  have "goes_on env_default w1 w2" by (rule goes_on.periodic [OF goes_on.now w2(1)])
  from failed_resend_strands_part [OF _ m _ _ _ _ _ awaits w1(1) this w2(2)] w1(1) w2 show ?thesis
    by (auto simp: world_waiting_def env_offline_def newMsgOutbound_def newFragment_def)
qed

subsection \<open>What is sent again\<close>

text \<open>
  The records in the array up to \<open>receiptsHi\<close>, and adding one whose receipt is above all of them,
  whether there are gaps or not.
\<close>

definition used :: "rtable \<Rightarrow> receipt_record list" where
  "used t = take (receiptsHi t) (rt_receipts t)"

definition rt_tidy :: "rtable \<Rightarrow> bool" where
  "rt_tidy t \<longleftrightarrow> rt_bounds t \<and> 0 < receiptsAlloc t"

lemma length_used: "rt_tidy t \<Longrightarrow> length (used t) = receiptsHi t"
  by (simp add: used_def rt_tidy_def rt_bounds_def)

lemma recs_used: "recs t = drop (receiptsLo t) (used t)"
  by (simp add: recs_def used_def drop_take)

lemma add_above:
  assumes "rt_tidy t" "r_receipt new \<noteq> 0" "\<forall>x\<in>set (used t). r_receipt x < r_receipt new"
  obtains t' where "addReceipt t new = Inr t'" "rt_tidy t'" "used t' = used t @ [new]" "receiptsLo t' = receiptsLo t"
proof -
  let ?hi = "receiptsHi t"
  define t1 where "t1 = (if ?hi = receiptsAlloc t then growTable t else t)"
  define t' where "t' = t1\<lparr>rt_receipts := (rt_receipts t1)[?hi := new], receiptsHi := ?hi + 1, receiptsNum := receiptsNum t1 + 1\<rparr>"
  have b: "receiptsLo t \<le> ?hi" "?hi \<le> receiptsAlloc t" "length (rt_receipts t) = receiptsAlloc t" "0 < receiptsAlloc t"
    using assms(1) by (simp_all add: rt_tidy_def rt_bounds_def)
  have t1: "?hi < length (rt_receipts t1)" "length (rt_receipts t1) = receiptsAlloc t1" "receiptsLo t1 = receiptsLo t"
    "receiptsHi t1 = ?hi" "take ?hi (rt_receipts t1) = used t"
    using b by (auto simp: t1_def used_def)
  have last: "r_receipt (rt_receipts t ! (?hi - 1)) < r_receipt new" if "?hi \<noteq> 0"
  proof -
    have "used t ! (?hi - 1) \<in> set (used t)" using that by (intro nth_mem) (simp add: length_used [OF assms(1)])
    moreover have "used t ! (?hi - 1) = rt_receipts t ! (?hi - 1)" using that by (simp add: used_def)
    ultimately show ?thesis using assms(3) by auto
  qed
  have above: "(if ?hi = 0 then Inr True
      else bindR (readAt (rt_receipts t) (?hi - 1)) (\<lambda>r. Inr (r_receipt r < r_receipt new))) = Inr True"
    using last b by simp
  have wr: "writeAt (rt_receipts t1) ?hi new = Inr ((rt_receipts t1)[?hi := new])" using t1(1) by simp
  have "addReceipt t new = Inr t'"
    unfolding addReceipt_def Let_def t1_def [symmetric] above bindR_Inr if_True t1(4) wr by (simp add: t'_def)
  moreover have "rt_tidy t'" using t1 b(1) by (simp add: rt_tidy_def rt_bounds_def t'_def)
  moreover have "used t' = used t @ [new]" using t1 by (simp add: used_def t'_def take_Suc_conv_app_nth)
  moreover have "receiptsLo t' = receiptsLo t" using t1(3) by (simp add: t'_def)
  ultimately show thesis by (rule that)
qed

text \<open>
  Tox gave out every number in the table for a message to \<open>friend\<close>; a record that is waited for is of a
  part of a message on the heap, which is for \<open>friend\<close>.
\<close>

definition issued :: "env \<Rightarrow> u32 \<Rightarrow> world \<Rightarrow> bool" where
  "issued env friend w \<longleftrightarrow> genuine env (w_trace w) \<and> (\<forall>x\<in>set (used (w_rt w)). r_receipt x \<noteq> 0 \<longrightarrow>
     (\<exists>type d. ToxSend friend type d (r_receipt x) \<in> set (w_trace w)))"

definition live :: "u32 \<Rightarrow> outq \<Rightarrow> receipt_record \<Rightarrow> bool" where
  "live friend q x \<longleftrightarrow> (\<exists>a m. r_msg x = Some a \<and> q_heap q a = Some m \<and> friend_number m = friend \<and>
     unat (r_partNo x - 1) < length (fragments m))"

definition wireOf :: "outq \<Rightarrow> receipt_record \<Rightarrow> u32 \<times> int \<times> byte list option" where
  "wireOf q x = (case r_msg x of Some a \<Rightarrow> (case q_heap q a of Some m \<Rightarrow>
     (friend_number m, m_type m, f_data (fragments m ! unat (r_partNo x - 1)))))"

fun sendsOf :: "event list \<Rightarrow> ((u32 \<times> int \<times> byte list option) \<times> u32) list" where
  "sendsOf [] = []"
| "sendsOf (ToxSend friend type d r # tr) = ((friend, type, d), r) # sendsOf tr"
| "sendsOf (ev # tr) = sendsOf tr"

lemma sendsOf_append [simp]: "sendsOf (tr @ tr') = sendsOf tr @ sendsOf tr'"
  by (induction tr rule: sendsOf.induct) simp_all

definition cleared :: "params \<Rightarrow> u64 \<Rightarrow> receipt_record \<Rightarrow> receipt_record" where
  "cleared p t x = (if expired p t x then x\<lparr>r_receipt := 0\<rparr> else x)"

text \<open>The records that follow from tox's answers \<open>rs\<close> to the parts sent again.\<close>

definition renewed :: "receipt_record list \<Rightarrow> u32 list \<Rightarrow> (u32 \<times> addr option \<times> u32) list" where
  "renewed xs rs = map (\<lambda>(x, r). (r, r_msg x, r_partNo x)) (filter (\<lambda>(x, r). r \<noteq> 0) (zip xs rs))"

text \<open>Messages change, but not whom they are for and what they say.\<close>

definition same_content :: "outq \<Rightarrow> outq \<Rightarrow> bool" where
  "same_content q q' \<longleftrightarrow> (\<forall>a. map_option (\<lambda>m. (friend_number m, m_type m, map f_data (fragments m))) (q_heap q' a) =
     map_option (\<lambda>m. (friend_number m, m_type m, map f_data (fragments m))) (q_heap q a))"

lemma same_content_refl: "same_content q q"
  by (simp add: same_content_def)

lemma same_content_trans: "same_content q q' \<Longrightarrow> same_content q' q'' \<Longrightarrow> same_content q q''"
  by (simp add: same_content_def)

lemma same_content_upd:
  "q_heap q a = Some m \<Longrightarrow> friend_number m' = friend_number m \<Longrightarrow> m_type m' = m_type m \<Longrightarrow>
     map f_data (fragments m') = map f_data (fragments m) \<Longrightarrow> same_content q (q\<lparr>q_heap := (q_heap q)(a \<mapsto> m')\<rparr>)"
  by (simp add: same_content_def)

lemma live_same:
  assumes "same_content q q'" "live friend q x"
  shows "live friend q' x" "wireOf q' x = wireOf q x"
proof -
  obtain a m where a: "r_msg x = Some a" "q_heap q a = Some m" "unat (r_partNo x - 1) < length (fragments m)" "friend_number m = friend"
    using assms(2) by (auto simp: live_def)
  have "map_option (\<lambda>m. (friend_number m, m_type m, map f_data (fragments m))) (q_heap q' a) =
      map_option (\<lambda>m. (friend_number m, m_type m, map f_data (fragments m))) (q_heap q a)"
    using assms(1) unfolding same_content_def by (rule spec)
  then obtain m' where m': "q_heap q' a = Some m'" "friend_number m' = friend_number m" "m_type m' = m_type m"
    "map f_data (fragments m') = map f_data (fragments m)"
    by (auto simp: a(2))
  have len: "length (fragments m') = length (fragments m)" using m'(4) by (metis length_map)
  have "f_data (fragments m' ! unat (r_partNo x - 1)) = f_data (fragments m ! unat (r_partNo x - 1))"
    using m'(4) a(3) len by (metis nth_map)
  then show "live friend q' x" "wireOf q' x = wireOf q x" using a m' len by (simp_all add: live_def wireOf_def)
qed

text \<open>The clock does not go back by more than the expiration time.\<close>

definition steady :: "env \<Rightarrow> u64 \<Rightarrow> world \<Rightarrow> bool" where
  "steady env t w \<longleftrightarrow> (\<forall>evs. t \<le> clock env (w_trace w @ evs) + ucast (receiptExpirationTimeMs (w_params w)))"

lemma resendLoop_skips:
  "rt_tidy (w_rt w) \<Longrightarrow> \<forall>x\<in>set (drop i (used (w_rt w))). \<not> expired (w_params w) t x \<Longrightarrow> i \<le> receiptsHi (w_rt w) \<Longrightarrow>
     receiptsHi (w_rt w) < i + fuel \<Longrightarrow> resendLoop fuel env t i w = Inr w"
proof (induction fuel arbitrary: i)
  case (Suc fuel)
  show ?case
  proof (cases "i < receiptsHi (w_rt w)")
    case True
    have len: "i < length (used (w_rt w))" using True by (simp add: length_used [OF Suc.prems(1)])
    then have d: "drop i (used (w_rt w)) = used (w_rt w) ! i # drop (i + 1) (used (w_rt w))" by (simp add: Cons_nth_drop_Suc)
    have "resendLoop fuel env t (i + 1) w = Inr w" by (rule Suc.IH) (use Suc.prems d True in simp_all)
    moreover have "\<not> expired (w_params w) t (rt_receipts (w_rt w) ! i)" using Suc.prems(2) d True by (simp add: used_def)
    moreover have "i < length (rt_receipts (w_rt w))" using True Suc.prems(1) by (simp add: rt_tidy_def rt_bounds_def)
    ultimately show ?thesis using True by (auto simp: expired_def)
  qed simp
qed simp

lemma resend_one:
  assumes env: "tox_receipts_ok env n" "sentNum w < n" and w: "rt_tidy (w_rt w)" "issued env friend w" "steady env t w"
    and i: "i < receiptsHi (w_rt w)" and x: "expired (w_params w) t (used (w_rt w) ! i)" "live friend (w_q w) (used (w_rt w) ! i)"
  obtains w' r new where "resendLoop (Suc fuel) env t i w = resendLoop fuel env t (i + 1) w'"
    "rt_tidy (w_rt w')" "issued env friend w'" "steady env t w'" "w_params w' = w_params w" "same_content (w_q w) (w_q w')"
    "receiptsLo (w_rt w') = receiptsLo (w_rt w)" "sendsOf (w_trace w') = sendsOf (w_trace w) @ [(wireOf (w_q w) (used (w_rt w) ! i), r)]"
    "used (w_rt w') = (used (w_rt w))[i := cleared (w_params w) t (used (w_rt w) ! i)] @ new"
    "map (\<lambda>y. (r_receipt y, r_msg y, r_partNo y)) new = renewed [used (w_rt w) ! i] [r]"
    "\<forall>y\<in>set new. \<not> expired (w_params w) t y" "sentNum w' = sentNum w + 1"
proof -
  let ?x = "used (w_rt w) ! i" and ?rt = "w_rt w"
  define x0 where "x0 = ?x\<lparr>r_receipt := 0\<rparr>"
  define rt0 where "rt0 = ?rt\<lparr>rt_receipts := (rt_receipts ?rt)[i := x0], receiptsNum := receiptsNum ?rt - 1\<rparr>"
  obtain a m where a: "r_msg ?x = Some a" "q_heap (w_q w) a = Some m" "unat (r_partNo ?x - 1) < length (fragments m)" "friend_number m = friend"
    using x(2) by (auto simp: live_def)
  define k where "k = unat (r_partNo ?x - 1)"
  have part: "of_nat (k + 1) = r_partNo ?x" by (simp add: k_def)
  define m1 where "m1 = m\<lparr>numTransit := numTransit m - 1, numLoss := numLoss m + 1\<rparr>"
  define w1 where "w1 = w\<lparr>w_rt := rt0, w_q := (w_q w)\<lparr>q_heap := (q_heap (w_q w))(a \<mapsto> m1)\<rparr>\<rparr>"
  have nth: "rt_receipts ?rt ! i = ?x" "i < length (rt_receipts ?rt)" using i w(1) by (simp_all add: used_def rt_tidy_def rt_bounds_def)
  have upd: "updMsgW (w\<lparr>w_rt := rt0\<rparr>) (Some a) (\<lambda>m. m\<lparr>numTransit := numTransit m - 1, numLoss := numLoss m + 1\<rparr>) = Inr w1"
    using a(2) by (subst updMsgW_at [of _ _ m]) (simp_all add: w1_def m1_def)
  have loop: "resendLoop (Suc fuel) env t i w = bindR (msgSendPart env w1 (Some a) k) (\<lambda>(ok, w). resendLoop fuel env t (i + 1) w)"
    using i x(1) nth upd by (simp add: expired_def a(1) rt0_def x0_def k_def)
  have m1: "q_heap (w_q w1) a = Some m1" "k < length (fragments m1)" using a(3) by (simp_all add: w1_def m1_def k_def)
  have w1: "w_trace w1 = w_trace w" "w_params w1 = w_params w" "w_rt w1 = rt0" by (simp_all add: w1_def)
  have rt0: "rt_tidy rt0" "receiptsLo rt0 = receiptsLo ?rt" "used rt0 = (used ?rt)[i := x0]"
    using w(1) by (simp_all add: rt0_def rt_tidy_def rt_bounds_def used_def take_update_swap)
  have x0: "cleared (w_params w) t ?x = x0" "r_receipt x0 = 0" using x(1) by (simp_all add: cleared_def x0_def)
  have issued0: "\<exists>type d. ToxSend friend type d (r_receipt y) \<in> set (w_trace w)" if "y \<in> set (used rt0)" "r_receipt y \<noteq> 0" for y
    using that w(2) x0(2) rt0(3) by (auto simp: issued_def dest!: subsetD [OF set_update_subset_insert])
  have wire: "wireOf (w_q w) ?x = (friend_number m1, m_type m1, f_data (fragments m1 ! k))"
    using a(1,2) by (simp add: wireOf_def m1_def k_def)
  have fr: "friend_number m1 = friend" using a(4) by (simp add: m1_def)
  have gen: "genuine env (w_trace w)" using w(2) by (simp add: issued_def)
  have same: "same_content (w_q w) (w_q w1)" unfolding w1_def by (simp add: same_content_upd [OF a(2)] m1_def)
  define r where "r = tx_send env (w_trace w1) (friend_number m1) (m_type m1) (f_data (fragments m1 ! k))"
  define ev where "ev = ToxSend (friend_number m1) (m_type m1) (f_data (fragments m1 ! k)) r"
  note go = msgSendPart_go [OF m1, of env, folded r_def, folded ev_def]
  show thesis
  proof (cases "r = 0")
    case True
    show thesis
    proof (rule that [of "emit ev w1" r "[]"])
      show "resendLoop (Suc fuel) env t i w = resendLoop fuel env t (i + 1) (emit ev w1)" using loop go(1) [OF True] by simp
      show "issued env friend (emit ev w1)" using issued0 gen
        by (fastforce simp: issued_def emit_def w1 genuine_snoc ev_def r_def)
      show "steady env t (emit ev w1)" using w(3) by (simp add: steady_def emit_def w1)
    qed (use rt0 same x0 wire True in \<open>simp_all add: emit_def w1 ev_def renewed_def\<close>)
  next
    case False
    let ?now = "clock env (w_trace w1 @ [ev])"
    define y where "y = \<lparr>r_receipt = r, r_msg = Some a, r_partNo = of_nat (k + 1), r_timestamp = ?now\<rparr>"
    have y: "r_receipt y = r" "r_msg y = r_msg ?x" "r_partNo y = r_partNo ?x" "r_timestamp y = ?now"
      using part by (simp_all add: y_def a(1))
    have above: "\<forall>z\<in>set (used rt0). r_receipt z < r_receipt y"
    proof
      fix z assume z: "z \<in> set (used rt0)"
      show "r_receipt z < r_receipt y"
      proof (cases "r_receipt z = 0")
        case True
        then show ?thesis using False by (simp add: y(1) word_neq_0_conv)
      next
        case nz: False
        from issued0 [OF z this] env gen False show ?thesis unfolding tox_receipts_ok_def r_def y(1) w1(1) fr by blast
      qed
    qed
    have "r_receipt y \<noteq> 0" using False by (simp add: y(1))
    then obtain rt where rt: "addReceipt rt0 y = Inr rt" "rt_tidy rt" "used rt = used rt0 @ [y]" "receiptsLo rt = receiptsLo rt0"
      by (rule add_above [OF rt0(1) _ above])
    define w2 where "w2 = w1\<lparr>w_q := (w_q w1)\<lparr>q_heap := (q_heap (w_q w1))(a \<mapsto> partSent k r m1)\<rparr>, w_rt := rt,
      w_trace := w_trace w1 @ [ev, Clock ?now]\<rparr>"
    have "msgSendPart env w1 (Some a) k = Inr (True, w2)"
      unfolding w2_def by (rule go(2) [OF False]) (use rt(1) in \<open>simp add: w1(3) y_def\<close>)
    then have run: "resendLoop (Suc fuel) env t i w = resendLoop fuel env t (i + 1) w2" using loop by simp
    have data: "map f_data (fragments (partSent k r m1)) = map f_data (fragments m1)"
      using m1(2) by (auto simp: list_eq_iff_nth_eq nth_list_update)
    have q2: "w_q w2 = (w_q w1)\<lparr>q_heap := (q_heap (w_q w1))(a \<mapsto> partSent k r m1)\<rparr>" by (simp add: w2_def)
    have "same_content (w_q w1) (w_q w2)" unfolding q2 by (rule same_content_upd [OF m1(1) _ _ data]) simp_all
    with same have same2: "same_content (w_q w) (w_q w2)" by (rule same_content_trans)
    have w2: "w_rt w2 = rt" "w_trace w2 = w_trace w @ [ev, Clock ?now]" "w_params w2 = w_params w" by (simp_all add: w2_def w1)
    show thesis
    proof (rule that [of w2 r "[y]"])
      have "genuine env (w_trace w2)" using gen by (simp add: w2(2) ev_def r_def w1(1) genuine_send)
      then show "issued env friend w2" using issued0 rt(3) fr by (fastforce simp: issued_def w2 ev_def y(1))
      show "steady env t w2" using w(3) by (simp add: steady_def w2)
      show "\<forall>z\<in>set [y]. \<not> expired (w_params w) t z"
        using w(3) [unfolded steady_def, THEN spec, of "[ev]"] by (simp add: expired_def y(4) w1(1) not_less)
    qed (use run same2 rt rt0 x0 wire False y in \<open>simp_all add: w2 ev_def renewed_def\<close>)
  qed
qed

text \<open>
  The loop: \<open>todo\<close> is what is left of the records that were there at the start, \<open>fresh\<close> the records that
  it has added itself, which it passes over at the end.
\<close>

lemma renewed_Cons: "renewed (x # xs) (r # rs) = renewed [x] [r] @ renewed xs rs"
  by (simp add: renewed_def)

lemma resendLoop_runs:
  assumes env: "tox_receipts_ok env n"
  shows "rt_tidy (w_rt w) \<Longrightarrow> issued env friend w \<Longrightarrow> steady env t w \<Longrightarrow> i \<le> receiptsHi (w_rt w) \<Longrightarrow>
    drop i (used (w_rt w)) = todo @ fresh \<Longrightarrow> \<forall>x\<in>set todo. expired (w_params w) t x \<longrightarrow> live friend (w_q w) x \<Longrightarrow>
    \<forall>x\<in>set fresh. \<not> expired (w_params w) t x \<Longrightarrow> 2 * length todo + length fresh < fuel \<Longrightarrow> sentNum w + length todo \<le> n \<Longrightarrow>
    \<exists>w' rs new. resendLoop fuel env t i w = Inr w' \<and> receiptsLo (w_rt w') = receiptsLo (w_rt w) \<and>
      used (w_rt w') = take i (used (w_rt w)) @ map (cleared (w_params w) t) todo @ fresh @ new \<and>
      length rs = length (filter (expired (w_params w) t) todo) \<and>
      sendsOf (w_trace w') = sendsOf (w_trace w) @ zip (map (wireOf (w_q w)) (filter (expired (w_params w) t) todo)) rs \<and>
      map (\<lambda>y. (r_receipt y, r_msg y, r_partNo y)) new = renewed (filter (expired (w_params w) t) todo) rs \<and>
      same_content (w_q w) (w_q w')"
proof (induction todo arbitrary: w i fresh fuel)
  case Nil
  have len: "length fresh = receiptsHi (w_rt w) - i" using Nil.prems(5) length_used [OF Nil.prems(1)] by (metis append_Nil length_drop)
  have "resendLoop fuel env t i w = Inr w"
    by (rule resendLoop_skips [OF Nil.prems(1)]) (use Nil.prems(4,5,7,8) len in auto)
  moreover have "used (w_rt w) = take i (used (w_rt w)) @ fresh" using Nil.prems(5) by (metis append_Nil append_take_drop_id)
  ultimately show ?case by (intro exI [of _ w] exI [of _ "[]"]) (simp add: renewed_def same_content_refl)
next
  case (Cons x todo)
  let ?used = "used (w_rt w)" and ?ex = "expired (w_params w) t"
  obtain f where f: "fuel = Suc f" "2 * length todo + length fresh + 1 < f" using Cons.prems(8) by (cases fuel) simp_all
  have hi: "i < length ?used"
  proof (rule ccontr)
    assume "\<not> i < length ?used"
    then show False using Cons.prems(5) by simp
  qed
  then have i: "i < receiptsHi (w_rt w)" by (simp add: length_used [OF Cons.prems(1)])
  have d: "?used ! i = x" "drop (i + 1) ?used = todo @ fresh"
    using Cons_nth_drop_Suc [OF hi] Cons.prems(5) by simp_all
  have before: "take (i + 1) ?used = take i ?used @ [x]" using d(1) take_Suc_conv_app_nth [OF hi] by simp
  show ?case
  proof (cases "?ex x")
    case False
    have "rt_receipts (w_rt w) ! i = x" "i < length (rt_receipts (w_rt w))" using d(1) i Cons.prems(1) by (simp_all add: used_def rt_tidy_def rt_bounds_def)
    then have go: "resendLoop fuel env t i w = resendLoop f env t (i + 1) w" using i False by (auto simp: f(1) expired_def)
    have "\<exists>w' rs new. resendLoop f env t (i + 1) w = Inr w' \<and> receiptsLo (w_rt w') = receiptsLo (w_rt w) \<and>
      used (w_rt w') = take (i + 1) ?used @ map (cleared (w_params w) t) todo @ fresh @ new \<and>
      length rs = length (filter ?ex todo) \<and>
      sendsOf (w_trace w') = sendsOf (w_trace w) @ zip (map (wireOf (w_q w)) (filter ?ex todo)) rs \<and>
      map (\<lambda>y. (r_receipt y, r_msg y, r_partNo y)) new = renewed (filter ?ex todo) rs \<and> same_content (w_q w) (w_q w')"
      by (rule Cons.IH [OF Cons.prems(1-3) _ d(2)]) (use i f(2) Cons.prems(6,7,9) in simp_all)
    moreover have "cleared (w_params w) t x = x" using False by (simp add: cleared_def)
    ultimately show ?thesis unfolding go before using False by simp
  next
    case exp: True
    have room: "sentNum w < n" using Cons.prems(9) by simp
    have live: "live friend (w_q w) x" using Cons.prems(6) exp by simp
    obtain w2 r new1 where one: "resendLoop (Suc f) env t i w = resendLoop f env t (i + 1) w2"
      "rt_tidy (w_rt w2)" "issued env friend w2" "steady env t w2" and par: "w_params w2 = w_params w" and same: "same_content (w_q w) (w_q w2)"
      and lo: "receiptsLo (w_rt w2) = receiptsLo (w_rt w)" and sent: "sendsOf (w_trace w2) = sendsOf (w_trace w) @ [(wireOf (w_q w) x, r)]"
      and used: "used (w_rt w2) = ?used[i := cleared (w_params w) t x] @ new1"
      and new1: "map (\<lambda>y. (r_receipt y, r_msg y, r_partNo y)) new1 = renewed [x] [r]" "\<forall>y\<in>set new1. \<not> ?ex y"
      and num: "sentNum w2 = sentNum w + 1"
      by (rule resend_one [OF env room Cons.prems(1-3) i, where fuel = f, unfolded d(1), OF exp live], rule that, assumption+)
    have drop2: "drop (i + 1) (used (w_rt w2)) = todo @ fresh @ new1" using d(2) hi by (simp add: used)
    have take2: "take (i + 1) (used (w_rt w2)) = take i ?used @ [cleared (w_params w) t x]"
      using hi by (simp add: used take_Suc_conv_app_nth)
    have len1: "length new1 \<le> 1" using arg_cong [OF new1(1), of length] by (simp add: renewed_def split: if_splits)
    have hi2: "i + 1 \<le> receiptsHi (w_rt w2)" using arg_cong [OF used, of length] hi by (simp add: length_used [OF one(2)])
    have live2: "\<forall>x\<in>set todo. expired (w_params w2) t x \<longrightarrow> live friend (w_q w2) x"
      using Cons.prems(6) live_same(1) [OF same] by (simp add: par)
    have "\<forall>x\<in>set (fresh @ new1). \<not> expired (w_params w2) t x" "2 * length todo + length (fresh @ new1) < f" "sentNum w2 + length todo \<le> n"
      using Cons.prems(7,9) new1(2) len1 f(2) num by (auto simp: par)
    from Cons.IH [OF one(2-4) hi2 drop2 live2 this] obtain w' rs new where
      ih: "resendLoop f env t (i + 1) w2 = Inr w'" "receiptsLo (w_rt w') = receiptsLo (w_rt w2)"
      "used (w_rt w') = take (i + 1) (used (w_rt w2)) @ map (cleared (w_params w2) t) todo @ (fresh @ new1) @ new"
      "length rs = length (filter (expired (w_params w2) t) todo)"
      "sendsOf (w_trace w') = sendsOf (w_trace w2) @ zip (map (wireOf (w_q w2)) (filter (expired (w_params w2) t) todo)) rs"
      "map (\<lambda>y. (r_receipt y, r_msg y, r_partNo y)) new = renewed (filter (expired (w_params w2) t) todo) rs"
      "same_content (w_q w2) (w_q w')" by blast
    have wires: "map (wireOf (w_q w2)) (filter ?ex todo) = map (wireOf (w_q w)) (filter ?ex todo)"
      using Cons.prems(6) live_same(2) [OF same] by auto
    show ?thesis
    proof (intro exI conjI)
      show "resendLoop fuel env t i w = Inr w'" using one(1) ih(1) by (simp only: f(1))
      show "used (w_rt w') = take i ?used @ map (cleared (w_params w) t) (x # todo) @ fresh @ new1 @ new"
        unfolding ih(3) take2 par by simp
      show "length (r # rs) = length (filter ?ex (x # todo))" using exp ih(4) by (simp add: par)
      show "sendsOf (w_trace w') = sendsOf (w_trace w) @ zip (map (wireOf (w_q w)) (filter ?ex (x # todo))) (r # rs)"
        using exp by (simp add: ih(5) sent par wires)
      show "map (\<lambda>y. (r_receipt y, r_msg y, r_partNo y)) (new1 @ new) = renewed (filter ?ex (x # todo)) (r # rs)"
        using exp by (simp add: ih(6) new1(1) par renewed_Cons [of x "filter ?ex todo"])
      show "same_content (w_q w) (w_q w')" using same ih(7) by (rule same_content_trans)
    qed (simp add: ih(2) lo)
  qed
qed

text \<open>C9. \<open>resendExpiredReceipts\<close> ends, although the table grows under its loop, and sends exactly the parts whose
  records have expired, each once and in the order of the table; these records are cleared, the others
  stay, and for each part that tox accepts a record with the new receipt is appended.  Fuel of twice the
  size of the table is enough.  It is assumed that the table awaits receipts of one friend only, to whom
  tox numbers its messages in ascending order, as it does for each friend, and that the clock does not go
  back by more than the expiration time.  There may be gaps in the table.\<close>

theorem resendExpired_correct:
  assumes "tox_receipts_ok env (sentNum w + length (recs (w_rt w)))" "rt_tidy (w_rt w)" "issued env friend w"
    "receiptsNum (w_rt w) \<noteq> 0" "steady env (clock env (w_trace w)) w"
    "\<forall>x\<in>set (recs (w_rt w)). expired (w_params w) (clock env (w_trace w)) x \<longrightarrow> live friend (w_q w) x"
    "2 * length (recs (w_rt w)) < fuel"
  shows "\<exists>w' rs new. let t = clock env (w_trace w); again = filter (expired (w_params w) t) (recs (w_rt w)) in
    resendExpiredReceipts fuel env w = Inr w' \<and> length rs = length again \<and>
    sendsOf (w_trace w') = sendsOf (w_trace w) @ zip (map (wireOf (w_q w)) again) rs \<and>
    recs (w_rt w') = map (cleared (w_params w) t) (recs (w_rt w)) @ new \<and>
    map (\<lambda>y. (r_receipt y, r_msg y, r_partNo y)) new = renewed again rs \<and> same_content (w_q w) (w_q w')"
proof -
  let ?t = "clock env (w_trace w)" and ?lo = "receiptsLo (w_rt w)"
  let ?w = "emit (Clock ?t) w"
  have lo: "?lo \<le> receiptsHi (w_rt w)" using assms(2) by (simp add: rt_tidy_def rt_bounds_def)
  have "issued env friend ?w" "steady env ?t ?w" using assms(3,5) by (simp_all add: issued_def steady_def emit_def)
  from resendLoop_runs [OF assms(1) _ this, where i = ?lo and todo = "recs (w_rt w)" and fresh = "[]" and fuel = fuel]
  obtain w' rs new where r: "resendLoop fuel env ?t ?lo ?w = Inr w'" "receiptsLo (w_rt w') = ?lo"
    "used (w_rt w') = take ?lo (used (w_rt w)) @ map (cleared (w_params w) ?t) (recs (w_rt w)) @ new"
    "length rs = length (filter (expired (w_params w) ?t) (recs (w_rt w)))"
    "sendsOf (w_trace w') = sendsOf (w_trace w) @ zip (map (wireOf (w_q w)) (filter (expired (w_params w) ?t) (recs (w_rt w)))) rs"
    "map (\<lambda>y. (r_receipt y, r_msg y, r_partNo y)) new = renewed (filter (expired (w_params w) ?t) (recs (w_rt w))) rs"
    "same_content (w_q w) (w_q w')"
    using assms(2,6,7) lo by (auto simp: recs_used)
  have "recs (w_rt w') = map (cleared (w_params w) ?t) (recs (w_rt w)) @ new"
    using lo by (simp add: recs_used [of "w_rt w'"] r(2,3) length_used [OF assms(2)])
  moreover have "resendExpiredReceipts fuel env w = Inr w'"
    using assms(4) r(1) by (simp add: resendExpiredReceipts_def getCurrTimeMs_def Let_def)
  ultimately show ?thesis using r(4-7) unfolding Let_def by blast
qed

text \<open>A message of one part, which tox has numbered 1 and which waits for its receipt.\<close>

definition world_sent :: world where
  "world_sent = world_waiting\<lparr>w_q := \<lparr>q_heap = [1 \<mapsto> (newMsgOutbound 7 1 [(newFragment [0x68])\<lparr>f_receipt := 1, f_timesSent := 1\<rparr>])
       \<lparr>m_prev := Some 1, m_next := Some 1, numTransit := 1\<rparr>], msgsOutbound = Some 1\<rparr>,
     w_rt := \<lparr>rt_receipts = \<lparr>r_receipt = 1, r_msg = Some 1, r_partNo = 1, r_timestamp = 0\<rparr> # replicate 31 rr0,
       receiptsLo = 0, receiptsHi = 1, receiptsNum = 1, receiptsAlloc = 32\<rparr>, w_trace := [ToxSend 0 0 (Some [0x68]) 1]\<rparr>"

theorem resendExpired_correct_witness:
  "\<exists>w' r new. resendExpiredReceipts 3 env_default world_sent = Inr w' \<and>
     sendsOf (w_trace w') = [((0, 0, Some [0x68]), 1), ((0, 0, Some [0x68]), r)] \<and>
     recs (w_rt w') = \<lparr>r_receipt = 0, r_msg = Some 1, r_partNo = 1, r_timestamp = 0\<rparr> # new"
proof -
  let ?w = world_sent and ?x = "\<lparr>r_receipt = 1, r_msg = Some 1, r_partNo = 1, r_timestamp = 0\<rparr> :: receipt_record"
  have rt: "recs (w_rt ?w) = [?x]" "used (w_rt ?w) = [?x]" "rt_tidy (w_rt ?w)" "receiptsNum (w_rt ?w) \<noteq> 0"
    by (simp_all add: world_sent_def recs_def used_def rt_tidy_def rt_bounds_def)
  have tr: "w_trace ?w = [ToxSend 0 0 (Some [0x68]) 1]" by (simp add: world_sent_def)
  have par: "w_params ?w = params_default" by (simp add: world_sent_def world_waiting_def world_ready_def world0_def)
  have ex: "expired (w_params ?w) (clock env_default (w_trace ?w)) ?x" by (simp add: expired_def par params_default_def env_default_def)
  have "live 0 (w_q ?w) ?x" "wireOf (w_q ?w) ?x = (0, 0, Some [0x68])"
    by (simp_all add: live_def wireOf_def world_sent_def newMsgOutbound_def newFragment_def)
  moreover have "genuine env_default ([] @ [ToxSend 0 0 (Some [0x68]) 1])" unfolding genuine_snoc by (simp add: env_default_def)
  then have "issued env_default 0 ?w" using rt(2) tr by (simp add: issued_def)
  moreover have "steady env_default (clock env_default (w_trace ?w)) ?w"
    by (simp add: steady_def env_default_def par params_default_def word_le_nat_alt)
  moreover have "tox_receipts_ok env_default (sentNum ?w + length (recs (w_rt ?w)))" by (rule env_default_ok(1)) (simp add: tr rt(1))
  ultimately have "\<exists>w' rs new. resendExpiredReceipts 3 env_default ?w = Inr w' \<and> length rs = 1 \<and>
      sendsOf (w_trace w') = sendsOf (w_trace ?w) @ zip [(0, 0, Some [0x68])] rs \<and>
      recs (w_rt w') = [cleared (w_params ?w) (clock env_default (w_trace ?w)) ?x] @ new"
    using resendExpired_correct [OF _ rt(3) _ rt(4), of env_default 0 3] rt(1) ex by (auto simp: Let_def simp del: world.simps)
  then show ?thesis using ex by (auto simp: cleared_def length_Suc_conv tr)
qed

end
