(* ===== verification/Thread.thy ===== *)
theory Thread
  imports Machine
begin

section \<open>The background thread\<close>

text \<open>
  The thread of the library from its creation in the constructor \<open>threadInit\<close> to its end in the
  destructor \<open>threadFini\<close>.  A process is the library, the stop flag and the point that the thread is
  at.  The thread moves between two calls of the client; the code has no lock that would keep it from
  running during one, and such races are not modelled.  What \<open>pthread_create\<close> and \<open>pthread_join\<close>
  return is the argument \<open>res\<close>.
\<close>

datatype thread_state =
    NotStarted
  | Testing    \<comment> \<open>before the test of \<open>threadStopFlag\<close>\<close>
  | Sleeping   \<comment> \<open>in \<open>sleep(2)\<close>\<close>
  | Ended      \<comment> \<open>\<open>threadRoutine\<close> has returned\<close>
  | Joined

record process =
  p_world :: world
  threadStopFlag :: bool
  p_thread :: thread_state

definition threadInit :: "int \<Rightarrow> process \<Rightarrow> process result" where
  "threadInit res p = (if res \<noteq> 0 then Inl Aborted else Inr (p\<lparr>p_thread := Testing\<rparr>))"

text \<open>One move of \<open>threadRoutine\<close>.\<close>

definition threadRoutine :: "nat \<Rightarrow> env \<Rightarrow> process \<Rightarrow> process result" where
  "threadRoutine fuel env p =
     (case p_thread p of
        Testing \<Rightarrow> Inr (p\<lparr>p_thread := if \<not> threadStopFlag p then Sleeping else Ended\<rparr>)
      | Sleeping \<Rightarrow> bindR (threadRound fuel env (p_world p)) (\<lambda>w. Inr (p\<lparr>p_world := w, p_thread := Testing\<rparr>))
      | _ \<Rightarrow> Inr p)"

text \<open>\<open>pthread_join\<close>: the caller waits while the thread moves, \<open>n\<close> times at most.\<close>

fun joinThread :: "nat \<Rightarrow> nat \<Rightarrow> env \<Rightarrow> process \<Rightarrow> process result" where
  "joinThread 0 fuel env p = Inl Diverges"
| "joinThread (Suc n) fuel env p =
     (if p_thread p = Ended then Inr (p\<lparr>p_thread := Joined\<rparr>)
      else bindR (threadRoutine fuel env p) (joinThread n fuel env))"

definition threadFini :: "nat \<Rightarrow> nat \<Rightarrow> env \<Rightarrow> int \<Rightarrow> process \<Rightarrow> process result" where
  "threadFini n fuel env res p =
     bindR (joinThread n fuel env (p\<lparr>threadStopFlag := True\<rparr>)) (\<lambda>p.
     if res \<noteq> 0 then Inl Aborted else Inr p)"

text \<open>The process: after the constructor the client and the thread take turns.\<close>

inductive proc_reachable :: "env \<Rightarrow> process \<Rightarrow> bool" for env where
  constructed: "threadInit 0 \<lparr>p_world = world0, threadStopFlag = False, p_thread = NotStarted\<rparr> = Inr p \<Longrightarrow> proc_reachable env p"
| client: "proc_reachable env p \<Longrightarrow> lib_step env (p_world p) w \<Longrightarrow> proc_reachable env (p\<lparr>p_world := w\<rparr>)"
| move: "proc_reachable env p \<Longrightarrow> threadRoutine fuel env p = Inr p' \<Longrightarrow> proc_reachable env p'"

lemma proc_reachable_world: "proc_reachable env p \<Longrightarrow> reachable env (p_world p)"
proof (induction rule: proc_reachable.induct)
  case (constructed p)
  then show ?case by (auto simp: threadInit_def intro: reachable.start)
next
  case (client p w)
  then show ?case by (auto intro: reachable.step)
next
  case (move p fuel p')
  show ?case
  proof (cases "p_thread p = Sleeping")
    case True
    then obtain w where "threadRound fuel env (p_world p) = Inr w" "p_world p' = w"
      using move.hyps(2) by (auto simp: threadRoutine_def bindR_eq_Inr)
    then show ?thesis using reachable.step [OF move.IH] lib_step.thread by blast
  next
    case False
    then have "p_world p' = p_world p" using move.hyps(2) by (auto simp: threadRoutine_def split: thread_state.splits)
    then show ?thesis using move.IH by simp
  qed
qed

lemma proc_reachable_running: "proc_reachable env p \<Longrightarrow> p_thread p \<in> {Testing, Sleeping} \<and> \<not> threadStopFlag p"
proof (induction rule: proc_reachable.induct)
  case (move p fuel p')
  then show ?case by (auto simp: threadRoutine_def bindR_eq_Inr)
qed (auto simp: threadInit_def)

text \<open>Once the flag is set the thread tests it after at most one more round, and then ends.\<close>

lemma join_testing:
  "p_thread p = Testing \<Longrightarrow> threadStopFlag p \<Longrightarrow> joinThread (Suc (Suc n)) fuel env p = Inr (p\<lparr>p_thread := Joined\<rparr>)"
  by (simp add: threadRoutine_def)

lemma join_sleeping:
  "p_thread p = Sleeping \<Longrightarrow> threadStopFlag p \<Longrightarrow> joinThread (Suc (Suc (Suc n))) fuel env p =
     bindR (threadRound fuel env (p_world p)) (\<lambda>w. Inr (p\<lparr>p_world := w, p_thread := Joined\<rparr>))"
  by (subst joinThread.simps) (cases "threadRound fuel env (p_world p)"; simp add: threadRoutine_def join_testing del: joinThread.simps)

text \<open>C26. The process can always end: in every state that the client and the thread can bring about, the destructor \<open>threadFini\<close> returns after at most three moves of the thread, which has then been joined, and the library is as it was.\<close>

theorem threadFini_joins:
  assumes "engine_ok (db_engine env)" "proc_reachable env p" "3 \<le> n"
  shows "threadFini n fuel env 0 p = Inr (p\<lparr>threadStopFlag := True, p_thread := Joined\<rparr>)"
proof -
  obtain k where n: "n = Suc (Suc (Suc k))" using assms(3) by (metis Suc_le_D Suc_le_mono numeral_3_eq_3)
  have "toxInstance (p_world p) = None"
    using reachable_inv [OF assms(1) proc_reachable_world [OF assms(2)]] by (simp add: machine_inv_def)
  then have "threadRound fuel env (p_world p) = Inr (p_world p)" by (simp add: threadRound_def)
  then show ?thesis
    using proc_reachable_running [OF assms(2)] join_testing [of "p\<lparr>threadStopFlag := True\<rparr>"] join_sleeping [of "p\<lparr>threadStopFlag := True\<rparr>"]
    by (auto simp: threadFini_def n simp del: joinThread.simps)
qed

theorem threadFini_joins_witness:
  "\<exists>p. proc_reachable env_default p \<and> p_thread p = Sleeping \<and>
     threadFini 3 1 env_default 0 p = Inr (p\<lparr>threadStopFlag := True, p_thread := Joined\<rparr>)"
proof -
  let ?p0 = "\<lparr>p_world = world0, threadStopFlag = False, p_thread = NotStarted\<rparr>"
  let ?p1 = "?p0\<lparr>p_thread := Testing\<rparr>" and ?p2 = "?p0\<lparr>p_thread := Sleeping\<rparr>"
  have "threadInit 0 ?p0 = Inr ?p1" by (simp add: threadInit_def)
  then have "proc_reachable env_default ?p1" by (rule proc_reachable.constructed)
  then have p2: "proc_reachable env_default ?p2"
    by (rule proc_reachable.move [where fuel = 1]) (simp add: threadRoutine_def)
  have "engine_ok (db_engine env_default)" by (simp add: env_default_def engine_default_ok)
  from threadFini_joins [OF this p2, of 3 1] p2 show ?thesis by (intro exI [of _ ?p2]) simp
qed

end
