(* ===== verification/System.thy ===== *)
theory System
  imports Delivery
begin

section \<open>Two peers\<close>

text \<open>
  The sender of theory \<open>Delivery\<close> and the receiver of theory \<open>Inbound\<close>, with a network between them that
  delivers the fragments in the order in which they are sent.
\<close>

subsection \<open>The receiver\<close>

lemma runInbound_append:
  "runInbound e db (ms @ ms') =
     bindR (runInbound e db ms) (\<lambda>(db, evs). bindR (runInbound e db ms') (\<lambda>(db, evs'). Inr (db, evs @ evs')))"
proof (induction e db ms rule: runInbound.induct)
  case (1 e db)
  then show ?case by (auto simp: bindR_def split: sum.split)
next
  case (2 e db friend type message now ms)
  then show ?case by (auto simp: bindR_def split: sum.split prod.split)
qed

text \<open>What the client is told of has the type of the call that completes it.\<close>

lemma finishInbound_type: "finishInbound friend type mid db = (db', Some r) \<Longrightarrow> rd_type r = type"
  by (auto simp: finishInbound_def Let_def split: option.splits if_splits)

lemma friend_message_cb_type:
  assumes "friend_message_cb e friend type message now db = Inr (db', evs)" "ClientMessage f t body \<in> set evs"
  shows "t = type"
  using assms
  by (auto simp: friend_message_cb_def processInFragment_def bindR_eq_Inr dbInsertInboundFragment_def Let_def
      storeFragment_def messageReady_def split: if_splits option.splits)
    (erule finishInbound_type)

text \<open>The fragments of one message arrive in order, part \<open>i\<close> with type \<open>ty i\<close>: the last one completes it.\<close>

lemma inbound_in_order:
  assumes "engine_ok e" "db_inv db" "63 < unat L" "wire_ok e L c" "selMeta db (im_key c) = None"
  shows "\<exists>db'. runInbound e db (map (\<lambda>i. (im_friend c, ty i, wire L c i, now)) [0..<im_total c]) =
    Inr (db', [ClientMessage (im_friend c) (ty (im_total c - 1)) (im_body c)])"
proof -
  let ?n = "im_total c" and ?ms = "\<lambda>k. map (\<lambda>i. (im_friend c, ty i, wire L c i, now)) [0..<k]"
  let ?es = "\<lambda>k. map (\<lambda>i. (c, i, ty i, now)) [0..<k]"
  have C: "inj_on im_key {c}" "\<forall>c'\<in>{c}. wire_ok e L c' \<and> selMeta db (im_key c') = None" using assms(4,5) by simp_all
  have arr: "arrived (?es k) c = {..<k}" for k by (auto simp: arrived_def image_iff)
  have msgs: "map (\<lambda>(c, i, type, now). (im_friend c, type, wire L c i, now)) (?es k) = ?ms k" for k by simp
  have del: "\<exists>db' ds. runInbound e db (?ms k) = Inr (db', map (\<lambda>(c, type). ClientMessage (im_friend c) type (im_body c)) ds) \<and>
      distinct (map fst ds) \<and> fst ` set ds = (if k = ?n then {c} else {})" if "k \<le> ?n" for k
  proof -
    have "\<forall>(c', i, a)\<in>set (?es k). c' \<in> {c} \<and> i < im_total c'" using that by auto
    moreover have "{c' \<in> {c}. arrived (?es k) c' = {..<im_total c'}} = (if arrived (?es k) c = {..<?n} then {c} else {})"
      by auto
    ultimately show ?thesis
      using inbound_delivers [OF assms(1-3) C, of "?es k"] unfolding msgs by (simp only: arr lessThan_eq_iff)
  qed
  have pos: "0 < ?n"
    using assms(4) by (simp add: wire_ok_def im_ok_def im_total_def pieceCount_pos)
  from del [of ?n] obtain db1 ds where all: "runInbound e db (?ms ?n) = Inr (db1, map (\<lambda>(c, type). ClientMessage (im_friend c) type (im_body c)) ds)"
    "distinct (map fst ds)" "fst ` set ds = {c}" by auto
  have "set (map fst ds) = {c}" using all(3) by simp
  with all(2) have "length ds = 1" by (metis card_1_singleton_iff distinct_card is_singletonI is_singleton_altdef length_map)
  then obtain t where ds: "ds = [(c, t)]" using all(3) by (cases ds) auto
  from del [of "?n - 1"] pos obtain db0 where pre: "runInbound e db (?ms (?n - 1)) = Inr (db0, [])"
    by (auto split: if_splits)
  have "?ms ?n = ?ms (?n - 1) @ [(im_friend c, ty (?n - 1), wire L c (?n - 1), now)]"
    using pos by (cases ?n) simp_all
  then have "bindR (runInbound e db0 [(im_friend c, ty (?n - 1), wire L c (?n - 1), now)]) (\<lambda>(db, evs). Inr (db, evs))
      = Inr (db1, [ClientMessage (im_friend c) t (im_body c)])"
    using all(1) by (simp only: runInbound_append pre bindR_Inr prod.case append_Nil ds list.map)
  then have "friend_message_cb e (im_friend c) (ty (?n - 1)) (wire L c (?n - 1)) now db0 = Inr (db1, [ClientMessage (im_friend c) t (im_body c)])"
    by (auto simp: bindR_eq_Inr)
  then have "t = ty (?n - 1)" by (rule friend_message_cb_type) simp
  then show ?thesis using all(1) by (auto simp: ds)
qed

subsection \<open>Properties\<close>

text \<open>The sender's fragments are those that the receiver's theory calls \<open>wire\<close>.\<close>

definition letter :: "env \<Rightarrow> world \<Rightarrow> u32 \<Rightarrow> byte list \<Rightarrow> inmsg" where
  "letter env w from message = \<lparr>im_friend = from, im_id = nextMsgId env w, im_body = message, im_piece = pieceLen w message\<rparr>"

text \<open>What the receiver gets for what was sent: each fragment, under the friend number that the receiver
  has for the sender.\<close>

definition arrivals :: "u32 \<Rightarrow> u64 \<Rightarrow> (u32 \<times> int \<times> byte list option) list \<Rightarrow> (u32 \<times> int \<times> byte list \<times> u64) list" where
  "arrivals from now sent = map (\<lambda>(friend, type, d). (from, type, (case d of None \<Rightarrow> [] | Some b \<Rightarrow> b), now)) sent"

lemma wire_letter:
  assumes "engine_ok e" "63 < unat (maxMessageLength (w_params w))" "wire_ok e (maxMessageLength (w_params w)) (letter env w from message)"
    "i < length (wireParts env w message)"
  shows "wireParts env w message ! i = wire (maxMessageLength (w_params w)) (letter env w from message) i"
proof -
  have "i < im_total (letter env w from message)" using assms(4) by (simp add: letter_def im_total_def wireParts_def)
  from wire_eq [OF assms(1-3) this] assms(4) show ?thesis by (simp add: letter_def wireParts_def)
qed

text \<open>C1. From one client to the other.  One peer, with no other message pending and no receipt awaited,
  sends a long message with \<open>friend_send_message\<close> to a friend who is online; tox numbers the fragments
  to this friend in ascending order; the network
  delivers them in order to another peer that has not seen this message, and the
  acknowledgements come back in that order.  No piece of the message may start with a zero byte
  (\<open>wire_ok\<close>: the receiver would count such a piece twice), and the message itself may not begin with
  a marker.  Then the first client gets its receipt exactly once,
  the second client gets the message exactly once and byte for byte, and neither library faults.
  The type that the second client sees is the type of the message if there are more fragments
  than fit in the window, but 0 if they fit: the type is lost then.\<close>

theorem message_travels:
  assumes "tox_receipts_ok env (sentNum w + length (wireParts env w message))" "engine_ok (db_engine env)"
    "reliable env friend (sentNum w + length (wireParts env w message))"
    "sender_ok env friend w []" "recs (w_rt w) = []" "genuine env (w_trace w)" "0 < unat (fragmentsAtATime (w_params w))"
    "markerExists message = Inr False" "unat (maxMessageLength (w_params w)) < length message"
    "length message \<le> maxBlob (db_engine env)" "lastMsgId w \<noteq> -1"
    "selMeta (w_db w) (key_of 1 friend (nextMsgId env w)) = None"
    "engine_ok e" "db_inv db" "wire_ok e (maxMessageLength (w_params w)) (letter env w from message)"
    "selMeta db (key_of 0 from (nextMsgId env w)) = None"
  shows "\<exists>r w1 w2 sent db'. friend_send_message 1 env w friend type message = Inr (r, w1) \<and>
    confirmOldest env friend (length (wireParts env w message)) w1 = Inr w2 \<and>
    sentOf (w_trace w2) = sentOf (w_trace w) @ sent \<and>
    clientOf (w_trace w2) = clientOf (w_trace w) @ [ClientReceipt friend r] \<and>
    runInbound e db (arrivals from now sent) = Inr (db',
      [ClientMessage from (if length (wireParts env w message) \<le> unat (fragmentsAtATime (w_params w)) then 0 else type) message])"
proof -
  let ?ps = "wireParts env w message" and ?F = "unat (fragmentsAtATime (w_params w))"
  let ?L = "maxMessageLength (w_params w)" and ?c = "letter env w from message"
  define ty where "ty = (\<lambda>i. if i < ?F then 0 else type)"
  define sent where "sent = map (\<lambda>i. (friend, ty i, Some (?ps ! i))) [0..<length ?ps]"
  have L: "63 < unat ?L" by (rule sender_okD(7) [OF assms(4)])
  have mid: "unat (nextMsgId env w) < 10 ^ 13" using assms(15) by (simp add: wire_ok_def letter_def)
  have total: "im_total ?c = length ?ps" by (simp add: im_total_def letter_def wireParts_def)
  have lt: "im_friend ?c = from" "im_body ?c = message" by (simp_all add: letter_def)
  from delivered [OF assms(1-11) mid assms(12)] obtain r w1 w2 where
    s: "friend_send_message 1 env w friend type message = Inr (r, w1)"
      "confirmOldest env friend (length ?ps) w1 = Inr w2" "sentOf (w_trace w2) = sentOf (w_trace w) @ sent"
      "clientOf (w_trace w2) = clientOf (w_trace w) @ [ClientReceipt friend r]"
    unfolding sent_def ty_def by blast
  have "arrivals from now sent = map (\<lambda>i. (im_friend ?c, ty i, wire ?L ?c i, now)) [0..<im_total ?c]"
    by (simp add: arrivals_def sent_def total) (simp add: letter_def wire_letter [OF assms(13) L assms(15), unfolded letter_def])
  moreover have "selMeta db (im_key ?c) = None" using assms(16) by (simp add: im_key_def letter_def)
  ultimately obtain db' where "runInbound e db (arrivals from now sent) =
      Inr (db', [ClientMessage from (ty (length ?ps - 1)) message])"
    using inbound_in_order [OF assms(13,14) L assms(15), of ty now] by (auto simp: total lt)
  moreover have "0 < length ?ps"
    using assms(15) by (simp add: total [symmetric]) (simp add: wire_ok_def im_ok_def im_total_def pieceCount_pos)
  then have "length ?ps - 1 < ?F \<longleftrightarrow> length ?ps \<le> ?F" by linarith
  then have "ty (length ?ps - 1) = (if length ?ps \<le> ?F then 0 else type)" by (simp add: ty_def)
  ultimately show ?thesis using s by (intro exI [of _ r] exI [of _ w1] exI [of _ w2] exI [of _ sent] exI [of _ db']) simp
qed

text \<open>A message of 5000 bytes, in fragments of at most 1372 bytes.\<close>

lemma letter_ok:
  "wire_ok engine_default (maxMessageLength (w_params world_ready)) (letter env_default world_ready 9 (replicate 5000 0x61))"
proof -
  have L: "unat (maxMessageLength (w_params world_ready)) = 1372" by (simp add: world_ready_def world0_def params_default_def)
  have p: "0 < pieceLen world_ready (replicate 5000 0x61)"
    using pieceSize_bounds(1) [of 1372 63 5000] by (simp add: pieceLen_def L)
  then have "i * pieceLen world_ready (replicate 5000 0x61) < 5000"
    if "i < im_total (letter env_default world_ready 9 (replicate 5000 0x61))" for i
    using that by (simp add: letter_def im_total_def less_pieceCount)
  moreover have "engine_default = db_engine env_default" by (simp add: env_default_def)
  ultimately show ?thesis
    using p world_ready_ids by (simp add: wire_ok_def im_ok_def L)
      (simp add: letter_def pieceLen_def L env_default_def engine_default_def)
qed

theorem message_travels_witness:
  "\<exists>r w1 w2 sent db'. friend_send_message 1 env_default world_ready 7 1 (replicate 5000 0x61) = Inr (r, w1) \<and>
    confirmOldest env_default 7 (length (wireParts env_default world_ready (replicate 5000 0x61))) w1 = Inr w2 \<and>
    sentOf (w_trace w2) = sentOf (w_trace world_ready) @ sent \<and>
    clientOf (w_trace w2) = clientOf (w_trace world_ready) @ [ClientReceipt 7 r] \<and>
    runInbound engine_default db0 (arrivals 9 5 sent) = Inr (db',
      [ClientMessage 9 (if length (wireParts env_default world_ready (replicate 5000 0x61))
         \<le> unat (fragmentsAtATime (w_params world_ready)) then 0 else 1) (replicate 5000 0x61)])"
proof (rule message_travels [OF _ env_default_ok(2) _ world_ready_ok _ _ _ _ _ _ _ _ engine_default_ok db0_inv(1) letter_ok db0_inv(2)])
  have prm: "w_params world_ready = params_default" "w_trace world_ready = []" "w_db world_ready = db0"
    by (simp_all add: world_ready_def world0_def)
  have "length (wireParts env_default world_ready (replicate 5000 0x61)) \<le> length (replicate 5000 (0x61 :: byte))"
    by (rule length_wireParts) (simp add: prm params_default_def)
  then have n: "sentNum world_ready + length (wireParts env_default world_ready (replicate 5000 0x61)) < 2 ^ 32"
    by (simp add: prm)
  show "tox_receipts_ok env_default (sentNum world_ready + length (wireParts env_default world_ready (replicate 5000 0x61)))"
    using n by (rule env_default_ok(1))
  show "reliable env_default 7 (sentNum world_ready + length (wireParts env_default world_ready (replicate 5000 0x61)))"
    using n by (rule env_default_reliable)
  show "markerExists (replicate 5000 0x61) = Inr False"
    by (simp add: markerExists_def markerParseFields_def isMarkerChar_def markerChar_def)
  show "selMeta (w_db world_ready) (key_of 1 7 (nextMsgId env_default world_ready)) = None" by (simp add: prm db0_inv)
qed (simp_all add: world_ready_def world0_def receiptsInitialize_dense params_default_def env_default_def engine_default_def)

end
