(* ===== verification/PacketQueue.thy ===== *)
theory PacketQueue
  imports Message
begin

section \<open>The packet queues of the test peer\<close>

text \<open>
  \<open>test-peer.c\<close> keeps two queues of outgoing packets, to its interface and to the network: singly
  linked lists with a pointer to the first and to the last packet.  The packets live on a heap that
  the queues share, as in theory \<open>Ring\<close>: a NULL pointer and a pointer to a freed packet are faults
  when followed, \<open>pk_brk\<close> is the next address that \<open>malloc\<close> returns.  A packet is a message, a
  receipt or the end signal, depending on its members.

  The contract of a queue is the locale \<open>fifo\<close>; it is interpreted for both queues, each with the
  contents of the other one as the frame.
\<close>

record packet =
  pk_next :: "addr option"
  pk_msg :: "byte list option"
  msgLength :: u64
  pk_msgId :: u32
  pk_receipt :: u32
  cntMsgEndSignal :: u32

record pktq =
  lstBegin :: "addr option"
  lstEnd :: "addr option"

type_synonym pheap = "addr \<Rightarrow> packet option"

record pqueues =
  pk_heap :: pheap
  pk_brk :: addr
  ifaceOut :: pktq
  netOut :: pktq

subsection \<open>The operations\<close>

definition derefPkt :: "pheap \<Rightarrow> addr option \<Rightarrow> packet result" where
  "derefPkt h p = (case p of None \<Rightarrow> Inl NullDeref
     | Some a \<Rightarrow> (case h a of None \<Rightarrow> Inl UseAfterFree | Some x \<Rightarrow> Inr x))"

definition setNext :: "pheap \<Rightarrow> addr option \<Rightarrow> addr option \<Rightarrow> pheap result" where
  "setNext h p r = bindR (derefPkt h p) (\<lambda>x. Inr (h(the p \<mapsto> x\<lparr>pk_next := r\<rparr>)))"

definition packetAppend :: "addr option \<Rightarrow> pheap \<Rightarrow> pktq \<Rightarrow> (pheap \<times> pktq) result" where
  "packetAppend r h q =
     (if lstBegin q = None then Inr (h, \<lparr>lstBegin = r, lstEnd = r\<rparr>)
      else bindR (setNext h (lstEnd q) r) (\<lambda>h. Inr (h, q\<lparr>lstEnd := r\<rparr>)))"

definition packetPickFront :: "pheap \<Rightarrow> pktq \<Rightarrow> (addr option \<times> pktq) result" where
  "packetPickFront h q =
     bindR (derefPkt h (lstBegin q)) (\<lambda>p.
       if pk_next p \<noteq> None then Inr (lstBegin q, q\<lparr>lstBegin := pk_next p\<rparr>)
       else Inr (lstBegin q, \<lparr>lstBegin = None, lstEnd = None\<rparr>))"

text \<open>\<open>malloc\<close> of a packet; \<open>malloc(0)\<close> for its data is assumed not to return NULL (as in libc).\<close>

definition mallocPacket :: "packet \<Rightarrow> pqueues \<Rightarrow> addr option \<times> pqueues" where
  "mallocPacket p s = (Some (pk_brk s), s\<lparr>pk_heap := (pk_heap s)(pk_brk s \<mapsto> p), pk_brk := pk_brk s + 1\<rparr>)"

definition messagePacket :: "byte list \<Rightarrow> u32 \<Rightarrow> packet" where
  "messagePacket msg mid = \<lparr>pk_next = None, pk_msg = Some msg, msgLength = of_nat (length msg),
     pk_msgId = mid, pk_receipt = 0, cntMsgEndSignal = 0\<rparr>"

definition receiptPacket :: "u32 \<Rightarrow> packet" where
  "receiptPacket receipt = \<lparr>pk_next = None, pk_msg = None, msgLength = 0,
     pk_msgId = 0, pk_receipt = receipt, cntMsgEndSignal = 0\<rparr>"

definition endPacket :: "u32 \<Rightarrow> packet" where
  "endPacket cntMsg = \<lparr>pk_next = None, pk_msg = None, msgLength = 0,
     pk_msgId = 0, pk_receipt = 0, cntMsgEndSignal = cntMsg\<rparr>"

definition packetCreateMessage :: "byte list \<Rightarrow> u32 \<Rightarrow> pqueues \<Rightarrow> addr option \<times> pqueues" where
  "packetCreateMessage msg mid s = mallocPacket (messagePacket msg mid) s"

definition packetCreateReceipt :: "u32 \<Rightarrow> pqueues \<Rightarrow> addr option \<times> pqueues" where
  "packetCreateReceipt receipt s = mallocPacket (receiptPacket receipt) s"

definition packetCreateEndSignal :: "u32 \<Rightarrow> pqueues \<Rightarrow> addr option \<times> pqueues" where
  "packetCreateEndSignal cntMsg s = mallocPacket (endPacket cntMsg) s"

definition packetDelete :: "pheap \<Rightarrow> addr option \<Rightarrow> pheap result" where
  "packetDelete h p = bindR (derefPkt h p) (\<lambda>_. Inr (h(the p := None)))"

text \<open>The two uses: a new packet goes to the end of a queue, the first one is taken and freed.\<close>

definition appendIface :: "addr option \<times> pqueues \<Rightarrow> pqueues result" where
  "appendIface = (\<lambda>(r, s). bindR (packetAppend r (pk_heap s) (ifaceOut s)) (\<lambda>(h, q).
     Inr (s\<lparr>pk_heap := h, ifaceOut := q\<rparr>)))"

definition appendNet :: "addr option \<times> pqueues \<Rightarrow> pqueues result" where
  "appendNet = (\<lambda>(r, s). bindR (packetAppend r (pk_heap s) (netOut s)) (\<lambda>(h, q).
     Inr (s\<lparr>pk_heap := h, netOut := q\<rparr>)))"

definition takePacket :: "addr option \<Rightarrow> pqueues \<Rightarrow> (packet \<times> pqueues) result" where
  "takePacket a s =
     bindR (derefPkt (pk_heap s) a) (\<lambda>p.
     bindR (packetDelete (pk_heap s) a) (\<lambda>h. Inr (p\<lparr>pk_next := None\<rparr>, s\<lparr>pk_heap := h\<rparr>)))"

definition takeIface :: "pqueues \<Rightarrow> (packet \<times> pqueues) result" where
  "takeIface s = bindR (packetPickFront (pk_heap s) (ifaceOut s)) (\<lambda>(a, q). takePacket a (s\<lparr>ifaceOut := q\<rparr>))"

definition takeNet :: "pqueues \<Rightarrow> (packet \<times> pqueues) result" where
  "takeNet s = bindR (packetPickFront (pk_heap s) (netOut s)) (\<lambda>(a, q). takePacket a (s\<lparr>netOut := q\<rparr>))"

definition pqueues0 :: pqueues where
  "pqueues0 = \<lparr>pk_heap = (\<lambda>_. None), pk_brk = 1, ifaceOut = \<lparr>lstBegin = None, lstEnd = None\<rparr>,
     netOut = \<lparr>lstBegin = None, lstEnd = None\<rparr>\<rparr>"

subsection \<open>The abstraction: the list of packets\<close>

definition firstOf :: "addr list \<Rightarrow> addr option" where
  "firstOf as = (case as of [] \<Rightarrow> None | a # _ \<Rightarrow> Some a)"

lemma firstOf_simps [simp]: "firstOf [] = None" "firstOf (a # as) = Some a"
  "firstOf as = None \<longleftrightarrow> as = []"
  by (simp_all add: firstOf_def split: list.split)

text \<open>The packets at the addresses \<open>as\<close>, each linked to the next one, are \<open>ps\<close>.\<close>

fun chain :: "pheap \<Rightarrow> addr list \<Rightarrow> packet list \<Rightarrow> bool" where
  "chain h [] ps \<longleftrightarrow> ps = []"
| "chain h (a # as) ps \<longleftrightarrow> (\<exists>p ps'. ps = p # ps' \<and> pk_next p = None \<and>
     h a = Some (p\<lparr>pk_next := firstOf as\<rparr>) \<and> chain h as ps')"

definition queueAt :: "pheap \<Rightarrow> pktq \<Rightarrow> addr list \<Rightarrow> packet list \<Rightarrow> bool" where
  "queueAt h q as ps \<longleftrightarrow> chain h as ps \<and> distinct as \<and> lstBegin q = firstOf as \<and>
     (as \<noteq> [] \<longrightarrow> lstEnd q = Some (last as))"

lemma chain_upd [simp]: "a \<notin> set as \<Longrightarrow> chain (h(a := x)) as ps \<longleftrightarrow> chain h as ps"
  by (induction as arbitrary: ps) auto

lemma queueAt_upd [simp]: "a \<notin> set as \<Longrightarrow> queueAt (h(a := x)) q as ps \<longleftrightarrow> queueAt h q as ps"
  by (simp add: queueAt_def)

text \<open>Linking a packet behind the last one.\<close>

lemma chain_snoc:
  "chain h as ps \<Longrightarrow> distinct as \<Longrightarrow> as \<noteq> [] \<Longrightarrow> b \<notin> set as \<Longrightarrow> h b = Some p \<Longrightarrow> pk_next p = None \<Longrightarrow>
     \<exists>x. h (last as) = Some x \<and> chain (h(last as \<mapsto> x\<lparr>pk_next := Some b\<rparr>)) (as @ [b]) (ps @ [p])"
proof (induction as arbitrary: ps)
  case (Cons a as)
  then obtain x ps' where x: "ps = x # ps'" "pk_next x = None" "h a = Some (x\<lparr>pk_next := firstOf as\<rparr>)" "chain h as ps'"
    by auto
  have p: "p\<lparr>pk_next := None\<rparr> = p" using Cons.prems(6) by simp
  show ?case
  proof (cases "as = []")
    case True
    with x Cons.prems(4-) p show ?thesis by auto
  next
    case False
    have "distinct as" "b \<notin> set as" using Cons.prems by simp_all
    from Cons.IH [OF x(4) this(1) False this(2) Cons.prems(5,6)] obtain y where
      "h (last as) = Some y" "chain (h(last as \<mapsto> y\<lparr>pk_next := Some b\<rparr>)) (as @ [b]) (ps' @ [p])" by blast
    moreover have "a \<noteq> last as" using False Cons.prems(2) by auto
    moreover have "firstOf (as @ [b]) = firstOf as" using False by (cases as) auto
    ultimately show ?thesis using False x by (simp del: fun_upd_apply add: fun_upd_other)
  qed
qed simp

lemma packetAppend_queue:
  assumes "queueAt h q as ps" "b \<notin> set as" "h b = Some p" "pk_next p = None"
  obtains h' q' where "packetAppend (Some b) h q = Inr (h', q')" "queueAt h' q' (as @ [b]) (ps @ [p])"
    "\<And>c. c \<notin> set as \<Longrightarrow> h' c = h c"
proof (cases "as = []")
  case True
  with assms have "packetAppend (Some b) h q = Inr (h, \<lparr>lstBegin = Some b, lstEnd = Some b\<rparr>)"
    "queueAt h \<lparr>lstBegin = Some b, lstEnd = Some b\<rparr> (as @ [b]) (ps @ [p])"
    by (auto simp: packetAppend_def queueAt_def)
  then show ?thesis using that by blast
next
  case False
  have q: "chain h as ps" "distinct as" "lstBegin q = firstOf as" "lstEnd q = Some (last as)"
    using assms(1) False by (simp_all add: queueAt_def)
  obtain x where x: "h (last as) = Some x" "chain (h(last as \<mapsto> x\<lparr>pk_next := Some b\<rparr>)) (as @ [b]) (ps @ [p])"
    using chain_snoc [OF q(1,2) False assms(2-4)] by blast
  have "firstOf (as @ [b]) = firstOf as" using False by (cases as) auto
  then have "queueAt (h(last as \<mapsto> x\<lparr>pk_next := Some b\<rparr>)) (q\<lparr>lstEnd := Some b\<rparr>) (as @ [b]) (ps @ [p])"
    using x(2) q assms(2) by (simp add: queueAt_def)
  moreover have "packetAppend (Some b) h q = Inr (h(last as \<mapsto> x\<lparr>pk_next := Some b\<rparr>), q\<lparr>lstEnd := Some b\<rparr>)"
    using q False x(1) by (simp add: packetAppend_def setNext_def derefPkt_def)
  moreover have "\<And>c. c \<notin> set as \<Longrightarrow> (h(last as \<mapsto> x\<lparr>pk_next := Some b\<rparr>)) c = h c"
    using False by auto
  ultimately show ?thesis using that by blast
qed

lemma packetPickFront_queue:
  assumes "queueAt h q as (p # ps)"
  obtains a as' q' where "as = a # as'" "packetPickFront h q = Inr (Some a, q')" "queueAt h q' as' ps"
    "h a = Some (p\<lparr>pk_next := firstOf as'\<rparr>)" "pk_next p = None" "a \<notin> set as'"
proof -
  obtain a as' where as: "as = a # as'" "h a = Some (p\<lparr>pk_next := firstOf as'\<rparr>)" "pk_next p = None" "a \<notin> set as'"
    "chain h as' ps" "distinct as'"
    using assms by (cases as) (auto simp: queueAt_def)
  have q: "lstBegin q = Some a" "lstEnd q = Some (last as)" using assms as(1) by (simp_all add: queueAt_def)
  show ?thesis
  proof (cases "as' = []")
    case True
    then show ?thesis using as q that by (simp add: packetPickFront_def derefPkt_def queueAt_def)
  next
    case False
    with as q have "packetPickFront h q = Inr (Some a, q\<lparr>lstBegin := firstOf as'\<rparr>)"
      by (simp add: packetPickFront_def derefPkt_def)
    moreover have "queueAt h (q\<lparr>lstBegin := firstOf as'\<rparr>) as' ps"
      using as q False by (simp add: queueAt_def)
    ultimately show ?thesis using as that by blast
  qed
qed

text \<open>The two queues on their heap: disjoint, and below the address that \<open>malloc\<close> returns next.\<close>

definition queues :: "pqueues \<Rightarrow> packet list \<Rightarrow> packet list \<Rightarrow> bool" where
  "queues s is ns \<longleftrightarrow> (\<exists>as bs. queueAt (pk_heap s) (ifaceOut s) as is \<and> queueAt (pk_heap s) (netOut s) bs ns \<and>
     set as \<inter> set bs = {} \<and> (\<forall>a\<in>set as \<union> set bs. a < pk_brk s))"

lemma queuesI:
  "queueAt (pk_heap s) (ifaceOut s) as is \<Longrightarrow> queueAt (pk_heap s) (netOut s) bs ns \<Longrightarrow>
     set as \<inter> set bs = {} \<Longrightarrow> \<forall>a\<in>set as \<union> set bs. a < pk_brk s \<Longrightarrow> queues s is ns"
  unfolding queues_def by blast

lemma queues0 [simp]: "queues pqueues0 [] []"
  by (rule queuesI [where as = "[]" and bs = "[]"]) (simp_all add: pqueues0_def queueAt_def)

lemma queueAt_frame:
  "queueAt h q as ps \<Longrightarrow> (\<And>a. a \<in> set as \<Longrightarrow> h' a = h a) \<Longrightarrow> queueAt h' q as ps"
proof -
  have "(\<And>a. a \<in> set as \<Longrightarrow> h' a = h a) \<Longrightarrow> chain h as ps \<Longrightarrow> chain h' as ps"
    by (induction as arbitrary: ps) auto
  then show "queueAt h q as ps \<Longrightarrow> (\<And>a. a \<in> set as \<Longrightarrow> h' a = h a) \<Longrightarrow> queueAt h' q as ps"
    by (simp add: queueAt_def)
qed

subsection \<open>The contract of a queue\<close>

text \<open>
  \<open>rel s xs f\<close>: the queue of \<open>s\<close> holds \<open>xs\<close>, and the rest of the state is \<open>f\<close>, which the operations
  keep.
\<close>

locale fifo =
  fixes enq :: "'x \<Rightarrow> 's \<Rightarrow> 's result"
    and deq :: "'s \<Rightarrow> ('x \<times> 's) result"
    and ok :: "'x \<Rightarrow> bool"
    and rel :: "'s \<Rightarrow> 'x list \<Rightarrow> 'f \<Rightarrow> bool"
  assumes enq_rel: "rel s xs f \<Longrightarrow> ok x \<Longrightarrow> \<exists>s'. enq x s = Inr s' \<and> rel s' (xs @ [x]) f"
    and deq_rel: "rel s (x # xs) f \<Longrightarrow> \<exists>s'. deq s = Inr (x, s') \<and> rel s' xs f"
begin

lemma enq_all:
  "rel s xs f \<Longrightarrow> list_all ok ys \<Longrightarrow>
     \<exists>s'. foldl (\<lambda>r x. bindR r (enq x)) (Inr s) ys = Inr s' \<and> rel s' (xs @ ys) f"
proof (induction ys arbitrary: s xs)
  case (Cons y ys)
  then obtain s1 where "enq y s = Inr s1" "rel s1 (xs @ [y]) f" using enq_rel by fastforce
  with Cons.IH [of s1 "xs @ [y]"] Cons.prems(2) show ?case by simp
qed auto

text \<open>A script of operations, \<open>Some x\<close> to append \<open>x\<close> and \<open>None\<close> to take the first one, runs as on a list.\<close>

lemma script_refines:
  assumes "\<And>ops s. run ops s = (case ops of [] \<Rightarrow> Inr ([], s)
      | Some x # ops' \<Rightarrow> bindR (enq x s) (run ops')
      | None # ops' \<Rightarrow> bindR (deq s) (\<lambda>(x, s). bindR (run ops' s) (\<lambda>(out, s). Inr (x # out, s))))"
    and "\<And>ops xs. spec ops xs = (case ops of [] \<Rightarrow> Some ([], xs)
      | Some x # ops' \<Rightarrow> spec ops' (xs @ [x])
      | None # ops' \<Rightarrow> (case xs of [] \<Rightarrow> None | x # xs' \<Rightarrow> map_option (\<lambda>(out, ys). (x # out, ys)) (spec ops' xs')))"
  shows "rel s xs f \<Longrightarrow> \<forall>x. Some x \<in> set ops \<longrightarrow> ok x \<Longrightarrow> spec ops xs = Some (out, ys) \<Longrightarrow>
    \<exists>s'. run ops s = Inr (out, s') \<and> rel s' ys f"
proof (induction ops arbitrary: s xs out)
  case Nil
  then show ?case by (simp add: assms(1) [of "[]"] assms(2) [of "[]"])
next
  case (Cons op ops)
  show ?case
  proof (cases op)
    case (Some x)
    then obtain s1 where "enq x s = Inr s1" "rel s1 (xs @ [x]) f" using enq_rel Cons.prems(1,2) by fastforce
    with Cons.IH [of s1 "xs @ [x]" out] Cons.prems(2,3) Some show ?thesis
      by (simp add: assms(1) [of "Some x # ops"] assms(2) [of "Some x # ops"])
  next
    case None
    then obtain x xs' out' where x: "xs = x # xs'" "out = x # out'" "spec ops xs' = Some (out', ys)"
      using Cons.prems(3) None by (auto simp: assms(2) [of "None # ops"] split: list.splits)
    obtain s1 where "deq s = Inr (x, s1)" "rel s1 xs' f" using deq_rel Cons.prems(1) x(1) by blast
    with Cons.IH [of s1 xs' out'] Cons.prems(2) None x show ?thesis
      by (fastforce simp: assms(1) [of "None # ops"])
  qed
qed

end

text \<open>The two queues of the peer.\<close>

definition newPacket :: "packet \<Rightarrow> bool" where
  "newPacket p \<longleftrightarrow> pk_next p = None"

lemma newPacket_created [simp]:
  "newPacket (messagePacket msg mid)" "newPacket (receiptPacket r)" "newPacket (endPacket n)"
  by (simp_all add: newPacket_def messagePacket_def receiptPacket_def endPacket_def)

lemma appendIface_queues:
  assumes "queues s is ns" "newPacket p"
  shows "\<exists>s'. appendIface (mallocPacket p s) = Inr s' \<and> queues s' (is @ [p]) ns"
proof -
  obtain as bs where q: "queueAt (pk_heap s) (ifaceOut s) as is" "queueAt (pk_heap s) (netOut s) bs ns"
    "set as \<inter> set bs = {}" "\<forall>a\<in>set as \<union> set bs. a < pk_brk s"
    using assms(1) by (auto simp: queues_def)
  let ?b = "pk_brk s" and ?h = "(pk_heap s)(pk_brk s \<mapsto> p)"
  have b: "?b \<notin> set as" "?b \<notin> set bs" using q(4) by auto
  have "queueAt ?h (ifaceOut s) as is" using q(1) b by simp
  then obtain h' q' where h': "packetAppend (Some ?b) ?h (ifaceOut s) = Inr (h', q')"
    "queueAt h' q' (as @ [?b]) (is @ [p])" "\<And>c. c \<notin> set as \<Longrightarrow> h' c = ?h c"
    using packetAppend_queue [OF _ b(1), of ?h "ifaceOut s" "is" p] assms(2) by (auto simp: newPacket_def)
  have "h' c = pk_heap s c" if "c \<in> set bs" for c
  proof -
    have "c \<notin> set as" "c \<noteq> ?b" using that q(3) b(2) by auto
    then show ?thesis using h'(3) by simp
  qed
  then have "queueAt h' (netOut s) bs ns" by (rule queueAt_frame [OF q(2)])
  with h'(1,2) q(3,4) b show ?thesis
    by (auto simp: appendIface_def mallocPacket_def less_Suc_eq intro!: queuesI [where as = "as @ [?b]" and bs = bs])
qed

lemma appendNet_queues:
  assumes "queues s is ns" "newPacket p"
  shows "\<exists>s'. appendNet (mallocPacket p s) = Inr s' \<and> queues s' is (ns @ [p])"
proof -
  obtain as bs where q: "queueAt (pk_heap s) (ifaceOut s) as is" "queueAt (pk_heap s) (netOut s) bs ns"
    "set as \<inter> set bs = {}" "\<forall>a\<in>set as \<union> set bs. a < pk_brk s"
    using assms(1) by (auto simp: queues_def)
  let ?b = "pk_brk s" and ?h = "(pk_heap s)(pk_brk s \<mapsto> p)"
  have b: "?b \<notin> set as" "?b \<notin> set bs" using q(4) by auto
  have "queueAt ?h (netOut s) bs ns" using q(2) b by simp
  then obtain h' q' where h': "packetAppend (Some ?b) ?h (netOut s) = Inr (h', q')"
    "queueAt h' q' (bs @ [?b]) (ns @ [p])" "\<And>c. c \<notin> set bs \<Longrightarrow> h' c = ?h c"
    using packetAppend_queue [OF _ b(2), of ?h "netOut s" ns p] assms(2) by (auto simp: newPacket_def)
  have "h' c = pk_heap s c" if "c \<in> set as" for c
  proof -
    have "c \<notin> set bs" "c \<noteq> ?b" using that q(3) b(1) by auto
    then show ?thesis using h'(3) by simp
  qed
  then have "queueAt h' (ifaceOut s) as is" by (rule queueAt_frame [OF q(1)])
  with h'(1,2) q(3,4) b show ?thesis
    by (auto simp: appendNet_def mallocPacket_def less_Suc_eq intro!: queuesI [where as = as and bs = "bs @ [?b]"])
qed

lemma takePacket_eq:
  "pk_heap s a = Some p \<Longrightarrow> takePacket (Some a) s = Inr (p\<lparr>pk_next := None\<rparr>, s\<lparr>pk_heap := (pk_heap s)(a := None)\<rparr>)"
  by (simp add: takePacket_def derefPkt_def packetDelete_def)

lemma takeIface_queues:
  assumes "queues s (p # is) ns"
  shows "\<exists>s'. takeIface s = Inr (p, s') \<and> queues s' is ns"
proof -
  obtain as bs where q: "queueAt (pk_heap s) (ifaceOut s) as (p # is)" "queueAt (pk_heap s) (netOut s) bs ns"
    "set as \<inter> set bs = {}" "\<forall>a\<in>set as \<union> set bs. a < pk_brk s"
    using assms by (auto simp: queues_def)
  obtain a as' q' where a: "as = a # as'" "packetPickFront (pk_heap s) (ifaceOut s) = Inr (Some a, q')"
    "queueAt (pk_heap s) q' as' is" "pk_heap s a = Some (p\<lparr>pk_next := firstOf as'\<rparr>)" "pk_next p = None" "a \<notin> set as'"
    by (rule packetPickFront_queue [OF q(1)])
  have "p\<lparr>pk_next := None\<rparr> = p" using a(5) by simp
  with a q show ?thesis
    by (auto simp: takeIface_def takePacket_eq intro!: queuesI [where as = as' and bs = bs])
qed

lemma takeNet_queues:
  assumes "queues s is (p # ns)"
  shows "\<exists>s'. takeNet s = Inr (p, s') \<and> queues s' is ns"
proof -
  obtain as bs where q: "queueAt (pk_heap s) (ifaceOut s) as is" "queueAt (pk_heap s) (netOut s) bs (p # ns)"
    "set as \<inter> set bs = {}" "\<forall>a\<in>set as \<union> set bs. a < pk_brk s"
    using assms by (auto simp: queues_def)
  obtain a bs' q' where a: "bs = a # bs'" "packetPickFront (pk_heap s) (netOut s) = Inr (Some a, q')"
    "queueAt (pk_heap s) q' bs' ns" "pk_heap s a = Some (p\<lparr>pk_next := firstOf bs'\<rparr>)" "pk_next p = None" "a \<notin> set bs'"
    by (rule packetPickFront_queue [OF q(2)])
  have "p\<lparr>pk_next := None\<rparr> = p" using a(5) by simp
  with a q show ?thesis
    by (auto simp: takeNet_def takePacket_eq intro!: queuesI [where as = as and bs = bs'])
qed

interpretation iface_queue: fifo "\<lambda>p s. appendIface (mallocPacket p s)" takeIface newPacket queues
  by unfold_locales (fact appendIface_queues takeIface_queues)+

interpretation net_queue: fifo "\<lambda>p s. appendNet (mallocPacket p s)" takeNet newPacket "\<lambda>s ns is. queues s is ns"
  by unfold_locales (fact appendNet_queues takeNet_queues)+

text \<open>A script of operations on the queue to the network.\<close>

fun runNet :: "packet option list \<Rightarrow> pqueues \<Rightarrow> (packet list \<times> pqueues) result" where
  "runNet [] s = Inr ([], s)"
| "runNet (Some p # ops) s = bindR (appendNet (mallocPacket p s)) (runNet ops)"
| "runNet (None # ops) s = bindR (takeNet s) (\<lambda>(p, s). bindR (runNet ops s) (\<lambda>(out, s). Inr (p # out, s)))"

fun runList :: "'x option list \<Rightarrow> 'x list \<Rightarrow> ('x list \<times> 'x list) option" where
  "runList [] xs = Some ([], xs)"
| "runList (Some x # ops) xs = runList ops (xs @ [x])"
| "runList (None # ops) [] = None"
| "runList (None # ops) (x # xs) = map_option (\<lambda>(out, ys). (x # out, ys)) (runList ops xs)"

text \<open>C39. The queue to the network refines a list: a script of appends and removals never faults as long as no packet is taken from the empty list, and takes out the packets that it takes from the list; the queue to the interface is not touched.\<close>

theorem net_queue_refines_list:
  assumes "queues s is ns" "\<forall>p. Some p \<in> set ops \<longrightarrow> newPacket p" "runList ops ns = Some (out, ns')"
  shows "\<exists>s'. runNet ops s = Inr (out, s') \<and> queues s' is ns'"
proof (rule net_queue.script_refines [where run = runNet and spec = runList, OF _ _ assms])
  show "runNet ops s = (case ops of [] \<Rightarrow> Inr ([], s) | Some x # ops' \<Rightarrow> bindR (appendNet (mallocPacket x s)) (runNet ops')
      | None # ops' \<Rightarrow> bindR (takeNet s) (\<lambda>(x, s). bindR (runNet ops' s) (\<lambda>(out, s). Inr (x # out, s))))" for ops s
    by (cases ops) (auto split: option.split)
  show "runList ops xs = (case ops of [] \<Rightarrow> Some ([], xs) | Some x # ops' \<Rightarrow> runList ops' (xs @ [x])
      | None # ops' \<Rightarrow> (case xs of [] \<Rightarrow> None | x # xs' \<Rightarrow> map_option (\<lambda>(out, ys). (x # out, ys)) (runList ops' xs')))"
    for ops and xs :: "packet list"
    by (cases ops; cases xs) (auto split: option.split)
qed

theorem net_queue_refines_list_witness:
  "\<exists>s'. runNet [Some (receiptPacket 5), Some (endPacket 2), None, Some (receiptPacket 6), None] pqueues0 =
    Inr ([receiptPacket 5, endPacket 2], s') \<and> queues s' [] [receiptPacket 6]"
  by (rule net_queue_refines_list [OF queues0]) auto

end
