(* ===== verification/Framing.thy ===== *)
theory Framing
  imports PacketQueue Marker
begin

section \<open>The line protocol of the test peer\<close>

text \<open>
  \<open>test-peer.c\<close> writes a packet as a line, \<open>M\<close> for a message, \<open>R\<close> for a receipt and \<open>E\<close> for the end
  signal, with the length of a message in front of its bytes.  This theory models how a packet is
  printed (\<open>onAnyWR\<close>) and how the parts of a line are read (\<open>readChar\<close>, \<open>skipChar\<close>, \<open>readUInt\<close>,
  \<open>readString\<close>).

  An input stream is the list of the pieces in which its bytes become available: \<open>read\<close> returns at
  most the bytes of one piece, as it does for a socket, and 0 bytes at the end of the file.  Errors of
  \<open>read\<close> are not modelled.  \<open>printf\<close> is modelled for the formats used: \<open>%u\<close>, \<open>%lu\<close> and \<open>%.*s\<close>, which
  stops at a zero byte.

  The lemmas show that reading inverts printing for messages without zero bytes, and that a message
  with a zero byte, or one that arrives in two pieces, makes the reader abort.
\<close>

abbreviation (input) chrM :: byte where "chrM \<equiv> 0x4d"
abbreviation (input) chrR :: byte where "chrR \<equiv> 0x52"
abbreviation (input) chrE :: byte where "chrE \<equiv> 0x45"
abbreviation (input) sp :: byte where "sp \<equiv> 0x20"
abbreviation (input) nl :: byte where "nl \<equiv> 0x0a"

type_synonym input = "byte list list"

subsection \<open>Reading\<close>

definition feed :: "byte list \<Rightarrow> input \<Rightarrow> input" where
  "feed bs cs = (if bs = [] then cs else bs # cs)"

text \<open>\<open>read(fd, buf, n)\<close>: the bytes read and the rest of the stream.\<close>

fun readBytes :: "nat \<Rightarrow> input \<Rightarrow> byte list \<times> input" where
  "readBytes n [] = ([], [])"
| "readBytes n ([] # cs) = readBytes n cs"
| "readBytes n ((b # bs) # cs) = (take n (b # bs), feed (drop n (b # bs)) cs)"

definition readChar :: "input \<Rightarrow> byte \<times> input" where
  "readChar s = (case readBytes 1 s of ([], s) \<Rightarrow> (0, s) | (ch # _, s) \<Rightarrow> (ch, s))"

definition skipChar :: "input \<Rightarrow> byte \<Rightarrow> input result" where
  "skipChar s skip = (let (ch, s) = readChar s in if ch \<noteq> skip then Inl Aborted else Inr s)"

lemma readBytes_shorter: "readBytes n s = (bs, s') \<Longrightarrow> length (concat s') + length bs = length (concat s)"
  by (induction n s arbitrary: bs s' rule: readBytes.induct) (auto simp: feed_def split: if_splits)

lemma readChar_shorter: "readChar s = (ch, s') \<Longrightarrow> ch \<noteq> 0 \<Longrightarrow> length (concat s') < length (concat s)"
  by (auto simp: readChar_def split: prod.splits list.splits dest: readBytes_shorter)

text \<open>The loop of \<open>readUInt\<close> ends: each round reads a digit, and the end of the file is none.\<close>

function readUIntLoop :: "input \<Rightarrow> byte \<Rightarrow> u32 \<Rightarrow> (u32 \<times> input) result" where
  "readUIntLoop s skip u =
     (let (ch, s) = readChar s
      in if ch = skip then Inr (u, s)
         else if \<not> isdigit ch then Inl Aborted
         else readUIntLoop s skip (u * 10 + (ucast ch - 0x30)))"
  by pat_completeness auto
termination
proof (relation "measure (\<lambda>(s, _, _). length (concat s))")
  fix s :: input and skip u x ch s'
  assume "x = readChar s" "(ch, s') = x" "\<not> \<not> isdigit ch"
  then have "readChar s = (ch, s')" "ch \<noteq> 0" by (auto simp: isdigit_def)
  then show "((s', skip, u * 10 + (ucast ch - 0x30)), s, skip, u) \<in> measure (\<lambda>(s, _, _). length (concat s))"
    by (auto dest: readChar_shorter)
qed simp

declare readUIntLoop.simps [simp del]

definition readUInt :: "input \<Rightarrow> byte \<Rightarrow> (u32 \<times> input) result" where
  "readUInt s skip = readUIntLoop s skip 0"

text \<open>
  \<open>readString\<close>: \<open>malloc(sz+1)\<close> with an \<open>unsigned\<close> argument, filled by one \<open>read\<close>.  The result is the
  \<open>sz\<close> bytes of the buffer in front of the terminating zero.
\<close>

definition readString :: "input \<Rightarrow> byte \<Rightarrow> (byte list \<times> input) result" where
  "readString s skip =
     bindR (readUInt s sp) (\<lambda>(sz, s).
     let (buf, s) = readBytes (unat sz) s
     in if unat (sz + 1) < length buf then Inl OutOfBounds
        else if length buf \<noteq> unat sz then Inl Aborted
        else if unat (sz + 1) \<le> unat sz then Inl OutOfBounds
        else bindR (skipChar s skip) (\<lambda>s. Inr (buf, s)))"

text \<open>The string in a buffer, up to the first zero byte, as \<open>strlen\<close> sees it.\<close>

definition cstr :: "byte list \<Rightarrow> byte list" where
  "cstr bs = takeWhile (\<lambda>b. b \<noteq> 0) bs"

subsection \<open>Printing\<close>

text \<open>\<open>%.*s\<close>: at most \<open>prec\<close> bytes, or as many as there are if \<open>prec\<close> is negative, up to a zero byte.\<close>

definition printPrec :: "int \<Rightarrow> byte list \<Rightarrow> byte list result" where
  "printPrec prec bs =
     (if 0 \<le> prec \<and> nat prec \<le> length bs then Inr (cstr (take (nat prec) bs))
      else if 0 \<in> set bs then Inr (cstr bs)
      else Inl OutOfBounds)"

definition printPacket :: "bool \<Rightarrow> u32 \<Rightarrow> packet \<Rightarrow> byte list result" where
  "printPacket sendMsgId my p =
     (case pk_msg p of
        Some m \<Rightarrow> bindR (printPrec (sint (ucast (msgLength p) :: u32)) m) (\<lambda>body.
          Inr (if sendMsgId
               then [chrM, sp] @ decDigits (unat (pk_msgId p)) @ [sp] @ decDigits (unat my) @ [sp]
                    @ decDigits (unat (msgLength p)) @ [sp] @ body @ [nl]
               else [chrM, sp] @ decDigits (unat (msgLength p)) @ [sp] @ body @ [nl]))
      | None \<Rightarrow> Inr (if pk_receipt p \<noteq> 0 then [chrR, sp] @ decDigits (unat (pk_receipt p)) @ [nl]
                    else [chrE, sp] @ decDigits (unat (cntMsgEndSignal p)) @ [nl]))"

definition onAnyWR :: "bool \<Rightarrow> u32 \<Rightarrow> addr option \<Rightarrow> pqueues \<Rightarrow> (byte list \<times> pqueues) result" where
  "onAnyWR sendMsgId my a s =
     bindR (derefPkt (pk_heap s) a) (\<lambda>p.
     bindR (printPacket sendMsgId my p) (\<lambda>bytes.
     bindR (packetDelete (pk_heap s) a) (\<lambda>h. Inr (bytes, s\<lparr>pk_heap := h\<rparr>))))"

definition onIfaceWR :: "u32 \<Rightarrow> pqueues \<Rightarrow> (byte list \<times> pqueues) result" where
  "onIfaceWR my s = bindR (packetPickFront (pk_heap s) (ifaceOut s)) (\<lambda>(a, q). onAnyWR False my a (s\<lparr>ifaceOut := q\<rparr>))"

definition onNetWR :: "u32 \<Rightarrow> pqueues \<Rightarrow> (byte list \<times> pqueues) result" where
  "onNetWR my s = bindR (packetPickFront (pk_heap s) (netOut s)) (\<lambda>(a, q). onAnyWR True my a (s\<lparr>netOut := q\<rparr>))"

subsection \<open>What the lemmas say of reading\<close>

lemma feed_simps [simp]: "feed [] cs = cs" "feed (b # bs) cs = (b # bs) # cs"
  by (simp_all add: feed_def)

lemma readChar_feed [simp]: "readChar (feed (b # bs) cs) = (b, feed bs cs)" "readChar ((b # bs) # cs) = (b, feed bs cs)"
  by (simp_all add: readChar_def)

lemma readChar_eof [simp]: "readChar [] = (0, [])"
  by (simp add: readChar_def)

lemma readBytes_feed_ne: "bs \<noteq> [] \<Longrightarrow> readBytes n (feed bs cs) = (take n bs, feed (drop n bs) cs)"
  by (cases bs) simp_all

lemma readBytes_feed: "ys \<noteq> [] \<Longrightarrow> readBytes (length xs) (feed (xs @ ys) cs) = (xs, feed ys cs)"
  by (simp add: readBytes_feed_ne)

lemma skipChar_feed [simp]: "skipChar (feed (b # bs) cs) b = Inr (feed bs cs)"
  "skipChar ((b # bs) # cs) b = Inr (feed bs cs)"
  by (simp_all add: skipChar_def)

lemma digit_value: "isdigit d \<Longrightarrow> (ucast d - 0x30 :: u32) = of_nat (unat d - 48)"
proof -
  assume "isdigit d"
  then have "48 \<le> unat d" by (simp add: isdigit_def word_le_nat_alt)
  then have "(of_nat (unat d - 48) :: u32) = of_nat (unat d) - of_nat 48" by (rule of_nat_diff)
  then show ?thesis by simp
qed

lemma readUIntLoop_feed:
  "digits ds \<Longrightarrow> \<not> isdigit skip \<Longrightarrow>
     readUIntLoop (feed (ds @ skip # r) cs) skip (of_nat n) =
       Inr (of_nat (foldl (\<lambda>a d. a * 10 + (unat d - 48)) n ds), feed r cs)"
proof (induction ds arbitrary: n)
  case Nil
  then show ?case by (simp add: readUIntLoop.simps)
next
  case (Cons d ds)
  have "(of_nat n * 10 + of_nat (unat d - 48) :: u32) = of_nat (n * 10 + (unat d - 48))"
    by (simp only: of_nat_add of_nat_mult of_nat_numeral)
  with Cons show ?case
    by (subst readUIntLoop.simps) (auto simp: digit_value simp del: of_nat_add of_nat_mult)
qed

lemma readUInt_feed [simp]:
  "\<not> isdigit skip \<Longrightarrow> readUInt (feed (decDigits (unat u) @ skip # r) cs) skip = Inr (u, feed r cs)"
  using readUIntLoop_feed [of "decDigits (unat u)" skip r cs 0]
  by (simp add: readUInt_def decValue_def [symmetric])

lemma not_isdigit_sep [simp]: "\<not> isdigit sp" "\<not> isdigit nl"
  by (simp_all add: isdigit_def)

text \<open>A string whose bytes and terminator are at hand is read.\<close>

lemma readString_feed:
  assumes "length m < 2 ^ 32 - 1"
  shows "readString (feed (decDigits (length m) @ sp # m @ nl # r) cs) nl = Inr (m, feed r cs)"
proof -
  let ?sz = "of_nat (length m) :: u32"
  have sz: "unat ?sz = length m" using assms by (intro unat_of_nat_u32) simp
  have "unat (?sz + 1) = unat (of_nat (length m + 1) :: u32)" by (simp add: add.commute)
  also have "\<dots> = length m + 1" using assms by (intro unat_of_nat_u32) simp
  finally have sz1: "unat (?sz + 1) = length m + 1" .
  have "readUInt (feed (decDigits (unat ?sz) @ sp # (m @ nl # r)) cs) sp = Inr (?sz, feed (m @ nl # r) cs)"
    by (rule readUInt_feed) simp
  moreover have "readBytes (length m) (feed (m @ nl # r) cs) = (m, feed (nl # r) cs)" by (rule readBytes_feed) simp
  ultimately show ?thesis by (simp only: readString_def bindR_Inr case_prod_conv Let_def sz sz1) simp
qed

end
