(* ===== verification/TestPeer.thy ===== *)
theory TestPeer
  imports Framing Delivery
begin

section \<open>The test peer\<close>

text \<open>
  The program \<open>test-peer.c\<close>: it reads messages from its interface, sends them through the
  defragmenter to the network, and passes on what arrives, until it has received everything.  The
  library in its process is the \<open>world\<close> of theory \<open>Outbound\<close>.  The base Tox interface that the peer
  gives to the library is \<open>apiBase\<close>: sending puts a packet into the queue to the network and returns the
  next number.  What the library calls back, \<open>base_friend_send_message\<close> and the two front callbacks,
  changes only members of the peer that the library does not see, so the calls are taken from the
  trace and run after the library function, in their order.

  \<open>select\<close> is a parameter: each round of the loop is given the descriptors that are ready.  The
  sockets and \<open>main\<close> are in theory \<open>Startup\<close>.
\<close>

abbreviation (input) DEFRAG_RECEIPTS_LO :: u32 where "DEFRAG_RECEIPTS_LO \<equiv> 0x10000000"
abbreviation (input) DEFRAG_RECEIPTS_HI :: u32 where "DEFRAG_RECEIPTS_HI \<equiv> 0x10000000 + 1000000"
abbreviation (input) receiptsLen :: nat where "receiptsLen \<equiv> 1024 * 1024"

record peer =
  myFriendId :: u32
  hisFriendId :: u32
  sawIfaceEOF :: bool
  sawNetEOF :: bool
  sawNetEndSignal :: bool
  netExpectMessages :: u32
  netReceivedMessages :: u32
  netReceivedReceiptsShort :: "nat \<Rightarrow> u8"
  netReceivedReceiptsLong :: "nat \<Rightarrow> u8"
  msgIdIface :: u32
  msgIdNet :: u32
  pr_q :: pqueues
  pr_lib :: world

subsection \<open>The base interface and the callbacks\<close>

definition apiBase :: "env \<Rightarrow> env" where
  "apiBase env = env\<lparr>tx_send := (\<lambda>tr _ _ _. of_nat (length (sentOf tr) + 1)), tx_online := (\<lambda>_ _. True)\<rparr>"

text \<open>
  It numbers all its messages from 1 on, whoever they are for, and takes them all: it meets what theories
  \<open>Sending\<close> and \<open>Delivery\<close> assume of tox, until the numbers start again.
\<close>

lemma apiBase_receipts_ok:
  assumes "n < 2 ^ 32"
  shows "tox_receipts_ok (apiBase env) n"
proof -
  have old: "unat r' \<le> length (sentOf tr)" if "genuine (apiBase env) tr" "ToxSend friend type' d' r' \<in> set tr" for tr friend type' d' r'
    using that
  proof (induction tr rule: rev_induct)
    case (snoc ev tr)
    show ?case
    proof (cases "ToxSend friend type' d' r' \<in> set tr")
      case True
      then have "unat r' \<le> length (sentOf tr)" using snoc by (simp add: genuine_snoc)
      then show ?thesis by simp
    next
      case False
      then have ev: "ev = ToxSend friend type' d' r'" using snoc.prems(2) by simp
      then have "r' = of_nat (length (sentOf tr) + 1)" using snoc.prems(1) by (simp add: genuine_snoc apiBase_def)
      moreover have "unat (of_nat (length (sentOf tr) + 1) :: u32) \<le> length (sentOf tr) + 1"
        by (simp only: unat_of_nat) (rule mod_less_eq_dividend)
      ultimately show ?thesis by (simp add: ev)
    qed
  qed simp
  show ?thesis
    unfolding tox_receipts_ok_def
  proof (intro allI impI)
    fix tr friend type d type' d' r'
    assume tr: "genuine (apiBase env) tr" "length (sentOf tr) < n" "ToxSend friend type' d' r' \<in> set tr"
    have "unat (of_nat (length (sentOf tr) + 1) :: u32) = length (sentOf tr) + 1"
      using tr(2) assms by (intro unat_of_nat_u32) simp
    moreover have "tx_send (apiBase env) tr friend type d = of_nat (length (sentOf tr) + 1)" by (simp add: apiBase_def)
    ultimately show "r' < tx_send (apiBase env) tr friend type d" using old [OF tr(1,3)] by (simp only: word_less_nat_alt)
  qed
qed

lemma apiBase_reliable:
  assumes "n < 2 ^ 32"
  shows "reliable (apiBase env) friend n"
proof -
  have "tx_send (apiBase env) tr friend type d \<noteq> 0" if "length (sentOf tr) < n" for tr type d
  proof -
    have "unat (of_nat (length (sentOf tr) + 1) :: u32) = length (sentOf tr) + 1" using that assms by (intro unat_of_nat_u32) simp
    then show ?thesis by (auto simp: apiBase_def)
  qed
  then show ?thesis by (simp add: reliable_def) (simp add: apiBase_def)
qed

definition base_friend_send_message :: "byte list option \<Rightarrow> peer \<Rightarrow> (u32 \<times> peer) result" where
  "base_friend_send_message message p =
     (case message of
        None \<Rightarrow> Inl NullDeref
      | Some m \<Rightarrow>
          let p = p\<lparr>msgIdNet := msgIdNet p + 1\<rparr>
          in bindR (appendNet (packetCreateMessage m (msgIdNet p) (pr_q p))) (\<lambda>q.
             Inr (msgIdNet p, p\<lparr>pr_q := q\<rparr>)))"

definition front_friend_message :: "byte list \<Rightarrow> peer \<Rightarrow> peer result" where
  "front_friend_message message p =
     bindR (appendIface (packetCreateMessage message 0 (pr_q p))) (\<lambda>q.
     Inr (p\<lparr>pr_q := q, netReceivedMessages := netReceivedMessages p + 1\<rparr>))"

definition front_read_receipt :: "u32 \<Rightarrow> peer \<Rightarrow> peer result" where
  "front_read_receipt message_id p =
     bindR (if message_id < DEFRAG_RECEIPTS_LO then
              if unat message_id < receiptsLen
              then Inr (p\<lparr>netReceivedReceiptsShort := (netReceivedReceiptsShort p)(unat message_id := 1)\<rparr>)
              else Inl OutOfBounds
            else if unat (message_id - DEFRAG_RECEIPTS_LO) < receiptsLen
            then Inr (p\<lparr>netReceivedReceiptsLong := (netReceivedReceiptsLong p)(unat (message_id - DEFRAG_RECEIPTS_LO) := 1)\<rparr>)
            else Inl OutOfBounds) (\<lambda>p.
     bindR (appendIface (packetCreateReceipt message_id (pr_q p))) (\<lambda>q. Inr (p\<lparr>pr_q := q\<rparr>)))"

text \<open>A call of the library, and the calls that it makes back.\<close>

fun callBack :: "event \<Rightarrow> peer \<Rightarrow> peer result" where
  "callBack (ToxSend friend type message receipt) p = bindR (base_friend_send_message message p) (\<lambda>(_, p). Inr p)"
| "callBack (Client (ClientMessage friend type message)) p = front_friend_message message p"
| "callBack (Client (ClientReceipt friend receipt)) p = front_read_receipt receipt p"
| "callBack (ToxStatus friend online) p = Inr p"
| "callBack (Clock t) p = Inr p"

fun callBacks :: "event list \<Rightarrow> peer \<Rightarrow> peer result" where
  "callBacks [] p = Inr p"
| "callBacks (ev # evs) p = bindR (callBack ev p) (callBacks evs)"

definition callLib :: "(world \<Rightarrow> ('r \<times> world) result) \<Rightarrow> peer \<Rightarrow> ('r \<times> peer) result" where
  "callLib f p =
     bindR (f (pr_lib p)) (\<lambda>(r, w).
     bindR (callBacks (drop (length (w_trace (pr_lib p))) (w_trace w)) p) (\<lambda>p.
     Inr (r, p\<lparr>pr_lib := w\<rparr>)))"

definition libReceipt :: "env \<Rightarrow> u32 \<Rightarrow> world \<Rightarrow> (unit \<times> world) result" where
  "libReceipt env receipt w = bindR (friend_read_receipt_cb env w 1 receipt) (\<lambda>w. Inr ((), w))"

subsection \<open>The interface side\<close>

text \<open>The message of the failing branch reads \<open>msg\<close> after \<open>free(msg)\<close>.\<close>

definition onIfaceRD :: "nat \<Rightarrow> env \<Rightarrow> input \<Rightarrow> peer \<Rightarrow> (input \<times> peer) result" where
  "onIfaceRD fuel env s p =
     (let (ch, s) = readChar s
      in if ch = chrM then
           bindR (skipChar s sp) (\<lambda>s.
           bindR (readString s nl) (\<lambda>(msg, s).
           bindR (callLib (\<lambda>w. friend_send_message fuel env w (hisFriendId p) 0 (cstr msg)) p) (\<lambda>(receipt, p).
           let p = p\<lparr>msgIdIface := msgIdIface p + 1\<rparr>
           in if receipt = 0 then Inl UseAfterFree else Inr (s, p))))
         else if ch = chrE then
           bindR (skipChar s nl) (\<lambda>s.
           bindR (appendNet (packetCreateEndSignal (msgIdIface p) (pr_q p))) (\<lambda>q.
           Inr (s, p\<lparr>sawIfaceEOF := True, pr_q := q\<rparr>)))
         else Inl Aborted)"

definition isIfaceWR :: "peer \<Rightarrow> bool" where
  "isIfaceWR p \<longleftrightarrow> lstBegin (ifaceOut (pr_q p)) \<noteq> None"

definition isIfaceRD :: "peer \<Rightarrow> bool" where
  "isIfaceRD p \<longleftrightarrow> \<not> sawIfaceEOF p"

subsection \<open>The network side\<close>

definition onNetRD :: "env \<Rightarrow> input \<Rightarrow> peer \<Rightarrow> (input \<times> peer) result" where
  "onNetRD env s p =
     (let (ch, s) = readChar s
      in if ch = chrM then
           bindR (skipChar s sp) (\<lambda>s.
           bindR (readUInt s sp) (\<lambda>(msgId, s).
           bindR (readUInt s sp) (\<lambda>(fromFriendId, s).
           bindR (readString s nl) (\<lambda>(msg, s).
           bindR (callLib (libMessage env fromFriendId 0 (cstr msg)) p) (\<lambda>(_, p).
           bindR (appendNet (packetCreateReceipt msgId (pr_q p))) (\<lambda>q.
           Inr (s, p\<lparr>pr_q := q\<rparr>)))))))
         else if ch = chrR then
           bindR (skipChar s sp) (\<lambda>s.
           bindR (readUInt s nl) (\<lambda>(msgId, s).
           bindR (callLib (libReceipt env msgId) p) (\<lambda>(_, p).
           Inr (s, p))))
         else if ch = chrE then
           bindR (skipChar s sp) (\<lambda>s.
           bindR (readUInt s nl) (\<lambda>(n, s).
           Inr (s, p\<lparr>sawNetEndSignal := True, netExpectMessages := n\<rparr>)))
         else if ch = 0 then
           if \<not> sawNetEndSignal p then Inl Aborted else Inr (s, p\<lparr>sawNetEOF := True\<rparr>)
         else Inl Aborted)"

definition isNetWR :: "peer \<Rightarrow> bool" where
  "isNetWR p \<longleftrightarrow> lstBegin (netOut (pr_q p)) \<noteq> None"

subsection \<open>When the peer is done\<close>

text \<open>The loop of \<open>receivedAllReceipts\<close>.\<close>

function countReceipts :: "(nat \<Rightarrow> u8) \<Rightarrow> (nat \<Rightarrow> u8) \<Rightarrow> u32 \<Rightarrow> nat \<Rightarrow> u32 \<Rightarrow> u32 result" where
  "countReceipts short long n i cnt =
     (if i \<le> unat n \<and> cnt < n then
        if receiptsLen \<le> i then Inl OutOfBounds
        else countReceipts short long n (i + 1)
               (cnt + (if short i \<noteq> 0 then 1 else 0) + (if long i \<noteq> 0 then 1 else 0))
      else Inr cnt)"
  by pat_completeness auto
termination
  by (relation "measure (\<lambda>(_, _, n, i, _). unat n + 1 - i)") auto

declare countReceipts.simps [simp del]

definition receivedAllReceipts :: "peer \<Rightarrow> bool result" where
  "receivedAllReceipts p =
     bindR (countReceipts (netReceivedReceiptsShort p) (netReceivedReceiptsLong p) (msgIdIface p) 0 0) (\<lambda>cnt.
     Inr (cnt = msgIdIface p))"

definition isNetRD :: "peer \<Rightarrow> bool result" where
  "isNetRD p =
     (if \<not> sawNetEndSignal p \<or> \<not> sawNetEOF p \<or> netReceivedMessages p < netExpectMessages p then Inr True
      else bindR (receivedAllReceipts p) (\<lambda>all. Inr (\<not> all)))"

definition needContinue :: "peer \<Rightarrow> bool result" where
  "needContinue p =
     (if \<not> sawIfaceEOF p \<or> \<not> sawNetEndSignal p \<or> netReceivedMessages p < netExpectMessages p then Inr True
      else bindR (receivedAllReceipts p) (\<lambda>all.
           Inr (\<not> all \<or> lstBegin (ifaceOut (pr_q p)) \<noteq> None \<or> lstBegin (netOut (pr_q p)) \<noteq> None)))"

subsection \<open>The loop\<close>

record streams =
  inIface :: input
  inNet :: input
  outIface :: "byte list"
  outNet :: "byte list"

text \<open>What \<open>select\<close> reports: the interface and the network are readable, writable.\<close>

record selected =
  rdIface :: bool
  rdNet :: bool
  wrIface :: bool
  wrNet :: bool

text \<open>One round: the sets are computed before \<open>select\<close>, then the handlers run, readers first.\<close>

definition loopRound :: "nat \<Rightarrow> env \<Rightarrow> selected \<Rightarrow> streams \<times> peer \<Rightarrow> (streams \<times> peer) result" where
  "loopRound fuel tox sel = (\<lambda>(io, p).
     let env = apiBase tox; rd1 = isIfaceRD p \<and> rdIface sel; wr2 = isIfaceWR p \<and> wrIface sel; wr3 = isNetWR p \<and> wrNet sel
     in bindR (isNetRD p) (\<lambda>rd3.
        bindR (if rd1 then bindR (onIfaceRD fuel env (inIface io) p) (\<lambda>(s, p). Inr (io\<lparr>inIface := s\<rparr>, p))
               else Inr (io, p)) (\<lambda>(io, p).
        bindR (if rd3 \<and> rdNet sel then bindR (onNetRD env (inNet io) p) (\<lambda>(s, p). Inr (io\<lparr>inNet := s\<rparr>, p))
               else Inr (io, p)) (\<lambda>(io, p).
        bindR (if wr2 then bindR (onIfaceWR (myFriendId p) (pr_q p)) (\<lambda>(bs, q).
                 Inr (io\<lparr>outIface := outIface io @ bs\<rparr>, p\<lparr>pr_q := q\<rparr>))
               else Inr (io, p)) (\<lambda>(io, p).
        if wr3 then bindR (onNetWR (myFriendId p) (pr_q p)) (\<lambda>(bs, q).
          Inr (io\<lparr>outNet := outNet io @ bs\<rparr>, p\<lparr>pr_q := q\<rparr>))
        else Inr (io, p))))))"

text \<open>The loop, for as many rounds as \<open>select\<close> returns; the flag tells whether it has ended.\<close>

fun loop3 :: "nat \<Rightarrow> env \<Rightarrow> selected list \<Rightarrow> streams \<times> peer \<Rightarrow> (bool \<times> streams \<times> peer) result" where
  "loop3 fuel env [] st = Inr (False, st)"
| "loop3 fuel env (sel # sels) st =
     bindR (loopRound fuel env sel st) (\<lambda>st.
     bindR (needContinue (snd st)) (\<lambda>continue.
     if continue then loop3 fuel env sels st else Inr (True, st)))"

subsection \<open>The start of main\<close>

definition peer0 :: "u32 \<Rightarrow> u32 \<Rightarrow> world \<Rightarrow> peer" where
  "peer0 my his w = \<lparr>myFriendId = my, hisFriendId = his, sawIfaceEOF = False, sawNetEOF = False,
     sawNetEndSignal = False, netExpectMessages = 0, netReceivedMessages = 0,
     netReceivedReceiptsShort = (\<lambda>_. 0), netReceivedReceiptsLong = (\<lambda>_. 0),
     msgIdIface = 0, msgIdNet = 0, pr_q = pqueues0, pr_lib = w\<rparr>"

text \<open>
  The database is given by its tables, or \<open>None\<close> when the name is empty.  In that case \<open>apiFront\<close> is
  never set, and its member that is called next is NULL.
\<close>

definition mainSetup :: "u32 \<Rightarrow> u32 \<Rightarrow> (meta_row list \<times> data_row list) option \<Rightarrow> u32 \<Rightarrow> u32 \<Rightarrow> u32 \<Rightarrow> peer result" where
  "mainSetup my his dbFile maxLength atATime expiration =
     (let w = set_parameters \<lparr>maxMessageLength = maxLength, fragmentsAtATime = atATime,
                receiptExpirationTimeMs = expiration, receiptRangeLo = DEFRAG_RECEIPTS_LO,
                receiptRangeHi = DEFRAG_RECEIPTS_HI\<rparr> world0
      in case dbFile of
           Some (metaRows, dataRows) \<Rightarrow>
             bindR (initialize_api w) (\<lambda>w.
             bindR (initialize_db metaRows dataRows False w) (\<lambda>w. Inr (peer0 my his w)))
         | None \<Rightarrow> bindR (initialize_db_inmemory w) (\<lambda>w. Inl NullDeref))"

subsection \<open>The line protocol, end to end\<close>

text \<open>What a line says, and what the peer does on it.\<close>

datatype line = LMessage u32 u32 "byte list" | LReceipt u32 | LEnd u32

definition lineOf :: "u32 \<Rightarrow> packet \<Rightarrow> line" where
  "lineOf my p = (case pk_msg p of
     Some m \<Rightarrow> LMessage (pk_msgId p) my m
   | None \<Rightarrow> if pk_receipt p \<noteq> 0 then LReceipt (pk_receipt p) else LEnd (cntMsgEndSignal p))"

fun handleLine :: "env \<Rightarrow> line \<Rightarrow> peer \<Rightarrow> peer result" where
  "handleLine env (LMessage msgId friend m) p =
     bindR (callLib (libMessage env friend 0 m) p) (\<lambda>(_, p).
     bindR (appendNet (packetCreateReceipt msgId (pr_q p))) (\<lambda>q. Inr (p\<lparr>pr_q := q\<rparr>)))"
| "handleLine env (LReceipt msgId) p = bindR (callLib (libReceipt env msgId) p) (\<lambda>(_, p). Inr p)"
| "handleLine env (LEnd n) p = Inr (p\<lparr>sawNetEndSignal := True, netExpectMessages := n\<rparr>)"

text \<open>Messages that the format can carry: no zero byte, and a length that is no negative \<open>int\<close>.\<close>

definition printable :: "packet \<Rightarrow> bool" where
  "printable p \<longleftrightarrow> (case pk_msg p of None \<Rightarrow> True
     | Some m \<Rightarrow> 0 \<notin> set m \<and> length m < 2 ^ 31 \<and> msgLength p = of_nat (length m))"

definition lineBytes :: "u32 \<Rightarrow> packet \<Rightarrow> byte list" where
  "lineBytes my p = (case printPacket True my p of Inl _ \<Rightarrow> [] | Inr bs \<Rightarrow> bs)"

lemma cstr_clean [simp]: "0 \<notin> set m \<Longrightarrow> cstr m = m"
  by (auto simp: cstr_def takeWhile_eq_all_conv)

lemma short_length:
  assumes "length m < 2 ^ 31"
  shows "sint (ucast (of_nat (length m) :: u64) :: u32) = int (length m)" "unat (of_nat (length m) :: u64) = length m"
proof -
  show u: "unat (of_nat (length m) :: u64) = length m" using assms by (intro unat_of_nat_u64) simp
  then have "(ucast (of_nat (length m) :: u64) :: u32) = of_nat (length m)" by (simp add: ucast_via_nat)
  then show "sint (ucast (of_nat (length m) :: u64) :: u32) = int (length m)"
    using sint_of_nat_u32 [OF assms] by simp
qed

lemma printPacket_message:
  assumes "printable p" "pk_msg p = Some m"
  shows "printPacket True my p = Inr (chrM # sp # decDigits (unat (pk_msgId p)) @ sp # decDigits (unat my) @ sp #
    decDigits (length m) @ sp # m @ [nl])"
proof -
  have "length m < 2 ^ 31" "msgLength p = of_nat (length m)" "0 \<notin> set m" using assms by (simp_all add: printable_def)
  then show ?thesis using assms(2) by (simp add: printPacket_def printPrec_def short_length)
qed

lemma onNetRD_message:
  assumes "length m < 2 ^ 31" "0 \<notin> set m"
  shows "onNetRD env (feed (chrM # sp # decDigits (unat mid) @ sp # decDigits (unat friend) @ sp #
      decDigits (length m) @ sp # m @ nl # rest) cs) p =
    bindR (handleLine env (LMessage mid friend m) p) (\<lambda>p. Inr (feed rest cs, p))"
proof -
  have m: "length m < 2 ^ 32 - 1" using assms(1) by simp
  show ?thesis
    by (simp only: onNetRD_def readChar_feed Let_def case_prod_conv if_True skipChar_feed bindR_Inr
        readUInt_feed [OF not_isdigit_sep(1)] readString_feed [OF m] cstr_clean [OF assms(2)] handleLine.simps bindR_assoc)
      (auto simp: bindR_def split: sum.split prod.split)
qed

lemma onNetRD_line:
  assumes "printable pkt"
  shows "onNetRD env (feed (lineBytes my pkt @ rest) cs) p =
    bindR (handleLine env (lineOf my pkt) p) (\<lambda>p. Inr (feed rest cs, p))"
proof (cases "pk_msg pkt")
  case (Some m)
  then have "length m < 2 ^ 31" "0 \<notin> set m" using assms by (simp_all add: printable_def)
  from onNetRD_message [OF this, of env "pk_msgId pkt" my rest cs p] show ?thesis
    using Some by (simp only: lineBytes_def printPacket_message [OF assms Some] sum.case append_Cons append_assoc
        append_Nil lineOf_def option.case)
next
  case None
  have "readUInt (feed (decDigits (unat n) @ nl # rest) cs) nl = Inr (n, feed rest cs)" for n by simp
  then show ?thesis
    using None by (cases "pk_receipt pkt = 0")
      (simp_all add: lineBytes_def printPacket_def lineOf_def onNetRD_def bindR_assoc case_prod_unfold
        del: feed_simps)
qed

lemma printPacket_next [simp]: "printPacket b my (p\<lparr>pk_next := x\<rparr>) = printPacket b my p"
  by (cases b) (simp_all add: printPacket_def split: option.split)

lemma onNetWR_line:
  assumes "queues q is (pkt # ns)" "printable pkt"
  shows "\<exists>q'. onNetWR my q = Inr (lineBytes my pkt, q') \<and> queues q' is ns"
proof -
  obtain q' where q': "takeNet q = Inr (pkt, q')" "queues q' is ns" using net_queue.deq_rel [OF assms(1)] by blast
  then obtain a q1 p1 where a: "packetPickFront (pk_heap q) (netOut q) = Inr (a, q1)" "derefPkt (pk_heap q) a = Inr p1"
    "packetDelete (pk_heap q) a = Inr (pk_heap q')" "pkt = p1\<lparr>pk_next := None\<rparr>" "q' = q\<lparr>netOut := q1, pk_heap := pk_heap q'\<rparr>"
    by (auto simp: takeNet_def takePacket_def bindR_eq_Inr)
  have "\<exists>bytes. printPacket True my pkt = Inr bytes"
  proof (cases "pk_msg pkt")
    case (Some m)
    with printPacket_message [OF assms(2)] show ?thesis by blast
  qed (simp add: printPacket_def)
  moreover have "printPacket True my p1 = printPacket True my pkt" by (simp add: a(4))
  ultimately have "onNetWR my q = Inr (lineBytes my pkt, q\<lparr>netOut := q1, pk_heap := pk_heap q'\<rparr>)"
    using a(1-3) by (auto simp: onNetWR_def onAnyWR_def lineBytes_def)
  with q'(2) a(5) show ?thesis by simp
qed

text \<open>The queue to the network is written line by line, and read line by line.\<close>

fun writeLines :: "nat \<Rightarrow> u32 \<Rightarrow> pqueues \<Rightarrow> (byte list \<times> pqueues) result" where
  "writeLines 0 my q = Inr ([], q)"
| "writeLines (Suc n) my q = bindR (onNetWR my q) (\<lambda>(bs, q). bindR (writeLines n my q) (\<lambda>(bs', q). Inr (bs @ bs', q)))"

fun readLines :: "nat \<Rightarrow> env \<Rightarrow> input \<Rightarrow> peer \<Rightarrow> (input \<times> peer) result" where
  "readLines 0 env s p = Inr (s, p)"
| "readLines (Suc n) env s p = bindR (onNetRD env s p) (\<lambda>(s, p). readLines n env s p)"

fun handleLines :: "env \<Rightarrow> line list \<Rightarrow> peer \<Rightarrow> peer result" where
  "handleLines env [] p = Inr p"
| "handleLines env (l # ls) p = bindR (handleLine env l p) (handleLines env ls)"

lemma readLines_lines:
  "list_all printable ns \<Longrightarrow> readLines (length ns) env (feed (concat (map (lineBytes my) ns) @ rest) cs) p =
     bindR (handleLines env (map (lineOf my) ns) p) (\<lambda>p. Inr (feed rest cs, p))"
proof (induction ns arbitrary: p)
  case (Cons pkt ns)
  then have "printable pkt" by simp
  note onNetRD_line [OF this, of env my "concat (map (lineBytes my) ns) @ rest" cs p]
  with Cons show ?case by (simp add: bindR_assoc)
qed simp

lemma writeLines_lines:
  "queues q is ns \<Longrightarrow> list_all printable ns \<Longrightarrow>
     \<exists>q'. writeLines (length ns) my q = Inr (concat (map (lineBytes my) ns), q') \<and> queues q' is []"
proof (induction ns arbitrary: q)
  case (Cons pkt ns)
  then obtain q1 where "onNetWR my q = Inr (lineBytes my pkt, q1)" "queues q1 is ns"
    using onNetWR_line by fastforce
  with Cons.IH [of q1] Cons.prems(2) show ?case by auto
qed simp

text \<open>C36. The line protocol between two peers round-trips: the packets in the queue to the network, messages without zero bytes, receipts and the end signal, are written by \<open>onNetWR\<close> as bytes from which \<open>onNetRD\<close> of the other peer reads exactly these packets in their order, and acts on each of them.\<close>

theorem line_protocol_roundtrip:
  assumes "queues q is ns" "list_all printable ns"
  shows "\<exists>bytes q'. writeLines (length ns) my q = Inr (bytes, q') \<and> queues q' is [] \<and>
    (\<forall>env p rest cs. readLines (length ns) env (feed (bytes @ rest) cs) p =
       bindR (handleLines env (map (lineOf my) ns) p) (\<lambda>p. Inr (feed rest cs, p)))"
  using writeLines_lines [OF assms] readLines_lines [OF assms(2)] by blast

theorem line_protocol_roundtrip_witness:
  "\<exists>q bytes q'. queues q [] [messagePacket [0x68, 0x69] 3, receiptPacket 7, endPacket 2] \<and>
    writeLines 3 5 q = Inr (bytes, q') \<and> queues q' [] [] \<and>
    (\<forall>env p rest cs. readLines 3 env (feed (bytes @ rest) cs) p =
       bindR (handleLines env [LMessage 3 5 [0x68, 0x69], LReceipt 7, LEnd 2] p) (\<lambda>p. Inr (feed rest cs, p)))"
proof -
  let ?ns = "[messagePacket [0x68, 0x69] 3, receiptPacket 7, endPacket 2]"
  have "list_all newPacket ?ns" by simp
  then obtain q where q: "queues q [] ?ns" using net_queue.enq_all [OF queues0, of ?ns] by auto
  have pr: "list_all printable ?ns" by (simp add: printable_def messagePacket_def receiptPacket_def endPacket_def)
  have lines: "map (lineOf 5) ?ns = [LMessage 3 5 [0x68, 0x69], LReceipt 7, LEnd 2]"
    by (simp add: lineOf_def messagePacket_def receiptPacket_def endPacket_def)
  have n: "length ?ns = 3" by simp
  show ?thesis using line_protocol_roundtrip [OF q pr, of 5] q unfolding lines n by blast
qed

text \<open>A body of which too few bytes are at hand.\<close>

lemma readString_short:
  assumes "bs \<noteq> []" "length bs < n" "n < 2 ^ 31"
  shows "readString (feed (decDigits n @ sp # bs) cs) nl = Inl Aborted"
proof -
  let ?sz = "of_nat n :: u32"
  have sz: "unat ?sz = n" using assms(3) by (intro unat_of_nat_u32) simp
  have "unat (?sz + 1) = unat (of_nat (n + 1) :: u32)" by (simp add: add.commute)
  also have "\<dots> = n + 1" using assms(3) by (intro unat_of_nat_u32) simp
  finally have sz1: "unat (?sz + 1) = n + 1" .
  have "readUInt (feed (decDigits (unat ?sz) @ sp # bs) cs) sp = Inr (?sz, feed bs cs)" by (rule readUInt_feed) simp
  then show ?thesis
    using assms(2) by (simp only: readString_def bindR_Inr case_prod_conv Let_def sz sz1 readBytes_feed_ne [OF assms(1)]) simp
qed

text \<open>A body of the announced length without the newline.\<close>

lemma readString_no_newline:
  assumes "bs \<noteq> []" "length bs = n" "n < 2 ^ 31"
  shows "readString (feed (decDigits n @ sp # bs) []) nl = Inl Aborted"
proof -
  let ?sz = "of_nat n :: u32"
  have sz: "unat ?sz = n" using assms(3) by (intro unat_of_nat_u32) simp
  have "unat (?sz + 1) = unat (of_nat (n + 1) :: u32)" by (simp add: add.commute)
  also have "\<dots> = n + 1" using assms(3) by (intro unat_of_nat_u32) simp
  finally have sz1: "unat (?sz + 1) = n + 1" .
  have "readUInt (feed (decDigits (unat ?sz) @ sp # bs) []) sp = Inr (?sz, feed bs [])" by (rule readUInt_feed) simp
  then show ?thesis
    using assms(2)
    by (simp only: readString_def bindR_Inr case_prod_conv Let_def sz sz1 readBytes_feed_ne [OF assms(1)]) (simp add: skipChar_def)
qed

lemma onNetRD_bad_body:
  assumes "readString (feed bs cs) nl = Inl e"
  shows "onNetRD env (feed (chrM # sp # decDigits (unat (mid :: u32)) @ sp # decDigits (unat (friend :: u32)) @ sp # bs) cs) p = Inl e"
  by (simp only: onNetRD_def readChar_feed Let_def case_prod_conv if_True skipChar_feed bindR_Inr
      simp_thms readUInt_feed [OF not_isdigit_sep(1)] assms bindR_Inl)

lemma cstr_shorter: "0 \<in> set m \<Longrightarrow> length (cstr m) < length m"
  by (induction m) (auto simp: cstr_def)

lemma aborts_cases:
  assumes "length m < 2 ^ 31"
  shows "0 \<in> set m \<Longrightarrow> \<exists>bytes. printPacket True my (messagePacket m mid) = Inr bytes \<and> onNetRD env [bytes] p = Inl Aborted"
    and "m = u @ v \<Longrightarrow> u \<noteq> [] \<Longrightarrow> v \<noteq> [] \<Longrightarrow>
      onNetRD env [[chrM, sp] @ decDigits (unat mid) @ [sp] @ decDigits (unat my) @ [sp] @ decDigits (length m) @ [sp] @ u,
        v @ [nl]] p = Inl Aborted"
proof -
  assume 0: "0 \<in> set m"
  let ?line = "chrM # sp # decDigits (unat mid) @ sp # decDigits (unat my) @ sp # decDigits (length m) @ sp # cstr m @ [nl]"
  have "printPacket True my (messagePacket m mid) = Inr ?line"
    by (simp add: printPacket_def messagePacket_def printPrec_def short_length [OF assms])
  moreover have "readString (feed (decDigits (length m) @ sp # cstr m @ [nl]) []) nl = Inl Aborted"
  proof (cases "length (cstr m @ [nl]) = length m")
    case True
    then show ?thesis by (intro readString_no_newline [OF _ _ assms]) simp_all
  next
    case False
    then show ?thesis using cstr_shorter [OF 0] by (intro readString_short [OF _ _ assms]) simp_all
  qed
  from onNetRD_bad_body [OF this, of env mid my p] have "onNetRD env [?line] p = Inl Aborted" by simp
  ultimately show "\<exists>bytes. printPacket True my (messagePacket m mid) = Inr bytes \<and> onNetRD env [bytes] p = Inl Aborted"
    by blast
next
  assume "m = u @ v" "u \<noteq> []" "v \<noteq> []"
  then have "readString (feed (decDigits (length m) @ sp # u) [v @ [nl]]) nl = Inl Aborted"
    by (intro readString_short [OF _ _ assms]) simp_all
  from onNetRD_bad_body [OF this, of env mid my p]
  show "onNetRD env [[chrM, sp] @ decDigits (unat mid) @ [sp] @ decDigits (unat my) @ [sp] @ decDigits (length m) @ [sp] @ u,
        v @ [nl]] p = Inl Aborted" by simp
qed

text \<open>The line protocol carries neither zero bytes nor pieces: a message with a zero byte is printed with its full length but cut at that byte, and a message whose bytes arrive in two pieces is read in part; either way the reader aborts.\<close>

theorem line_protocol_aborts:
  assumes "length m < 2 ^ 31"
  shows "(0 \<in> set m \<longrightarrow> (\<exists>bytes. printPacket True my (messagePacket m mid) = Inr bytes \<and> onNetRD env [bytes] p = Inl Aborted)) \<and>
    (\<forall>u v. m = u @ v \<and> u \<noteq> [] \<and> v \<noteq> [] \<longrightarrow>
      onNetRD env [[chrM, sp] @ decDigits (unat mid) @ [sp] @ decDigits (unat my) @ [sp] @ decDigits (length m) @ [sp] @ u,
        v @ [nl]] p = Inl Aborted)"
  using aborts_cases [OF assms] by blast

theorem line_protocol_aborts_witness:
  "(\<exists>bytes. printPacket True 5 (messagePacket [0x68, 0, 0x69] 3) = Inr bytes \<and> onNetRD env_default [bytes] (peer0 5 7 world0) = Inl Aborted) \<and>
   onNetRD env_default [[chrM, sp] @ decDigits (unat (3 :: u32)) @ [sp] @ decDigits (unat (5 :: u32)) @ [sp] @
     decDigits (length [0x68, 0x69 :: byte]) @ [sp] @ [0x68], [0x69] @ [nl]] (peer0 5 7 world0) = Inl Aborted"
proof
  show "\<exists>bytes. printPacket True 5 (messagePacket [0x68, 0, 0x69] 3) = Inr bytes \<and>
      onNetRD env_default [bytes] (peer0 5 7 world0) = Inl Aborted"
    using line_protocol_aborts [of "[0x68, 0, 0x69]" 5 3 env_default "peer0 5 7 world0"] by simp
  show "onNetRD env_default [[chrM, sp] @ decDigits (unat (3 :: u32)) @ [sp] @ decDigits (unat (5 :: u32)) @ [sp] @
     decDigits (length [0x68, 0x69 :: byte]) @ [sp] @ [0x68], [0x69] @ [nl]] (peer0 5 7 world0) = Inl Aborted"
    by (rule conjunct2 [OF line_protocol_aborts [of "[0x68, 0x69]"], rule_format]) simp_all
qed

subsection \<open>The end of the exchange\<close>

text \<open>How many receipts below number \<open>k\<close> have been received, short and long ones.\<close>

definition receiptsBelow :: "peer \<Rightarrow> nat \<Rightarrow> nat" where
  "receiptsBelow p k =
     (\<Sum>i<k. of_bool (netReceivedReceiptsShort p i \<noteq> 0) + of_bool (netReceivedReceiptsLong p i \<noteq> 0))"

lemma receiptsBelow_mono: "i \<le> j \<Longrightarrow> receiptsBelow p i \<le> receiptsBelow p j"
  unfolding receiptsBelow_def by (rule sum_mono2) auto

lemma countReceipts_eq:
  assumes "unat n < receiptsLen" "receiptsBelow p (unat n + 1) \<le> unat n"
  shows "i \<le> unat n + 1 \<Longrightarrow>
    countReceipts (netReceivedReceiptsShort p) (netReceivedReceiptsLong p) n i (of_nat (receiptsBelow p i)) =
      Inr (of_nat (receiptsBelow p (unat n + 1)))"
proof (induction "unat n + 1 - i" arbitrary: i)
  case 0
  then have "i = unat n + 1" by simp
  then show ?case by (subst countReceipts.simps) simp
next
  case (Suc d)
  let ?c = "receiptsBelow p"
  have i: "i \<le> unat n" using Suc.hyps(2) by simp
  have le: "?c i \<le> ?c (unat n + 1)" using receiptsBelow_mono [of i "unat n + 1" p] i by simp
  then have "?c i \<le> unat n" using assms(2) by simp
  then have c: "unat (of_nat (?c i) :: u32) = ?c i" using unat_u32_bound [of n] by (intro unat_of_nat_u32) simp
  show ?case
  proof (cases "?c i < unat n")
    case True
    have "(of_nat (?c i) + (if netReceivedReceiptsShort p i \<noteq> 0 then 1 else 0) +
        (if netReceivedReceiptsLong p i \<noteq> 0 then 1 else 0) :: u32) = of_nat (?c (i + 1))"
      by (simp add: receiptsBelow_def)
    moreover have "of_nat (?c i) < n" using True c by (simp add: word_less_nat_alt)
    ultimately show ?thesis
      using Suc.hyps(1) [of "i + 1"] Suc.hyps(2) i assms(1) by (subst countReceipts.simps) simp
  next
    case False
    then have "?c i = unat n" "?c (unat n + 1) = unat n" using \<open>?c i \<le> unat n\<close> le assms(2) by simp_all
    then show ?thesis by (subst countReceipts.simps) simp
  qed
qed

lemma receivedAllReceipts_cases:
  assumes "unat (msgIdIface p) < receiptsLen" "receiptsBelow p (unat (msgIdIface p) + 1) \<le> unat (msgIdIface p)"
  shows "receivedAllReceipts p = Inr (receiptsBelow p (unat (msgIdIface p) + 1) = unat (msgIdIface p))"
    and "unat (msgIdIface p) < k \<Longrightarrow> k < receiptsLen \<Longrightarrow> netReceivedReceiptsShort p k \<noteq> 0 \<Longrightarrow>
      receiptsBelow p receiptsLen = unat (msgIdIface p) \<Longrightarrow> receiptsBelow p (unat (msgIdIface p) + 1) < unat (msgIdIface p)"
proof -
  let ?n = "unat (msgIdIface p)"
  have "countReceipts (netReceivedReceiptsShort p) (netReceivedReceiptsLong p) (msgIdIface p) 0 0 =
      Inr (of_nat (receiptsBelow p (?n + 1)))"
    using countReceipts_eq [OF assms, of 0] by (simp add: receiptsBelow_def)
  moreover have "of_nat (receiptsBelow p (?n + 1)) = msgIdIface p \<longleftrightarrow> receiptsBelow p (?n + 1) = ?n"
  proof
    assume eq: "of_nat (receiptsBelow p (?n + 1)) = msgIdIface p"
    have "receiptsBelow p (?n + 1) < 2 ^ 32" using assms(2) unat_u32_bound [of "msgIdIface p"] by simp
    from unat_of_nat_u32 [OF this] show "receiptsBelow p (?n + 1) = ?n" unfolding eq by simp
  qed simp
  ultimately show all: "receivedAllReceipts p = Inr (receiptsBelow p (?n + 1) = ?n)"
    by (simp add: receivedAllReceipts_def)
  assume k: "?n < k" "k < receiptsLen" "netReceivedReceiptsShort p k \<noteq> 0" "receiptsBelow p receiptsLen = ?n"
  have "receiptsBelow p (?n + 1) < receiptsBelow p (k + 1)"
    using k(1,3) receiptsBelow_mono [of "?n + 1" k p] by (simp add: receiptsBelow_def)
  also have "\<dots> \<le> ?n" using receiptsBelow_mono [of "k + 1" receiptsLen p] k(2,4) by simp
  finally show "receiptsBelow p (?n + 1) < ?n" .
qed

text \<open>The same receipts up to \<open>msgIdIface\<close>: what arrives above it, and whatever else happens, makes no difference.\<close>

definition sameReceipts :: "peer \<Rightarrow> peer \<Rightarrow> bool" where
  "sameReceipts p p' \<longleftrightarrow> msgIdIface p' = msgIdIface p \<and> (\<forall>i\<le>unat (msgIdIface p).
     netReceivedReceiptsShort p' i = netReceivedReceiptsShort p i \<and> netReceivedReceiptsLong p' i = netReceivedReceiptsLong p i)"

lemma sameReceipts_waits:
  assumes "sameReceipts p p'" "unat (msgIdIface p) < receiptsLen" "receiptsBelow p (unat (msgIdIface p) + 1) < unat (msgIdIface p)"
  shows "needContinue p' = Inr True \<and> isNetRD p' = Inr True"
proof -
  have "k \<le> unat (msgIdIface p) + 1 \<Longrightarrow> receiptsBelow p' k = receiptsBelow p k" for k
    using assms(1) by (induction k) (auto simp: receiptsBelow_def sameReceipts_def)
  then have "receiptsBelow p' (unat (msgIdIface p') + 1) < unat (msgIdIface p')" "unat (msgIdIface p') < receiptsLen"
    using assms by (simp_all add: sameReceipts_def)
  then have "receivedAllReceipts p' = Inr False" using receivedAllReceipts_cases(1) [of p'] by simp
  then show ?thesis by (simp add: needContinue_def isNetRD_def)
qed

text \<open>C38. \<open>receivedAllReceipts\<close> compares the number of receipts numbered up to \<open>msgIdIface\<close> with \<open>msgIdIface\<close>, the
  number of messages sent.  But the numbers of short messages count fragments too.  So when as many
  receipts have arrived as messages were sent, but one of a short message has a greater number, then in
  this state and in every other with the same \<open>msgIdIface\<close> and the same receipts up to it, \<open>needContinue\<close>
  makes the loop go on and \<open>isNetRD\<close> has it read from the network: only a further receipt for a
  number up to \<open>msgIdIface\<close>, or a further message from the interface, could change that.\<close>

theorem receivedAllReceipts_correct:
  assumes "unat (msgIdIface p) < receiptsLen" "receiptsBelow p (unat (msgIdIface p) + 1) \<le> unat (msgIdIface p)"
  shows "receivedAllReceipts p = Inr (receiptsBelow p (unat (msgIdIface p) + 1) = unat (msgIdIface p)) \<and>
    ((\<exists>k. unat (msgIdIface p) < k \<and> k < receiptsLen \<and> netReceivedReceiptsShort p k \<noteq> 0) \<and>
     receiptsBelow p receiptsLen = unat (msgIdIface p) \<longrightarrow>
       (\<forall>p'. sameReceipts p p' \<longrightarrow> needContinue p' = Inr True \<and> isNetRD p' = Inr True))"
  using receivedAllReceipts_cases [OF assms] sameReceipts_waits [OF _ assms(1)] by blast

text \<open>A peer that has sent a long message in two fragments and then a short one, number 3.\<close>

theorem receivedAllReceipts_correct_witness:
  "receivedAllReceipts ((peer0 5 7 world0)\<lparr>msgIdIface := 2, netReceivedReceiptsShort := (\<lambda>_. 0)(3 := 1),
      netReceivedReceiptsLong := (\<lambda>_. 0)(1 := 1)\<rparr>) = Inr False \<and>
   needContinue ((peer0 5 7 world0)\<lparr>msgIdIface := 2, netReceivedReceiptsShort := (\<lambda>_. 0)(3 := 1),
      netReceivedReceiptsLong := (\<lambda>_. 0)(1 := 1)\<rparr>) = Inr True"
proof -
  let ?p = "(peer0 5 7 world0)\<lparr>msgIdIface := 2, netReceivedReceiptsShort := (\<lambda>_. 0)(3 := 1),
      netReceivedReceiptsLong := (\<lambda>_. 0)(1 := 1)\<rparr>"
  have below: "receiptsBelow ?p k = (if 3 < k then 1 else 0) + (if 1 < k then 1 else 0)" for k
    by (induction k) (auto simp: receiptsBelow_def)
  have n: "unat (msgIdIface ?p) = 2" by simp
  have lim: "unat (msgIdIface ?p) < receiptsLen" "receiptsBelow ?p (unat (msgIdIface ?p) + 1) \<le> unat (msgIdIface ?p)"
    unfolding n below by simp_all
  have "receivedAllReceipts ?p = Inr (receiptsBelow ?p (unat (msgIdIface ?p) + 1) = unat (msgIdIface ?p))"
    using receivedAllReceipts_correct [OF lim] by blast
  moreover have "needContinue ?p = Inr True \<and> isNetRD ?p = Inr True"
  proof -
    have "unat (msgIdIface ?p) < 3 \<and> 3 < receiptsLen \<and> netReceivedReceiptsShort ?p 3 \<noteq> 0" unfolding n by simp
    moreover have "receiptsBelow ?p receiptsLen = unat (msgIdIface ?p)" unfolding n below by simp
    moreover have "sameReceipts ?p ?p" by (simp add: sameReceipts_def)
    ultimately show ?thesis using receivedAllReceipts_correct [OF lim] by blast
  qed
  ultimately show ?thesis unfolding n below by simp
qed

subsection \<open>The callbacks and the start\<close>

text \<open>\<open>front_read_receipt\<close> writes outside its arrays exactly for receipt numbers from 2^20 up to the range of the defragmenter and from 2^20 above its start on, which a peer can send; never for the receipts of the defragmenter itself.\<close>

theorem front_read_receipt_bounds:
  assumes "queues (pr_q p) is ns"
  shows "front_read_receipt n p = Inl OutOfBounds \<longleftrightarrow>
      \<not> (unat n < 2 ^ 20 \<or> 0x10000000 \<le> unat n \<and> unat n < 0x10000000 + 2 ^ 20)"
    and "DEFRAG_RECEIPTS_LO \<le> n \<Longrightarrow> n \<le> DEFRAG_RECEIPTS_HI \<Longrightarrow>
      \<exists>p'. front_read_receipt n p = Inr p' \<and> queues (pr_q p') (is @ [receiptPacket n]) ns"
proof -
  obtain q where q: "appendIface (packetCreateReceipt n (pr_q p)) = Inr q" "queues q (is @ [receiptPacket n]) ns"
    using appendIface_queues [OF assms, of "receiptPacket n"] by (auto simp: packetCreateReceipt_def)
  have long: "unat (n - DEFRAG_RECEIPTS_LO) = unat n - 0x10000000" if "\<not> n < DEFRAG_RECEIPTS_LO"
    using that by (simp add: unat_sub)
  have lo: "n < DEFRAG_RECEIPTS_LO \<longleftrightarrow> unat n < 0x10000000" by (simp add: word_less_nat_alt)
  show "front_read_receipt n p = Inl OutOfBounds \<longleftrightarrow>
      \<not> (unat n < 2 ^ 20 \<or> 0x10000000 \<le> unat n \<and> unat n < 0x10000000 + 2 ^ 20)"
    using q(1) long by (auto simp: front_read_receipt_def lo)
  assume "DEFRAG_RECEIPTS_LO \<le> n" "n \<le> DEFRAG_RECEIPTS_HI"
  then have "\<not> n < DEFRAG_RECEIPTS_LO" "unat n - 0x10000000 < receiptsLen"
    by (simp_all add: word_le_nat_alt not_less)
  then show "\<exists>p'. front_read_receipt n p = Inr p' \<and> queues (pr_q p') (is @ [receiptPacket n]) ns"
    using q long by (simp add: front_read_receipt_def)
qed

theorem front_read_receipt_bounds_witness:
  "front_read_receipt 0x100000 (peer0 5 7 world0) = Inl OutOfBounds \<and>
   (\<exists>p'. front_read_receipt 0x10000001 (peer0 5 7 world0) = Inr p' \<and> queues (pr_q p') [receiptPacket 0x10000001] [])"
proof -
  have q: "queues (pr_q (peer0 5 7 world0)) [] []" by (simp add: peer0_def)
  show ?thesis
    using front_read_receipt_bounds(1) [OF q, where n = "0x100000"] front_read_receipt_bounds(2) [OF q, where n = "0x10000001"] by simp
qed

text \<open>Without a database file, \<open>main\<close> calls a NULL pointer: only the branch with a file sets \<open>apiFront\<close>.  With a new file the peer starts with the library initialised, in a consistent state.\<close>

theorem mainSetup_branches:
  "mainSetup my his None maxLength atATime expiration = Inl NullDeref"
  "\<exists>p. mainSetup my his (Some ([], [])) maxLength atATime expiration = Inr p \<and> queues (pr_q p) [] [] \<and>
     initializedApi (pr_lib p) \<and> initializedDb (pr_lib p) \<and> w_trace (pr_lib p) = [] \<and>
     maxMessageLength (w_params (pr_lib p)) = maxLength \<and> markerMaxSizeEver (pr_lib p) = markerMaxSizeEverValue"
  by (simp_all add: mainSetup_def set_parameters_def world0_def initialize_api_def initialize_db_def initializeWhenReady_def
      initialize_db_inmemory_def dbInitializeInMemory_def dbInitialize_def initDb_def readDbName_def createSchema_def
      dbLock_def dbUnlock_def db0_def initialize_def loadPendingSentMessages_def selectPending_def peer0_def)

subsection \<open>Short messages from peer to peer\<close>

text \<open>A message that goes out as it is, and the line that brings it.\<close>

definition shortMessage :: "u32 \<Rightarrow> byte list \<Rightarrow> bool" where
  "shortMessage maxLength m \<longleftrightarrow> markerExists m = Inr False \<and> length m \<le> unat maxLength \<and> length m < 2 ^ 31 \<and> 0 \<notin> set m"

definition ifaceLine :: "byte list \<Rightarrow> byte list" where
  "ifaceLine m = chrM # sp # decDigits (length m) @ sp # m @ [nl]"

text \<open>The packet numbers of the peer are those that \<open>apiBase\<close> gives.\<close>

definition numbered :: "peer \<Rightarrow> bool" where
  "numbered p \<longleftrightarrow> msgIdNet p = of_nat (length (sentOf (w_trace (pr_lib p))))"

text \<open>A typed message is sent with the next number.\<close>

lemma onIfaceRD_short:
  assumes "queues (pr_q p) is ns" "numbered p" "shortMessage (maxMessageLength (w_params (pr_lib p))) m" "msgIdNet p + 1 \<noteq> 0"
  shows "\<exists>p'. onIfaceRD fuel (apiBase env) (feed (ifaceLine m @ rest) cs) p = Inr (feed rest cs, p') \<and>
    queues (pr_q p') is (ns @ [messagePacket m (msgIdNet p + 1)]) \<and> numbered p' \<and> msgIdNet p' = msgIdNet p + 1 \<and>
    w_params (pr_lib p') = w_params (pr_lib p) \<and> myFriendId p' = myFriendId p \<and> msgIdIface p' = msgIdIface p + 1"
proof -
  let ?r = "msgIdNet p + 1"
  have m: "markerExists m = Inr False" "length m \<le> unat (maxMessageLength (w_params (pr_lib p)))"
    "length m < 2 ^ 32 - 1" "cstr m = m"
    using assms(3) by (simp_all add: shortMessage_def)
  obtain q where q: "appendNet (packetCreateMessage m ?r (pr_q p)) = Inr q" "queues q is (ns @ [messagePacket m ?r])"
    using appendNet_queues [OF assms(1), of "messagePacket m ?r"] by (auto simp: packetCreateMessage_def)
  let ?w = "emit (ToxSend (hisFriendId p) 0 (Some m) ?r) (pr_lib p)"
  have "friend_send_message fuel (apiBase env) (pr_lib p) (hisFriendId p) 0 m = Inr (?r, ?w)"
    using m(1,2) assms(2) by (simp add: friend_send_message_def toxSend_def apiBase_def numbered_def add.commute Let_def)
  then have "callLib (\<lambda>w. friend_send_message fuel (apiBase env) w (hisFriendId p) 0 m) p =
      Inr (?r, p\<lparr>msgIdNet := ?r, pr_q := q, pr_lib := ?w\<rparr>)"
    using q(1) by (simp add: callLib_def emit_def base_friend_send_message_def)
  moreover have "onIfaceRD fuel (apiBase env) (feed (ifaceLine m @ rest) cs) p =
      bindR (callLib (\<lambda>w. friend_send_message fuel (apiBase env) w (hisFriendId p) 0 m) p) (\<lambda>(receipt, p).
        if receipt = 0 then Inl UseAfterFree else Inr (feed rest cs, p\<lparr>msgIdIface := msgIdIface p + 1\<rparr>))"
    by (simp only: onIfaceRD_def ifaceLine_def append_Cons append_Nil append_assoc readChar_feed Let_def case_prod_conv
        simp_thms if_True skipChar_feed bindR_Inr readString_feed [OF m(3)] m(4))
  moreover have "numbered (p\<lparr>msgIdNet := ?r, pr_q := q, pr_lib := ?w, msgIdIface := msgIdIface p + 1\<rparr>)"
    using assms(2) by (simp add: numbered_def emit_def add.commute)
  ultimately show ?thesis using q(2) assms(4) by (simp add: emit_def)
qed

fun readIface :: "nat \<Rightarrow> nat \<Rightarrow> env \<Rightarrow> input \<Rightarrow> peer \<Rightarrow> (input \<times> peer) result" where
  "readIface fuel 0 env s p = Inr (s, p)"
| "readIface fuel (Suc n) env s p = bindR (onIfaceRD fuel env s p) (\<lambda>(s, p). readIface fuel n env s p)"

fun writeIface :: "nat \<Rightarrow> u32 \<Rightarrow> pqueues \<Rightarrow> (byte list \<times> pqueues) result" where
  "writeIface 0 my q = Inr ([], q)"
| "writeIface (Suc n) my q = bindR (onIfaceWR my q) (\<lambda>(bs, q). bindR (writeIface n my q) (\<lambda>(bs', q). Inr (bs @ bs', q)))"

fun messagesFrom :: "u32 \<Rightarrow> byte list list \<Rightarrow> packet list" where
  "messagesFrom n [] = []"
| "messagesFrom n (m # ms) = messagePacket m (n + 1) # messagesFrom (n + 1) ms"

fun receiptsFrom :: "u32 \<Rightarrow> byte list list \<Rightarrow> packet list" where
  "receiptsFrom n [] = []"
| "receiptsFrom n (m # ms) = receiptPacket (n + 1) # receiptsFrom (n + 1) ms"

lemma length_messagesFrom [simp]: "length (messagesFrom n ms) = length ms"
  by (induction ms arbitrary: n) simp_all

lemma readIface_short:
  "queues (pr_q p) is ns \<Longrightarrow> numbered p \<Longrightarrow> list_all (shortMessage (maxMessageLength (w_params (pr_lib p)))) ms \<Longrightarrow>
   unat (msgIdNet p) + length ms < 2 ^ 32 \<Longrightarrow>
   \<exists>p'. readIface fuel (length ms) (apiBase env) (feed (concat (map ifaceLine ms) @ rest) cs) p = Inr (feed rest cs, p') \<and>
     queues (pr_q p') is (ns @ messagesFrom (msgIdNet p) ms) \<and> myFriendId p' = myFriendId p \<and>
     msgIdIface p' = msgIdIface p + of_nat (length ms)"
proof (induction ms arbitrary: p ns)
  case (Cons m ms)
  have "msgIdNet p + 1 = of_nat (unat (msgIdNet p) + 1)" by (simp add: add.commute)
  moreover have "unat (of_nat (unat (msgIdNet p) + 1) :: u32) = unat (msgIdNet p) + 1"
    using Cons.prems(4) by (intro unat_of_nat_u32) simp
  ultimately have n: "unat (msgIdNet p + 1) = unat (msgIdNet p) + 1" by (simp only:)
  then have "msgIdNet p + 1 \<noteq> 0" by (metis add_is_0 one_neq_zero unat_0)
  with Cons.prems(1-3) obtain p1 where p1:
    "onIfaceRD fuel (apiBase env) (feed (ifaceLine m @ concat (map ifaceLine ms) @ rest) cs) p =
       Inr (feed (concat (map ifaceLine ms) @ rest) cs, p1)"
    "queues (pr_q p1) is (ns @ [messagePacket m (msgIdNet p + 1)])" "numbered p1" "msgIdNet p1 = msgIdNet p + 1"
    "w_params (pr_lib p1) = w_params (pr_lib p)" "myFriendId p1 = myFriendId p" "msgIdIface p1 = msgIdIface p + 1"
    using onIfaceRD_short [of p "is" ns m fuel env "concat (map ifaceLine ms) @ rest" cs] by auto
  have "list_all (shortMessage (maxMessageLength (w_params (pr_lib p1)))) ms" "unat (msgIdNet p1) + length ms < 2 ^ 32"
    using Cons.prems(3,4) p1(4,5) n by simp_all
  from Cons.IH [OF p1(2,3) this] p1(1,4,6,7) show ?case by (auto simp: ac_simps)
qed simp

text \<open>A message that is no fragment goes to the interface, and its receipt back to the network.\<close>

lemma handleLine_short:
  assumes "queues (pr_q p) is ns" "markerExists m = Inr False"
  shows "\<exists>p'. handleLine env (LMessage mid friend m) p = Inr p' \<and>
    queues (pr_q p') (is @ [messagePacket m 0]) (ns @ [receiptPacket mid]) \<and>
    netReceivedMessages p' = netReceivedMessages p + 1"
proof -
  obtain q where q: "appendIface (packetCreateMessage m 0 (pr_q p)) = Inr q" "queues q (is @ [messagePacket m 0]) ns"
    using appendIface_queues [OF assms(1), of "messagePacket m 0"] by (auto simp: packetCreateMessage_def)
  obtain q' where q': "appendNet (packetCreateReceipt mid q) = Inr q'"
    "queues q' (is @ [messagePacket m 0]) (ns @ [receiptPacket mid])"
    using appendNet_queues [OF q(2), of "receiptPacket mid"] by (auto simp: packetCreateReceipt_def)
  have "libMessage env friend 0 m (pr_lib p) =
      Inr ((), pr_lib p\<lparr>w_trace := w_trace (pr_lib p) @ [Client (ClientMessage friend 0 m)]\<rparr>)"
    using assms(2) by (simp add: libMessage_def isFragment_def friend_message_cb_def)
  then show ?thesis using q(1) q' by (simp add: callLib_def front_friend_message_def)
qed

lemma handleLines_short:
  "queues (pr_q p) is ns \<Longrightarrow> list_all (\<lambda>m. markerExists m = Inr False) ms \<Longrightarrow>
   \<exists>p'. handleLines env (map (lineOf my) (messagesFrom n ms)) p = Inr p' \<and>
     queues (pr_q p') (is @ map (\<lambda>m. messagePacket m 0) ms) (ns @ receiptsFrom n ms) \<and>
     netReceivedMessages p' = netReceivedMessages p + of_nat (length ms)"
proof (induction ms arbitrary: p "is" ns n)
  case (Cons m ms)
  have line: "lineOf my (messagePacket m (n + 1)) = LMessage (n + 1) my m" by (simp add: lineOf_def messagePacket_def)
  obtain p1 where p1: "handleLine env (LMessage (n + 1) my m) p = Inr p1"
    "queues (pr_q p1) (is @ [messagePacket m 0]) (ns @ [receiptPacket (n + 1)])"
    "netReceivedMessages p1 = netReceivedMessages p + 1"
    using handleLine_short [OF Cons.prems(1)] Cons.prems(2) by fastforce
  have "list_all (\<lambda>m. markerExists m = Inr False) ms" using Cons.prems(2) by simp
  from Cons.IH [OF p1(2) this, of "n + 1"] obtain p' where p':
    "handleLines env (map (lineOf my) (messagesFrom (n + 1) ms)) p1 = Inr p'"
    "queues (pr_q p') ((is @ [messagePacket m 0]) @ map (\<lambda>m. messagePacket m 0) ms)
      ((ns @ [receiptPacket (n + 1)]) @ receiptsFrom (n + 1) ms)"
    "netReceivedMessages p' = netReceivedMessages p1 + of_nat (length ms)" by blast
  have "handleLines env (map (lineOf my) (messagesFrom n (m # ms))) p = Inr p'"
    by (simp only: messagesFrom.simps list.map handleLines.simps line p1(1) bindR_Inr p'(1))
  with p'(2,3) p1(3) show ?case by (auto simp: ac_simps)
qed simp

lemma onIfaceWR_short:
  assumes "queues q (messagePacket m 0 # is) ns" "length m < 2 ^ 31" "0 \<notin> set m"
  shows "\<exists>q'. onIfaceWR my q = Inr (ifaceLine m, q') \<and> queues q' is ns"
proof -
  let ?pkt = "messagePacket m 0"
  obtain q' where q': "takeIface q = Inr (?pkt, q')" "queues q' is ns" using iface_queue.deq_rel [OF assms(1)] by blast
  then obtain a q1 p1 where a: "packetPickFront (pk_heap q) (ifaceOut q) = Inr (a, q1)" "derefPkt (pk_heap q) a = Inr p1"
    "packetDelete (pk_heap q) a = Inr (pk_heap q')" "?pkt = p1\<lparr>pk_next := None\<rparr>" "q' = q\<lparr>ifaceOut := q1, pk_heap := pk_heap q'\<rparr>"
    by (auto simp: takeIface_def takePacket_def bindR_eq_Inr)
  have "printPacket False my p1 = printPacket False my ?pkt" by (simp add: a(4))
  also have "\<dots> = Inr (ifaceLine m)"
    using assms(2,3) by (simp add: printPacket_def messagePacket_def printPrec_def short_length ifaceLine_def)
  finally have "onIfaceWR my q = Inr (ifaceLine m, q\<lparr>ifaceOut := q1, pk_heap := pk_heap q'\<rparr>)"
    using a(1-3) by (simp add: onIfaceWR_def onAnyWR_def)
  with q'(2) a(5) show ?thesis by simp
qed

lemma writeIface_short:
  "queues q (map (\<lambda>m. messagePacket m 0) ms @ is) ns \<Longrightarrow> list_all (\<lambda>m. length m < 2 ^ 31 \<and> 0 \<notin> set m) ms \<Longrightarrow>
     \<exists>q'. writeIface (length ms) my q = Inr (concat (map ifaceLine ms), q') \<and> queues q' is ns"
proof (induction ms arbitrary: q)
  case (Cons m ms)
  then obtain q1 where "onIfaceWR my q = Inr (ifaceLine m, q1)" "queues q1 (map (\<lambda>m. messagePacket m 0) ms @ is) ns"
    using onIfaceWR_short [of q m "map (\<lambda>m. messagePacket m 0) ms @ is" ns my] by auto
  with Cons.IH [of q1] Cons.prems(2) show ?case by auto
qed simp

lemma messagesFrom_printable: "list_all (shortMessage L) ms \<Longrightarrow> list_all printable (messagesFrom n ms)"
  by (induction ms arbitrary: n) (simp_all add: shortMessage_def printable_def messagePacket_def)

text \<open>C35. Short messages travel from peer to peer: the lines that one peer reads from its interface are sent through the library, written to the network, read by the other peer and written to its interface as exactly these lines, in their order; the other peer counts them and queues their receipts.\<close>

theorem short_messages_travel:
  assumes "queues (pr_q a) [] []" "numbered a" "unat (msgIdNet a) + length ms < 2 ^ 32"
    "list_all (shortMessage (maxMessageLength (w_params (pr_lib a)))) ms" "queues (pr_q b) [] []"
  shows "\<exists>a' bytes q b' q'.
    readIface fuel (length ms) (apiBase tox) (feed (concat (map ifaceLine ms)) []) a = Inr ([], a') \<and>
    writeLines (length ms) (myFriendId a) (pr_q a') = Inr (bytes, q) \<and>
    readLines (length ms) (apiBase tox') (feed bytes []) b = Inr ([], b') \<and>
    netReceivedMessages b' = netReceivedMessages b + of_nat (length ms) \<and>
    writeIface (length ms) (myFriendId b') (pr_q b') = Inr (concat (map ifaceLine ms), q') \<and>
    queues q' [] (receiptsFrom (msgIdNet a) ms)"
proof -
  let ?ns = "messagesFrom (msgIdNet a) ms"
  obtain a' where a': "readIface fuel (length ms) (apiBase tox) (feed (concat (map ifaceLine ms)) []) a = Inr ([], a')"
    "queues (pr_q a') [] ?ns"
    using readIface_short [OF assms(1,2,4,3), of fuel tox "[]" "[]"] by auto
  have pr: "list_all printable ?ns" using assms(4) by (rule messagesFrom_printable)
  obtain q where q: "writeLines (length ms) (myFriendId a) (pr_q a') = Inr (concat (map (lineBytes (myFriendId a)) ?ns), q)"
    using writeLines_lines [OF a'(2) pr] by auto
  have "list_all (\<lambda>m. markerExists m = Inr False) ms" "list_all (\<lambda>m. length m < 2 ^ 31 \<and> 0 \<notin> set m) ms"
    using assms(4) by (auto simp: shortMessage_def list_all_iff)
  note ms = this
  obtain b' where b': "handleLines (apiBase tox') (map (lineOf (myFriendId a)) ?ns) b = Inr b'"
    "queues (pr_q b') (map (\<lambda>m. messagePacket m 0) ms @ []) (receiptsFrom (msgIdNet a) ms)"
    "netReceivedMessages b' = netReceivedMessages b + of_nat (length ms)"
    using handleLines_short [OF assms(5) ms(1)] by fastforce
  have rd: "readLines (length ms) (apiBase tox') (feed (concat (map (lineBytes (myFriendId a)) ?ns)) []) b = Inr ([], b')"
    using readLines_lines [OF pr, of "apiBase tox'" "myFriendId a" "[]" "[]" b] b'(1) by simp
  show ?thesis using a'(1) q rd b'(3) writeIface_short [OF b'(2) ms(2), of "myFriendId b'"] by blast
qed

theorem short_messages_travel_witness:
  "\<exists>a' bytes q b' q'.
    readIface 1 2 (apiBase env_default) (feed (concat (map ifaceLine [[0x68, 0x69], [0x79, 0x6f]])) []) (peer0 5 7 world0) = Inr ([], a') \<and>
    writeLines 2 (myFriendId (peer0 5 7 world0)) (pr_q a') = Inr (bytes, q) \<and>
    readLines 2 (apiBase env_default) (feed bytes []) (peer0 7 5 world0) = Inr ([], b') \<and>
    netReceivedMessages b' = 2 \<and>
    writeIface 2 (myFriendId b') (pr_q b') = Inr (concat (map ifaceLine [[0x68, 0x69], [0x79, 0x6f]]), q') \<and>
    queues q' [] [receiptPacket 1, receiptPacket 2]"
proof -
  let ?a = "peer0 5 7 world0" and ?b = "peer0 7 5 world0" and ?ms = "[[0x68, 0x69], [0x79, 0x6f]] :: byte list list"
  have a: "queues (pr_q ?a) [] []" "numbered ?a" "unat (msgIdNet ?a) + length ?ms < 2 ^ 32" "msgIdNet ?a = 0"
    by (simp_all add: peer0_def numbered_def world0_def)
  have ms: "list_all (shortMessage (maxMessageLength (w_params (pr_lib ?a)))) ?ms"
    by (simp add: shortMessage_def peer0_def world0_def params_default_def markerExists_def markerParseFields_def
        isMarkerChar_def markerChar_def)
  have b: "queues (pr_q ?b) [] []" "netReceivedMessages ?b + of_nat 2 = 2" by (simp_all add: peer0_def)
  have n: "length ?ms = 2" "receiptsFrom (msgIdNet ?a) ?ms = [receiptPacket 1, receiptPacket 2]" by (simp_all add: a(4))
  show ?thesis using short_messages_travel [OF a(1-3) ms b(1), of 1 env_default env_default] unfolding n b(2) .
qed

end
