(* ===== verification/Startup.thy ===== *)
theory Startup
  imports TestPeer
begin

section \<open>The main program of the test peer\<close>

text \<open>
  \<open>openSocket\<close> and \<open>main\<close> of \<open>test-peer.c\<close>: from the arguments over the connection, the library and
  the loop to the shutdown.  What the system calls answer is the parameter \<open>system\<close>: the results of
  the calls of \<open>connect\<close>, one after the other, those of \<open>bind\<close>, \<open>listen\<close> and \<open>accept\<close>, the tables of the
  database file if it can be opened, what \<open>select\<close> reports and what the streams bring.  A process
  ends with an exit code; one that is still connecting or in its loop when the answers are used up is
  \<open>Diverges\<close>.
\<close>

subsection \<open>The arguments\<close>

text \<open>\<open>atoi\<close>, for numbers that fit an \<open>int\<close>; for others it is undefined.\<close>

definition isspace :: "byte \<Rightarrow> bool" where
  "isspace b \<longleftrightarrow> b = 0x20 \<or> (0x09 \<le> b \<and> b \<le> 0x0d)"

definition atoi :: "byte list \<Rightarrow> u32" where
  "atoi s =
     (let s = dropWhile isspace s;
          neg = (s \<noteq> [] \<and> hd s = 0x2d);
          ds = (if s \<noteq> [] \<and> (hd s = 0x2d \<or> hd s = 0x2b) then tl s else s);
          n = int (decValue (takeWhile isdigit ds))
      in word_of_int (if neg then - n else n))"

subsection \<open>The socket\<close>

datatype connected = Connected | NoEntry | ConnectFailed

record system =
  sy_sunPath :: nat                  \<comment> \<open>the size of \<open>sun_path\<close>\<close>
  sy_connects :: "connected list"
  sy_bind :: bool
  sy_listen :: bool
  sy_accept :: bool
  sy_database :: "(meta_row list \<times> data_row list) option"
  sy_selects :: "selected list"
  sy_streams :: streams

text \<open>\<open>connect\<close> is repeated as long as there is no such file yet.\<close>

fun connectLoop :: "connected list \<Rightarrow> unit result" where
  "connectLoop [] = Inl Diverges"
| "connectLoop (c # cs) = (case c of NoEntry \<Rightarrow> connectLoop cs | ConnectFailed \<Rightarrow> Inl Aborted | Connected \<Rightarrow> Inr ())"

definition openSocket :: "system \<Rightarrow> byte list \<Rightarrow> byte \<Rightarrow> unit result" where
  "openSocket sys sockName connectOrListen =
     (if sy_sunPath sys < length sockName + 1 then Inl OutOfBounds
      else if connectOrListen = 0x43 then connectLoop (sy_connects sys)
      else if connectOrListen = 0x4c then
        if \<not> sy_bind sys then Inl Aborted
        else if \<not> sy_listen sys then Inl Aborted
        else if \<not> sy_accept sys then Inl Aborted
        else Inr ()
      else Inl Aborted)"

subsection \<open>main\<close>

text \<open>\<open>loop\<close>, until it ends.\<close>

definition loop :: "nat \<Rightarrow> env \<Rightarrow> system \<Rightarrow> peer \<Rightarrow> (streams \<times> peer) result" where
  "loop fuel tox sys p =
     bindR (loop3 fuel tox (sy_selects sys) (sy_streams sys, p)) (\<lambda>(ended, st).
     if ended then Inr st else Inl Diverges)"

text \<open>
  The exit code with what was written and the final state, if it came to that.  The first byte of an
  empty argument is its terminating zero.
\<close>

definition testMain :: "nat \<Rightarrow> env \<Rightarrow> system \<Rightarrow> byte list list \<Rightarrow> (int \<times> (streams \<times> peer) option) result" where
  "testMain fuel tox sys argv =
     (if length argv \<noteq> 9 then Inr (1, None)
      else bindR (openSocket sys (argv ! 4) (if argv ! 5 = [] then 0 else hd (argv ! 5))) (\<lambda>_.
        bindR (if argv ! 3 \<noteq> [] \<and> sy_database sys = None then Inl Aborted else Inr ()) (\<lambda>_.
        bindR (mainSetup (atoi (argv ! 1)) (atoi (argv ! 2)) (if argv ! 3 = [] then None else sy_database sys)
                 (atoi (argv ! 6)) (atoi (argv ! 7)) (atoi (argv ! 8))) (\<lambda>p.
        bindR (loop fuel tox sys p) (\<lambda>(io, p).
        bindR (uninitialize fuel (pr_lib p)) (\<lambda>w.
        Inr (0, Some (io, p\<lparr>pr_lib := w\<rparr>))))))))"

lemma atoi_decDigits: "atoi (decDigits n) = of_nat n"
proof -
  obtain d ds where d: "decDigits n = d # ds" by (cases "decDigits n") simp_all
  have digits: "digits (decDigits n)" by simp
  then have i: "isdigit d" by (simp add: digits_def d)
  then have "\<not> isspace d" "d \<noteq> 0x2d" "d \<noteq> 0x2b" 
    using order_trans [of 48 d 13] by (auto simp: isdigit_def isspace_def)
  moreover have "takeWhile isdigit (decDigits n) = decDigits n" using digits by (simp add: digits_def takeWhile_eq_all_conv)
  ultimately show ?thesis using decValue_decDigits [of n] by (simp add: atoi_def Let_def d)
qed

text \<open>The loop ends only when there is nothing to be done any more.\<close>

lemma loop3_ended: "loop3 fuel env sels st = Inr (True, st') \<Longrightarrow> needContinue (snd st') = Inr False"
  by (induction sels arbitrary: st) (auto simp: bindR_eq_Inr split: if_splits)

lemma needContinue_False:
  assumes "needContinue p = Inr False"
  shows "sawIfaceEOF p \<and> sawNetEndSignal p \<and> netExpectMessages p \<le> netReceivedMessages p \<and>
    receivedAllReceipts p = Inr True \<and> lstBegin (ifaceOut (pr_q p)) = None \<and> lstBegin (netOut (pr_q p)) = None"
  using assms by (auto simp: needContinue_def bindR_eq_Inr split: if_splits)

lemma connectLoop_eq: "connectLoop cs = Inr () \<longleftrightarrow> (\<exists>n cs'. cs = replicate n NoEntry @ Connected # cs')"
proof (induction cs)
  case (Cons c cs)
  show ?case
  proof (cases c)
    case Connected
    have "c # cs = replicate 0 NoEntry @ Connected # cs" by (simp add: Connected)
    then show ?thesis by (auto simp: Connected intro: exI [of _ "0 :: nat"])
  next
    case NoEntry
    have "(\<exists>n cs'. c # cs = replicate n NoEntry @ Connected # cs') \<longleftrightarrow> (\<exists>n cs'. cs = replicate n NoEntry @ Connected # cs')"
    proof
      assume "\<exists>n cs'. c # cs = replicate n NoEntry @ Connected # cs'"
      then obtain n cs' where n: "c # cs = replicate n NoEntry @ Connected # cs'" by blast
      with NoEntry obtain m where "n = Suc m" by (cases n) simp_all
      with n show "\<exists>n cs'. cs = replicate n NoEntry @ Connected # cs'" by auto
    next
      assume "\<exists>n cs'. cs = replicate n NoEntry @ Connected # cs'"
      then obtain n cs' where "c # cs = replicate (Suc n) NoEntry @ Connected # cs'" using NoEntry by auto
      then show "\<exists>n cs'. c # cs = replicate n NoEntry @ Connected # cs'" by blast
    qed
    with Cons.IH show ?thesis by (simp add: NoEntry)
  next
    case ConnectFailed
    have "c # cs \<noteq> replicate n NoEntry @ Connected # cs'" for n cs' by (cases n) (simp_all add: ConnectFailed)
    then show ?thesis by (simp add: ConnectFailed)
  qed
qed simp

text \<open>C40. The test peer exits with 0 only when it is done: it was connected, the interface and the other peer have said that they are at their end, every announced message and every receipt that is counted has arrived, everything queued has been written, and the library has been shut down; with wrong arguments it exits with 1 and does nothing.\<close>

theorem testMain_exit:
  assumes "testMain fuel tox sys argv = Inr (code, r)"
  shows "code = (if length argv = 9 then 0 else 1) \<and> (length argv \<noteq> 9 \<longrightarrow> r = None) \<and>
    (length argv = 9 \<longrightarrow> (\<exists>io p. r = Some (io, p) \<and> argv ! 3 \<noteq> [] \<and>
       openSocket sys (argv ! 4) (if argv ! 5 = [] then 0 else hd (argv ! 5)) = Inr () \<and>
       sawIfaceEOF p \<and> sawNetEndSignal p \<and> netExpectMessages p \<le> netReceivedMessages p \<and>
       receivedAllReceipts p = Inr True \<and> lstBegin (ifaceOut (pr_q p)) = None \<and> lstBegin (netOut (pr_q p)) = None \<and>
       \<not> initializedApi (pr_lib p) \<and> \<not> initializedDb (pr_lib p)))"
proof (cases "length argv = 9")
  case False
  with assms show ?thesis by (simp add: testMain_def)
next
  case True
  obtain p0 :: peer and io p w where s: "openSocket sys (argv ! 4) (if argv ! 5 = [] then 0 else hd (argv ! 5)) = Inr ()"
    "mainSetup (atoi (argv ! 1)) (atoi (argv ! 2)) (if argv ! 3 = [] then None else sy_database sys)
       (atoi (argv ! 6)) (atoi (argv ! 7)) (atoi (argv ! 8)) = Inr p0"
    "loop fuel tox sys p0 = Inr (io, p)" "uninitialize fuel (pr_lib p) = Inr w" "code = 0" "r = Some (io, p\<lparr>pr_lib := w\<rparr>)"
    using assms True by (auto simp: testMain_def bindR_eq_Inr simp del: split_paired_All split: if_splits)
  have "argv ! 3 \<noteq> []" using s(2) by (auto simp: mainSetup_def bindR_eq_Inr Let_def)
  moreover have "needContinue p = Inr False"
    using s(3) loop3_ended by (fastforce simp: loop_def bindR_eq_Inr split: if_splits)
  moreover have "\<not> initializedApi w" "\<not> initializedDb w" using s(4) by (auto simp: uninitialize_def uninitializeMain_def bindR_eq_Inr)
  ultimately show ?thesis using needContinue_False [of p] s(1,5,6) True
    by (simp add: receivedAllReceipts_def)
qed

text \<open>A peer whose client and whose partner have nothing to say.\<close>

definition system_quiet :: system where
  "system_quiet = \<lparr>sy_sunPath = 108, sy_connects = [NoEntry, Connected], sy_bind = True, sy_listen = True, sy_accept = True,
     sy_database = Some ([], []),
     sy_selects = [\<lparr>rdIface = True, rdNet = True, wrIface = False, wrNet = False\<rparr>,
                   \<lparr>rdIface = False, rdNet = False, wrIface = False, wrNet = True\<rparr>],
     sy_streams = \<lparr>inIface = [[chrE, nl]], inNet = [[chrE, sp, 0x30, nl]], outIface = [], outNet = []\<rparr>\<rparr>"

definition argv_quiet :: "byte list list" where
  "argv_quiet = [[], [0x35], [0x37], [0x78], [0x79], [0x43], [0x31, 0x30, 0x30], [0x38], [0x39]]"

lemma mainSetup_new:
  "\<exists>w. mainSetup my his (Some ([], [])) maxLength atATime expiration = Inr (peer0 my his w) \<and> msgsOutbound (w_q w) = None"
  by (rule exI, rule conjI, simp add: mainSetup_def set_parameters_def world0_def initialize_api_def initialize_db_def
      initializeWhenReady_def dbInitialize_def initDb_def readDbName_def createSchema_def dbLock_def dbUnlock_def db0_def
      initialize_def loadPendingSentMessages_def selectPending_def) simp

lemma queues_begin:
  "queues s is ns \<Longrightarrow> (lstBegin (ifaceOut s) = None \<longleftrightarrow> is = []) \<and> (lstBegin (netOut s) = None \<longleftrightarrow> ns = [])"
proof -
  have "lstBegin q = None \<longleftrightarrow> ps = []" if "queueAt h q as ps" for h q as ps
    using that by (cases as) (auto simp: queueAt_def)
  then show "queues s is ns \<Longrightarrow> ?thesis" unfolding queues_def by blast
qed

lemma receivedAllReceipts_none: "msgIdIface p = 0 \<Longrightarrow> receivedAllReceipts p = Inr True"
  by (simp add: receivedAllReceipts_def countReceipts.simps)

text \<open>In the first round both sides say that they are at their end, in the second this is passed on.\<close>

lemma quiet_loop:
  "\<exists>st. loop 1 env_default system_quiet (peer0 my his w) = Inr st \<and> pr_lib (snd st) = w"
proof -
  let ?p = "peer0 my his w" and ?io = "sy_streams system_quiet"
  obtain q1 where q1: "appendNet (packetCreateEndSignal 0 pqueues0) = Inr q1" "queues q1 [] [endPacket 0]"
    using appendNet_queues [OF queues0, of "endPacket 0"] by (auto simp: packetCreateEndSignal_def)
  have "printable (endPacket 0)" by (simp add: printable_def endPacket_def)
  then obtain q2 where q2: "onNetWR my q1 = Inr (lineBytes my (endPacket 0), q2)" "queues q2 [] []"
    using onNetWR_line [OF q1(2)] by blast
  note starts = queues_begin [OF q1(2)] queues_begin [OF q2(2)] queues_begin [OF queues0]
  let ?p1 = "?p\<lparr>sawIfaceEOF := True, pr_q := q1\<rparr>" and ?p2 = "?p\<lparr>sawIfaceEOF := True, pr_q := q1, sawNetEndSignal := True\<rparr>"
  have rd: "onIfaceRD 1 (apiBase env_default) [[chrE, nl]] ?p = Inr ([], ?p1)"
    using q1(1) by (simp add: onIfaceRD_def readChar_def skipChar_def feed_def peer0_def)
  have net: "onNetRD (apiBase env_default) [[chrE, sp, 0x30, nl]] ?p1 = Inr ([], ?p2)"
    by (simp add: onNetRD_def readChar_def skipChar_def readUInt_def readUIntLoop.simps feed_def isdigit_def peer0_def)
  have round1: "loopRound 1 env_default \<lparr>rdIface = True, rdNet = True, wrIface = False, wrNet = False\<rparr> (?io, ?p) =
      Inr (?io\<lparr>inIface := [], inNet := []\<rparr>, ?p2)"
    using rd net by (simp add: loopRound_def isIfaceRD_def isNetRD_def system_quiet_def) (simp add: peer0_def)
  have more: "needContinue ?p2 = Inr True"
    using starts by (simp add: needContinue_def receivedAllReceipts_none peer0_def)
  let ?io1 = "?io\<lparr>inIface := [], inNet := []\<rparr>" and ?p3 = "?p2\<lparr>pr_q := q2\<rparr>"
  have round2: "loopRound 1 env_default \<lparr>rdIface = False, rdNet = False, wrIface = False, wrNet = True\<rparr> (?io1, ?p2) =
      Inr (?io1\<lparr>outNet := lineBytes my (endPacket 0)\<rparr>, ?p3)"
    using starts q2(1) by (simp add: loopRound_def isNetWR_def isNetRD_def peer0_def system_quiet_def)
  have "needContinue ?p3 = Inr False"
    using starts by (simp add: needContinue_def receivedAllReceipts_none peer0_def)
  then have "loop 1 env_default system_quiet ?p = Inr (?io1\<lparr>outNet := lineBytes my (endPacket 0)\<rparr>, ?p3)"
    using round1 more round2 by (simp add: loop_def system_quiet_def)
  moreover have "pr_lib ?p3 = w" by (simp add: peer0_def)
  ultimately show ?thesis by auto
qed

theorem testMain_exit_witness:
  "\<exists>io p. testMain 1 env_default system_quiet argv_quiet = Inr (0, Some (io, p)) \<and> sawIfaceEOF p \<and> sawNetEndSignal p \<and>
     \<not> initializedApi (pr_lib p)"
proof -
  obtain w where w: "mainSetup (atoi [0x35]) (atoi [0x37]) (Some ([], [])) (atoi [0x31, 0x30, 0x30]) (atoi [0x38]) (atoi [0x39]) =
      Inr (peer0 (atoi [0x35]) (atoi [0x37]) w)" "msgsOutbound (w_q w) = None"
    using mainSetup_new by blast
  obtain st where st: "loop 1 env_default system_quiet (peer0 (atoi [0x35]) (atoi [0x37]) w) = Inr st" "pr_lib (snd st) = w"
    using quiet_loop by blast
  have "openSocket system_quiet [0x79] 0x43 = Inr ()" by (simp add: openSocket_def system_quiet_def)
  moreover obtain w' where "uninitialize 1 w = Inr w'" using w(2) by (simp add: uninitialize_def uninitializeMain_def)
  ultimately have "testMain 1 env_default system_quiet argv_quiet = Inr (0, Some (fst st, (snd st)\<lparr>pr_lib := w'\<rparr>))"
    using w(1) st by (cases st) (simp add: testMain_def argv_quiet_def system_quiet_def)
  from testMain_exit [OF this] this show ?thesis by (auto simp: argv_quiet_def)
qed

end
