(* ===== verification/Api.thy ===== *)
theory Api
  imports Delivery
begin

section \<open>The overloaded tox interface\<close>

text \<open>
  The library stands between the client and tox: \<open>initialize_api\<close> saves tox's table of functions and
  returns a copy in which five members are its own, and the two registration functions among them keep
  the callback of the client and give tox the handler of the library.  This theory models the tables
  and the callbacks; what the handlers do is in the theories \<open>Inbound\<close> and \<open>Outbound\<close>.

  A member of a table is NULL, a function of tox or the library's own.  The members that the library
  does not name are copied with the others and have no field here.  How tox registers a callback, by
  overwriting the one before, with NULL for none, is what \<open>test-peer.c\<close> writes out for its own base
  interface.
\<close>

subsection \<open>Tables and callbacks\<close>

datatype impl = Tox | My

record toxcoreApi =
  a_new :: "impl option"
  a_kill :: "impl option"
  a_friend_get_connection_status :: "impl option"
  a_friend_send_message :: "impl option"
  a_callback_friend_read_receipt :: "impl option"
  a_callback_friend_message :: "impl option"

text \<open>A callback: one of the client, or a handler of the library.\<close>

datatype 'c callback = OfClient 'c | LibReadReceipt | LibMessage

record 'c hooks =
  base_toxcore_api :: toxcoreApi
  client_friend_read_receipt_cb :: "'c callback option"
  client_friend_message_cb :: "'c callback option"
  cb_friend_read_receipt :: "'c callback option"     \<comment> \<open>what tox calls\<close>
  cb_friend_message_cb :: "'c callback option"

definition api_null :: toxcoreApi where
  "api_null = \<lparr>a_new = None, a_kill = None, a_friend_get_connection_status = None, a_friend_send_message = None,
     a_callback_friend_read_receipt = None, a_callback_friend_message = None\<rparr>"

definition api_tox :: toxcoreApi where
  "api_tox = \<lparr>a_new = Some Tox, a_kill = Some Tox, a_friend_get_connection_status = Some Tox,
     a_friend_send_message = Some Tox, a_callback_friend_read_receipt = Some Tox, a_callback_friend_message = Some Tox\<rparr>"

definition hooks0 :: "'c hooks" where
  "hooks0 = \<lparr>base_toxcore_api = api_null, client_friend_read_receipt_cb = None, client_friend_message_cb = None,
     cb_friend_read_receipt = None, cb_friend_message_cb = None\<rparr>"

definition base_callback_friend_read_receipt :: "'c callback option \<Rightarrow> 'c hooks \<Rightarrow> 'c hooks" where
  "base_callback_friend_read_receipt callback h = h\<lparr>cb_friend_read_receipt := callback\<rparr>"

definition base_callback_friend_message :: "'c callback option \<Rightarrow> 'c hooks \<Rightarrow> 'c hooks" where
  "base_callback_friend_message callback h = h\<lparr>cb_friend_message_cb := callback\<rparr>"

text \<open>A call through a table.\<close>

fun invoke :: "impl option \<Rightarrow> 'a result \<Rightarrow> 'a result \<Rightarrow> 'a result" where
  "invoke None tox my = Inl NullDeref"
| "invoke (Some Tox) tox my = tox"
| "invoke (Some My) tox my = my"

fun callback_friend_read_receipt :: "nat \<Rightarrow> 'c callback option \<Rightarrow> 'c hooks \<Rightarrow> 'c hooks result" where
  "callback_friend_read_receipt 0 callback h = Inl Diverges"
| "callback_friend_read_receipt (Suc fuel) callback h =
     (let h = h\<lparr>client_friend_read_receipt_cb := callback\<rparr>
      in invoke (a_callback_friend_read_receipt (base_toxcore_api h))
           (Inr (base_callback_friend_read_receipt (Some LibReadReceipt) h))
           (callback_friend_read_receipt fuel (Some LibReadReceipt) h))"

fun callback_friend_message :: "nat \<Rightarrow> 'c callback option \<Rightarrow> 'c hooks \<Rightarrow> 'c hooks result" where
  "callback_friend_message 0 callback h = Inl Diverges"
| "callback_friend_message (Suc fuel) callback h =
     (let h = h\<lparr>client_friend_message_cb := callback\<rparr>
      in invoke (a_callback_friend_message (base_toxcore_api h))
           (Inr (base_callback_friend_message (Some LibMessage) h))
           (callback_friend_message fuel (Some LibMessage) h))"

text \<open>\<open>initialize_api\<close>: the table that it returns and the one that it saves.\<close>

definition overloadApi :: "toxcoreApi \<Rightarrow> 'c hooks \<Rightarrow> toxcoreApi \<times> 'c hooks" where
  "overloadApi api h =
     (api\<lparr>a_new := Some My, a_kill := Some My, a_friend_send_message := Some My,
          a_callback_friend_read_receipt := Some My, a_callback_friend_message := Some My\<rparr>,
      h\<lparr>base_toxcore_api := api\<rparr>)"

text \<open>\<open>uninitialize\<close> clears the saved table; the callbacks stay.\<close>

definition clearApi :: "'c hooks \<Rightarrow> 'c hooks" where
  "clearApi h = h\<lparr>base_toxcore_api := api_null\<rparr>"

subsection \<open>The client\<close>

text \<open>The client registers callbacks through the table that it got, in any order.\<close>

datatype 'c registration = RegReadReceipt "'c option" | RegMessage "'c option"

fun register :: "nat \<Rightarrow> toxcoreApi \<Rightarrow> 'c registration \<Rightarrow> 'c hooks \<Rightarrow> 'c hooks result" where
  "register fuel tbl (RegReadReceipt c) h =
     invoke (a_callback_friend_read_receipt tbl) (Inr (base_callback_friend_read_receipt (map_option OfClient c) h))
       (callback_friend_read_receipt fuel (map_option OfClient c) h)"
| "register fuel tbl (RegMessage c) h =
     invoke (a_callback_friend_message tbl) (Inr (base_callback_friend_message (map_option OfClient c) h))
       (callback_friend_message fuel (map_option OfClient c) h)"

fun registerAll :: "nat \<Rightarrow> toxcoreApi \<Rightarrow> 'c registration list \<Rightarrow> 'c hooks \<Rightarrow> 'c hooks result" where
  "registerAll fuel tbl [] h = Inr h"
| "registerAll fuel tbl (r # rs) h = bindR (register fuel tbl r h) (registerAll fuel tbl rs)"

text \<open>
  tox has received a message or a receipt: it calls what is registered, if anything.  The handler of the
  library calls the callback of the client for each message or receipt that it passes on; a NULL one is a
  fault.  The result names the callback of each of these calls.
\<close>

type_synonym 'c calls = "('c callback \<times> client_event) list"

definition toldBetween :: "world \<Rightarrow> world \<Rightarrow> client_event list" where
  "toldBetween w w' = clientOf (drop (length (w_trace w)) (w_trace w'))"

definition callClient :: "'c callback option \<Rightarrow> world \<Rightarrow> world \<Rightarrow> (world \<times> 'c calls) result" where
  "callClient cb w w' =
     (case cb of
        None \<Rightarrow> if toldBetween w w' = [] then Inr (w', []) else Inl NullDeref
      | Some c \<Rightarrow> Inr (w', map (Pair c) (toldBetween w w')))"

lemma callClient_Some: "callClient (Some c) w = (\<lambda>w'. Inr (w', map (Pair c) (toldBetween w w')))"
  by (simp add: callClient_def fun_eq_iff)

definition toxMessage :: "env \<Rightarrow> 'c hooks \<Rightarrow> u32 \<Rightarrow> int \<Rightarrow> byte list \<Rightarrow> world \<Rightarrow> (world \<times> 'c calls) result" where
  "toxMessage env h friend type message w =
     (case cb_friend_message_cb h of
        None \<Rightarrow> Inr (w, [])
      | Some (OfClient c) \<Rightarrow>
          Inr (emit (Client (ClientMessage friend type message)) w, [(OfClient c, ClientMessage friend type message)])
      | Some _ \<Rightarrow> bindR (libMessage env friend type message w) (\<lambda>(_, w'). callClient (client_friend_message_cb h) w w'))"

definition toxReceipt :: "env \<Rightarrow> 'c hooks \<Rightarrow> u32 \<Rightarrow> u32 \<Rightarrow> world \<Rightarrow> (world \<times> 'c calls) result" where
  "toxReceipt env h friend message_id w =
     (case cb_friend_read_receipt h of
        None \<Rightarrow> Inr (w, [])
      | Some (OfClient c) \<Rightarrow>
          Inr (emit (Client (ClientReceipt friend message_id)) w, [(OfClient c, ClientReceipt friend message_id)])
      | Some _ \<Rightarrow> bindR (friend_read_receipt_cb env w friend message_id) (callClient (client_friend_read_receipt_cb h) w))"

subsection \<open>How the calls are wired\<close>

text \<open>The last callback registered of a kind, if any was.\<close>

fun lastReceiptCb :: "'c registration list \<Rightarrow> 'c option option" where
  "lastReceiptCb [] = None"
| "lastReceiptCb (RegReadReceipt c # rs) = (case lastReceiptCb rs of None \<Rightarrow> Some c | Some c' \<Rightarrow> Some c')"
| "lastReceiptCb (RegMessage c # rs) = lastReceiptCb rs"

fun lastMessageCb :: "'c registration list \<Rightarrow> 'c option option" where
  "lastMessageCb [] = None"
| "lastMessageCb (RegMessage c # rs) = (case lastMessageCb rs of None \<Rightarrow> Some c | Some c' \<Rightarrow> Some c')"
| "lastMessageCb (RegReadReceipt c # rs) = lastMessageCb rs"

definition wired :: "'c registration list \<Rightarrow> 'c hooks \<Rightarrow> 'c hooks" where
  "wired rs h =
     (let h = (case lastReceiptCb rs of None \<Rightarrow> h
               | Some c \<Rightarrow> h\<lparr>client_friend_read_receipt_cb := map_option OfClient c, cb_friend_read_receipt := Some LibReadReceipt\<rparr>)
      in case lastMessageCb rs of None \<Rightarrow> h
         | Some c \<Rightarrow> h\<lparr>client_friend_message_cb := map_option OfClient c, cb_friend_message_cb := Some LibMessage\<rparr>)"

lemma register_wired:
  assumes "base_toxcore_api h = api_tox" "a_callback_friend_read_receipt tbl = Some My" "a_callback_friend_message tbl = Some My"
  shows "register (Suc fuel) tbl r h = Inr (wired [r] h)"
  using assms by (cases r) (simp_all add: wired_def api_tox_def base_callback_friend_read_receipt_def base_callback_friend_message_def)

lemma wired_Cons: "wired rs (wired [r] h) = wired (r # rs) h"
  by (cases r) (simp_all add: wired_def Let_def split: option.split)

lemma wired_base [simp]: "base_toxcore_api (wired rs h) = base_toxcore_api h"
  by (simp add: wired_def Let_def split: option.split)

lemma wired_callbacks:
  fixes h :: "'c hooks"
  shows "h = hooks0\<lparr>base_toxcore_api := api\<rparr> \<Longrightarrow>
      cb_friend_read_receipt (wired rs h) = map_option (\<lambda>_. LibReadReceipt) (lastReceiptCb rs) \<and>
      client_friend_read_receipt_cb (wired rs h) = (case lastReceiptCb rs of None \<Rightarrow> None | Some c \<Rightarrow> map_option OfClient c) \<and>
      cb_friend_message_cb (wired rs h) = map_option (\<lambda>_. LibMessage) (lastMessageCb rs) \<and>
      client_friend_message_cb (wired rs h) = (case lastMessageCb rs of None \<Rightarrow> None | Some c \<Rightarrow> map_option OfClient c)"
  by (cases "lastReceiptCb rs"; cases "lastMessageCb rs") (simp_all add: wired_def hooks0_def)

lemma registerAll_wired:
  assumes "a_callback_friend_read_receipt tbl = Some My" "a_callback_friend_message tbl = Some My"
  shows "base_toxcore_api h = api_tox \<Longrightarrow> registerAll (Suc fuel) tbl rs h = Inr (wired rs h)"
proof (induction rs arbitrary: h)
  case Nil
  then show ?case by (simp add: wired_def)
next
  case (Cons r rs)
  then show ?case using register_wired [OF Cons.prems assms, of fuel r] by (simp add: wired_Cons)
qed

lemma overloadApi_My: "overloadApi api h = (tbl, h') \<Longrightarrow>
    a_callback_friend_read_receipt tbl = Some My \<and> a_callback_friend_message tbl = Some My \<and> base_toxcore_api h' = api"
  by (auto simp: overloadApi_def)

text \<open>C27. A client that initialises the library on tox's table and registers callbacks through the table it
  gets back, in any order and any number of times, makes tox call the handlers of the library, and these
  the callbacks that it registered last, of each kind.  So an incoming message is what the library makes
  of it, and each message that the library passes on is given to the message callback registered last;
  likewise an incoming receipt, and the receipt callback registered last.\<close>

theorem api_wiring:
  assumes "overloadApi api_tox hooks0 = (tbl, h)" "0 < fuel"
  shows "\<exists>h'. registerAll fuel tbl rs h = Inr h' \<and> base_toxcore_api h' = api_tox \<and>
      cb_friend_read_receipt h' = map_option (\<lambda>_. LibReadReceipt) (lastReceiptCb rs) \<and>
      client_friend_read_receipt_cb h' = (case lastReceiptCb rs of None \<Rightarrow> None | Some c \<Rightarrow> map_option OfClient c) \<and>
      cb_friend_message_cb h' = map_option (\<lambda>_. LibMessage) (lastMessageCb rs) \<and>
      client_friend_message_cb h' = (case lastMessageCb rs of None \<Rightarrow> None | Some c \<Rightarrow> map_option OfClient c) \<and>
      (\<forall>c. lastMessageCb rs = Some (Some c) \<longrightarrow>
         toxMessage env h' friend type message w = bindR (libMessage env friend type message w) (\<lambda>(_, w').
           Inr (w', map (Pair (OfClient c)) (toldBetween w w')))) \<and>
      (\<forall>c. lastReceiptCb rs = Some (Some c) \<longrightarrow>
         toxReceipt env h' friend message_id w = bindR (friend_read_receipt_cb env w friend message_id) (\<lambda>w'.
           Inr (w', map (Pair (OfClient c)) (toldBetween w w'))))"
proof -
  obtain n where n: "fuel = Suc n" using assms(2) by (cases fuel) simp_all
  note t = overloadApi_My [OF assms(1)]
  have "registerAll fuel tbl rs h = Inr (wired rs h)" unfolding n using t by (intro registerAll_wired) simp_all
  moreover have "h = hooks0\<lparr>base_toxcore_api := api_tox\<rparr>" using assms(1) by (auto simp: overloadApi_def)
  ultimately show ?thesis
    using wired_callbacks [of h api_tox rs]
    by (auto simp: toxMessage_def toxReceipt_def callClient_Some)
qed

text \<open>Two message callbacks are registered, and a receipt callback; a message arrives.\<close>

theorem api_wiring_witness:
  "\<exists>tbl h h' w'. overloadApi api_tox hooks0 = (tbl, h) \<and>
     registerAll 1 tbl [RegMessage (Some 3), RegReadReceipt (Some (2 :: nat)), RegMessage (Some 1)] h = Inr h' \<and>
     client_friend_message_cb h' = Some (OfClient 1) \<and>
     toxMessage env_default h' 7 0 [104, 105] world0 = Inr (w', [(OfClient 1, ClientMessage 7 0 [104, 105])])"
proof -
  obtain tbl and h :: "nat hooks" where t: "overloadApi api_tox hooks0 = (tbl, h)" by fastforce
  have "isFragment [104, 105] = Inr False" by (simp add: isFragment_def markerExists_def markerParseFields_short)
  then have m: "libMessage env_default 7 0 [104, 105] world0 =
      Inr ((), world0\<lparr>w_trace := [Client (ClientMessage 7 0 [104, 105])]\<rparr>)"
    by (simp add: libMessage_def friend_message_cb_def world0_def)
  let ?rs = "[RegMessage (Some 3), RegReadReceipt (Some 2), RegMessage (Some (1 :: nat))]"
  have last: "lastMessageCb ?rs = Some (Some 1)" by simp
  obtain h' where "registerAll 1 tbl ?rs h = Inr h'"
    "client_friend_message_cb h' = (case lastMessageCb ?rs of None \<Rightarrow> None | Some c \<Rightarrow> map_option OfClient c)"
    "\<forall>c. lastMessageCb ?rs = Some (Some c) \<longrightarrow> toxMessage env_default h' 7 0 [104, 105] world0 =
       bindR (libMessage env_default 7 0 [104, 105] world0) (\<lambda>(_, w'). Inr (w', map (Pair (OfClient c)) (toldBetween world0 w')))"
    using api_wiring [OF t zero_less_one, of ?rs env_default 7 0 "[104, 105]" world0 0] by blast
  then have h': "registerAll 1 tbl ?rs h = Inr h'" "client_friend_message_cb h' = Some (OfClient 1)"
    "toxMessage env_default h' 7 0 [104, 105] world0 =
       bindR (libMessage env_default 7 0 [104, 105] world0) (\<lambda>(_, w'). Inr (w', map (Pair (OfClient 1)) (toldBetween world0 w')))"
    unfolding last by simp_all
  have "toldBetween world0 (world0\<lparr>w_trace := [Client (ClientMessage 7 0 [104, 105])]\<rparr>) = [ClientMessage 7 0 [104, 105]]"
    by (simp add: toldBetween_def world0_def)
  then show ?thesis using t h'(1,2) h'(3) [unfolded m] by (intro exI conjI) simp_all
qed

text \<open>A registration function that is its own base function.\<close>

lemma register_recurses:
  fixes h :: "'c hooks"
  shows "a_callback_friend_read_receipt (base_toxcore_api h) = Some My \<Longrightarrow> callback_friend_read_receipt fuel c h = Inl Diverges"
    and "a_callback_friend_message (base_toxcore_api h) = Some My \<Longrightarrow> callback_friend_message fuel c h = Inl Diverges"
  by (induction fuel arbitrary: c h) (simp_all add: Let_def)

text \<open>Registering NULL, with which tox unsets a callback, makes the next message that the library passes on call a NULL pointer; on the table that the library returned, a second initialisation makes registering recurse without end; and after shutdown registering calls a NULL pointer.\<close>

theorem api_misuse:
  assumes "overloadApi api_tox hooks0 = (tbl, h)" "isFragment message = Inr False"
  shows "(\<exists>h'. register 1 tbl (RegMessage None) h = Inr h' \<and> toxMessage env h' friend type message w = Inl NullDeref) \<and>
    (\<forall>fuel r. register fuel (fst (overloadApi tbl h)) r (snd (overloadApi tbl h)) = Inl Diverges) \<and>
    (\<forall>fuel r. 0 < fuel \<longrightarrow> register fuel tbl r (clearApi h) = Inl NullDeref)"
proof (intro conjI allI impI)
  note t = overloadApi_My [OF assms(1)]
  have "register 1 tbl (RegMessage None) h = Inr (wired [RegMessage None] h)"
    unfolding One_nat_def using t by (intro register_wired) simp_all
  moreover have "toxMessage env (wired [RegMessage None] h) friend type message w = Inl NullDeref"
    using assms(2) by (simp add: toxMessage_def wired_def libMessage_def friend_message_cb_def callClient_def toldBetween_def Let_def)
  ultimately show "\<exists>h'. register 1 tbl (RegMessage None) h = Inr h' \<and> toxMessage env h' friend type message w = Inl NullDeref"
    by blast
next
  fix fuel :: nat and r :: "'a registration"
  note t = overloadApi_My [OF assms(1)] and u = overloadApi_My [OF prod.collapse [symmetric], of tbl h]
  show "register fuel (fst (overloadApi tbl h)) r (snd (overloadApi tbl h)) = Inl Diverges"
    using t u by (cases r) (simp_all add: register_recurses)
next
  fix fuel :: nat and r :: "'a registration"
  assume "0 < fuel"
  then obtain n where "fuel = Suc n" by (cases fuel) simp_all
  then show "register fuel tbl r (clearApi h) = Inl NullDeref"
    using overloadApi_My [OF assms(1)] by (cases r) (simp_all add: clearApi_def api_null_def Let_def)
qed

theorem api_misuse_witness:
  "\<exists>tbl h h'. overloadApi api_tox hooks0 = (tbl, h) \<and> register 1 tbl (RegMessage (None :: nat option)) h = Inr h' \<and>
     toxMessage env_default h' 7 0 [104, 105] world0 = Inl NullDeref \<and>
     register 5 (fst (overloadApi tbl h)) (RegMessage (Some 1)) (snd (overloadApi tbl h)) = Inl Diverges"
proof -
  obtain tbl and h :: "nat hooks" where t: "overloadApi api_tox hooks0 = (tbl, h)" by fastforce
  have m: "isFragment [104, 105] = Inr False" by (simp add: isFragment_def markerExists_def markerParseFields_short)
  show ?thesis using api_misuse [OF t m, of env_default 7 0 world0] t by blast
qed

end
