(* ===== verification/Util.thy ===== *)
theory Util
  imports Marker
begin

section \<open>Time and logging\<close>

text \<open>
  \<open>util.c\<close> and \<open>getCurrTimeMs\<close> of \<open>tox-defragmenter.c\<close>.  What \<open>gettimeofday\<close> returns is an argument:
  seconds and microseconds, 64-bit signed numbers that do not overflow here and are integers.
  \<open>utilLog\<close> prints the time since \<open>utilInitialize\<close>, the function and the text into a buffer of 4096
  bytes; the text is given as \<open>vsprintf\<close> formats it.  The \<open>LOG\<close> macros that would call it are compiled
  out.
\<close>

record timeval =
  tv_sec :: int
  tv_usec :: int

definition timeval_ok :: "timeval \<Rightarrow> bool" where
  "timeval_ok t \<longleftrightarrow> 0 \<le> tv_usec t \<and> tv_usec t < 1000000"

text \<open>The time in microseconds, the unit of the specification.\<close>

definition usecs :: "timeval \<Rightarrow> int" where
  "usecs t = tv_sec t * 1000000 + tv_usec t"

text \<open>\<open>getCurrTimeMs\<close>, with the signed result converted to \<open>uint64_t\<close>.\<close>

definition timeMs :: "timeval \<Rightarrow> u64" where
  "timeMs t = word_of_int (tv_sec t * 1000 + tv_usec t div 1000)"

definition utilInitialize :: "timeval \<Rightarrow> timeval" where
  "utilInitialize now = now"

definition utilUninitialize :: timeval where
  "utilUninitialize = \<lparr>tv_sec = 0, tv_usec = 0\<rparr>"

text \<open>The difference that \<open>utilLog\<close> computes in place.\<close>

definition sinceInitialized :: "timeval \<Rightarrow> timeval \<Rightarrow> timeval" where
  "sinceInitialized tmInitialized tm =
     (let tm = tm\<lparr>tv_sec := tv_sec tm - tv_sec tmInitialized\<rparr>
      in if tv_usec tm \<ge> tv_usec tmInitialized
         then tm\<lparr>tv_usec := tv_usec tm - tv_usec tmInitialized\<rparr>
         else let tm = tm\<lparr>tv_usec := tv_usec tm + 1000000\<rparr>;
                  tm = tm\<lparr>tv_usec := tv_usec tm - tv_usec tmInitialized\<rparr>
              in tm\<lparr>tv_sec := tv_sec tm - 1\<rparr>)"

text \<open>\<open>%03u\<close>\<close>

definition dec3 :: "nat \<Rightarrow> byte list" where
  "dec3 n = replicate (3 - length (decDigits n)) 0x30 @ decDigits n"

definition ascii :: "string \<Rightarrow> byte list" where
  "ascii s = map of_char s"

definition utilLog :: "timeval \<Rightarrow> timeval \<Rightarrow> byte list \<Rightarrow> byte list \<Rightarrow> byte list \<Rightarrow> byte list result" where
  "utilLog tmInitialized now function section text =
     (let tm = sinceInitialized tmInitialized now;
          sec = word_of_int (tv_sec tm) :: u32;
          usec = word_of_int (tv_usec tm) :: u32;
          msg = [0x5b] @ decDigits (unat sec) @ [0x2e] @ dec3 (unat (usec div 1000)) @ ascii ''] LOG(Defragmenter.''
                @ section @ ascii ''): '' @ function @ ascii '': '' @ text
      in if 4 * 1024 < length msg + 1 then Inl OutOfBounds else Inr (msg @ [0x0a]))"

lemma sinceInitialized_usecs: "usecs (sinceInitialized t0 t) = usecs t - usecs t0"
  by (simp add: sinceInitialized_def usecs_def Let_def)

lemma sinceInitialized_ok: "timeval_ok t0 \<Longrightarrow> timeval_ok t \<Longrightarrow> timeval_ok (sinceInitialized t0 t)"
  by (auto simp: sinceInitialized_def timeval_ok_def Let_def)

lemma usecs_div: "timeval_ok t \<Longrightarrow> tv_sec t = usecs t div 1000000" "timeval_ok t \<Longrightarrow> tv_usec t = usecs t mod 1000000"
  by (simp_all add: usecs_def timeval_ok_def)

lemma timeMs_usecs: "timeMs t = word_of_int (usecs t div 1000)"
proof -
  have "usecs t div 1000 = tv_sec t * 1000 + tv_usec t div 1000" by (simp add: usecs_def)
  then show ?thesis by (simp add: timeMs_def)
qed

lemma unat_timeMs:
  assumes "timeval_ok t" "0 \<le> tv_sec t" "tv_sec t < 2 ^ 50"
  shows "int (unat (timeMs t)) = usecs t div 1000"
proof -
  have "0 \<le> usecs t div 1000" "usecs t div 1000 < 2 ^ 64"
    using assms by (auto simp: usecs_def timeval_ok_def div_less_iff_less_mult)
  then have "uint (word_of_int (usecs t div 1000) :: u64) = usecs t div 1000"
    by (simp only: unsigned_of_int take_bit_int_eq_self len_of_numeral_defs)
       (simp add: take_bit_int_eq_self)
  then show ?thesis by (simp add: timeMs_usecs)
qed

lemma timeMs_mono:
  assumes "timeval_ok t" "0 \<le> tv_sec t" "tv_sec t < 2 ^ 50" "timeval_ok t'" "tv_sec t' < 2 ^ 50" "usecs t \<le> usecs t'"
  shows "timeMs t \<le> timeMs t'"
proof -
  have "0 \<le> tv_sec t'" using assms(1,2,4,6) by (auto simp: usecs_def timeval_ok_def)
  from unat_timeMs [OF assms(4) this assms(5)] unat_timeMs [OF assms(1-3)] assms(6) show ?thesis
    by (simp add: word_le_nat_alt flip: of_nat_le_iff [where 'a = int])
qed

lemma digits_int: "int n = k \<Longrightarrow> (10 ^ 12 \<le> n \<and> n < 10 ^ 13) \<longleftrightarrow> (10 ^ 12 \<le> k \<and> k < 10 ^ 13)"
  by auto

text \<open>C28. The time in milliseconds, from which message ids are made, has the 13 digits that the marker reserves for an id exactly from 2001-09-09 until 2286-11-20, and never goes back when the clock does not.\<close>

theorem timeMs_13_digits:
  assumes "timeval_ok t" "0 \<le> tv_sec t" "tv_sec t < 2 ^ 50"
  shows "(length (decDigits (unat (timeMs t))) = 13 \<longleftrightarrow> 10 ^ 9 \<le> tv_sec t \<and> tv_sec t < 10 ^ 10) \<and>
    (\<forall>t'. timeval_ok t' \<and> tv_sec t' < 2 ^ 50 \<and> usecs t \<le> usecs t' \<longrightarrow> timeMs t \<le> timeMs t')"
proof -
  have t: "int (unat (timeMs t)) = usecs t div 1000" by (rule unat_timeMs [OF assms])
  have "length (decDigits (unat (timeMs t))) = 13 \<longleftrightarrow> 10 ^ 12 \<le> unat (timeMs t) \<and> unat (timeMs t) < 10 ^ 13"
    using length_decDigits_eq [of 12 "unat (timeMs t)"] by simp
  also have "\<dots> \<longleftrightarrow> 10 ^ 12 \<le> usecs t div 1000 \<and> usecs t div 1000 < 10 ^ 13" by (rule digits_int [OF t])
  also have "\<dots> \<longleftrightarrow> 10 ^ 9 \<le> tv_sec t \<and> tv_sec t < 10 ^ 10"
    using assms(1) by (auto simp: usecs_def timeval_ok_def)
  finally have "length (decDigits (unat (timeMs t))) = 13 \<longleftrightarrow> 10 ^ 9 \<le> tv_sec t \<and> tv_sec t < 10 ^ 10" .
  with timeMs_mono [OF assms] show ?thesis by blast
qed

theorem timeMs_13_digits_witness:
  "length (decDigits (unat (timeMs \<lparr>tv_sec = 1500000000, tv_usec = 123456\<rparr>))) = 13 \<and>
   timeMs \<lparr>tv_sec = 1500000000, tv_usec = 123456\<rparr> \<le> timeMs \<lparr>tv_sec = 1500000001, tv_usec = 0\<rparr>"
proof -
  have t: "timeval_ok \<lparr>tv_sec = 1500000000, tv_usec = 123456\<rparr>" "0 \<le> tv_sec \<lparr>tv_sec = 1500000000, tv_usec = 123456\<rparr>"
    "tv_sec \<lparr>tv_sec = 1500000000, tv_usec = 123456\<rparr> < 2 ^ 50" by (simp_all add: timeval_ok_def)
  have "timeMs \<lparr>tv_sec = 1500000000, tv_usec = 123456\<rparr> \<le> timeMs \<lparr>tv_sec = 1500000001, tv_usec = 0\<rparr>"
    using timeMs_13_digits [OF t] by (simp add: timeval_ok_def usecs_def)
  moreover have "length (decDigits (unat (timeMs \<lparr>tv_sec = 1500000000, tv_usec = 123456\<rparr>))) = 13"
    using timeMs_13_digits [OF t] by simp
  ultimately show ?thesis by blast
qed

text \<open>The stamp that is logged is the time since \<open>utilInitialize\<close>; a text that is too long overruns the buffer.\<close>

lemma utilLog_stamp:
  assumes "timeval_ok t0" "timeval_ok t" "usecs t0 \<le> usecs t" "usecs t - usecs t0 < 2 ^ 32 * 1000000"
  shows "utilLog (utilInitialize t0) t function section text =
    (let e = usecs t - usecs t0;
         msg = [0x5b] @ decDigits (nat (e div 1000000)) @ [0x2e] @ dec3 (nat (e mod 1000000 div 1000)) @
           ascii ''] LOG(Defragmenter.'' @ section @ ascii ''): '' @ function @ ascii '': '' @ text
     in if length msg < 4096 then Inr (msg @ [0x0a]) else Inl OutOfBounds)"
proof -
  let ?d = "sinceInitialized t0 t" and ?e = "usecs t - usecs t0"
  have d: "tv_sec ?d = ?e div 1000000" "tv_usec ?d = ?e mod 1000000"
    using usecs_div [OF sinceInitialized_ok [OF assms(1,2)]] by (simp_all add: sinceInitialized_usecs)
  have "0 \<le> ?e div 1000000" "?e div 1000000 < 2 ^ 32" using assms(3,4) by (simp_all add: div_less_iff_less_mult)
  then have s: "unat (word_of_int (?e div 1000000) :: u32) = nat (?e div 1000000)"
    by (simp add: unsigned_of_int take_bit_int_eq_self)
  have "0 \<le> ?e mod 1000000" "?e mod 1000000 < 2 ^ 32" by (simp_all add: order.strict_trans [OF pos_mod_bound])
  then have "unat (word_of_int (?e mod 1000000) :: u32) = nat (?e mod 1000000)"
    by (simp add: unsigned_of_int take_bit_int_eq_self)
  then have u: "unat (word_of_int (?e mod 1000000) div 1000 :: u32) = nat (?e mod 1000000 div 1000)"
    by (simp add: unat_div nat_div_distrib)
  show ?thesis by (simp add: utilLog_def utilInitialize_def d s u Let_def)
qed

end
