(* ===== verification/Spec2Isabelle.thy ===== *)
theory Spec2Isabelle
  imports Prelude Marker Message Ring Ids Receipts Database Statements Reassembly Inbound Outbound Sending Delivery
    Machine Resume Resend Thread System PacketQueue Framing TestPeer Startup Api Util
begin

section \<open>tox-defragmenter\<close>

text \<open>
  A verification library for tox-defragmenter, a C library that stands between a Tox client and
  toxcore.  It cuts messages that are longer than a Tox message into fragments, sends them a window
  at a time, resends those that are not acknowledged, and puts the fragments that arrive together
  again, on disk.  The definitions are translated from the sources; every static variable, guard and
  integer width that matters is in them.

  \<^bold>\<open>The parts and how they interact.\<close>

  \<^item> A fragment is a marker followed by a piece of the message.  The marker says which message, which
    part, how many parts, at what offset and of what size (\<open>marker.c\<close>, theory \<open>Marker\<close>).
  \<^item> \<open>splitMessage\<close> cuts a message into fragments (theory \<open>Message\<close>).  Messages that are being sent
    are linked in a ring on the heap (theory \<open>Ring\<close>), have an id from the clock and a receipt number
    for the client (theory \<open>Ids\<close>).
  \<^item> Each fragment sent awaits a receipt from tox, which is in a sorted array (theory \<open>Receipts\<close>).
    When it comes, the next fragments go out, and after the last one the client gets its receipt
    (theory \<open>Outbound\<close>: all handlers, periodic work, initialisation and shutdown).
  \<^item> An incoming message with a marker is stored in the SQLite database, and when all parts are there
    the client gets the whole message (theory \<open>Inbound\<close>).  Pending outbound messages are kept there
    too, to be loaded when the library starts (\<open>database.c\<close>, theories \<open>Database\<close> and \<open>Statements\<close>).
  \<^item> The client reaches all this through a table of functions that overloads toxcore's, and tox
    through two callbacks (theory \<open>Api\<close>).  A background thread does the periodic work.
  \<^item> \<open>test-peer.c\<close> is a client that exchanges messages with a second one over a socket (theories
    \<open>PacketQueue\<close>, \<open>Framing\<close>, \<open>TestPeer\<close>, \<open>Startup\<close>).

  \<^bold>\<open>How the model corresponds to the code.\<close>

  Structs are records (\<open>fragment\<close>, \<open>msg_outbound\<close>, \<open>receipt_record\<close>, \<open>params\<close>, \<open>packet\<close>), the
  static variables of \<open>tox-defragmenter.c\<close> are the record \<open>world\<close>, those of \<open>database.c\<close> the record
  \<open>database\<close>, those of the test peer \<open>peer\<close>.  Fixed-width integers are words.  Memory that is shared
  through pointers, the ring and the packet queues, is a map from addresses; NULL is \<open>None\<close>.  A
  function returns \<open>Inr\<close> of its result or \<open>Inl\<close> of a \<open>fault\<close>: an access outside an object, a NULL or
  dangling pointer, \<open>abort()\<close>, or, for loops with fuel, that the fuel did not suffice.  Definitions have
  the names of the functions that they model; a loop inside a function has a definition of its own.

  \<^bold>\<open>What stands for code outside the repository.\<close>

  toxcore and the clock are the record \<open>env\<close>: what they answer is a function of the trace of all
  calls before; the trace is the observable behaviour.  SQLite is the record \<open>engine\<close> for the two
  tables (rowids are not zero and not in use, a blob has a largest size: \<open>engine_ok\<close>), and the record
  \<open>sqlite\<close> for result codes.  A result code that the code does not expect is an abort, as in the
  code.  \<open>gettimeofday\<close> is an argument.  \<open>select\<close> and the sockets are the record \<open>system\<close>.

  What is assumed of toxcore is \<open>tox_receipts_ok\<close>: among the first \<open>n\<close> messages, those to one friend are
  numbered in ascending order.  That is its documentation, a count for each friend that starts again only
  after the greatest number; nothing is assumed on the numbers of different friends.  The base interface
  of the test peer meets it too (theory \<open>TestPeer\<close>).  The receipt table looks at the number alone, so what is
  said of sending holds while the table awaits receipts of one friend (\<open>rt_ok\<close>): theory \<open>Receipts\<close> shows
  how messages to two friends are confused, and records lost, when it does not.  \<open>reliable\<close>, where a
  theorem needs it, is a friend who is online and a network that takes what is sent to him.

  \<^bold>\<open>What the lemmas show.\<close>

  \<^item> \<open>Marker\<close>: a round trip, the language that \<open>markerExists\<close> accepts, sizes and where it reads past
    the end.  \<open>Message\<close>: the fragments put together are the message, and each fits.
  \<^item> \<open>Ring\<close>: linking, unlinking and deleting against the list of addresses in the ring.  \<open>Ids\<close>:
    freshness and termination; the client of the locale \<open>receipt_scan\<close> is \<open>generateReceiptNo\<close>.
  \<^item> \<open>Receipts\<close>: the array refines a list of awaited records, as long as receipts come in order
    (locale \<open>receipt_store\<close>), and the look-up answers for every number; and what is lost when they do not.
  \<^item> \<open>Database\<close>: the consistency of the tables is kept by every operation, and what each does to the
    counters of parts; confirmations are found
    again; \<open>Reassembly\<close>: the database refines a set of parts per message (locale \<open>assembler\<close>), so
    that each message is completed exactly once.  \<open>Statements\<close>: the prepared statements are used
    as SQLite demands.
  \<^item> \<open>Sending\<close>, \<open>Delivery\<close>: the outcome of sending a message, and that a long message, over a network
    that acknowledges in order, is sent completely and acknowledged to the client once.  \<open>Inbound\<close>: any
    interleaving of fragments of any messages.  \<open>System\<close>: two libraries, a message from client
    to client.  \<open>Machine\<close>: the library as a step relation and an invariant of all reachable states;
    \<open>Thread\<close>: the background thread on top of it, from its creation to its end.
  \<^item> \<open>Resume\<close>: what is left of a pending message after a restart, and one round of \<open>sendMore\<close>.
    \<open>Resend\<close>: which parts \<open>resendExpiredReceipts\<close> sends again, and that a part whose second sending
    fails is not sent any more, by any of the handlers.
  \<^item> \<open>PacketQueue\<close>: the linked queues refine lists (locale \<open>fifo\<close>).  \<open>Framing\<close>, \<open>TestPeer\<close>: what a peer
    writes is what the other one reads; short messages travel from interface to interface; when the
    loop ends.  \<open>Startup\<close>: what an exit with 0 means.  \<open>Api\<close>: whom tox and the library call.
    \<open>Util\<close>: the times and the stamps of the log.

  \<^bold>\<open>Bounds and fuel.\<close>

  Loops whose length depends on pointers take fuel: the ring scan needs as many rounds as there are
  messages, \<open>generateReceiptNo\<close> as many scans as there are messages, plus one; the theorems on them
  say how much is enough.  \<open>resendExpiredReceipts\<close> appends to the table that it goes through; twice
  the size of the table is enough.  \<open>threadFini\<close> waits for at most three moves of the thread.  The loop of \<open>generateMsgId\<close> is a partial function, whose value is \<open>None\<close>
  when it does not end, which is exactly when the last id is the greatest number.  \<open>tox_new\<close>
  and \<open>tox_kill\<close> have fuel because they call themselves, and no fuel is enough.  Other loops are
  structural or have a measure.  The counters of the receipt array are natural numbers: the array
  would exhaust the memory before they wrap.

  \<^bold>\<open>Not modelled.\<close>

  Data races between the background thread and the client, and what a compiler may make of the flag
  \<open>threadStopFlag\<close>, which is not volatile: a thread round is a step between two calls.  The members of toxcore's table that the library only copies.
  SQLite and toxcore themselves; \<open>sqlite-interface.h\<close> only declares them.  The blob cache of
  \<open>database.c\<close> (\<open>USE_BLOB_CACHE\<close> is not defined) and the \<open>LOG\<close> macros (they expand to comments).
  Allocation failures.  Callbacks of the client that call back into the library.  Errors of
  \<open>read\<close>, and closing files, in the test peer.  \<open>test.sh\<close> and the \<open>Makefile\<close>.
\<close>

end
